(* ===== verification/Kernel_Prelude.thy ===== *)
theory Kernel_Prelude
  imports Main "HOL-Library.Word" "HOL-Library.Multiset"
begin

section \<open>Prelude: machine words, bounded reads and shared lemmas\<close>

text \<open>
  The vocabulary every component theory shares. The model is the LP64 kernel (the \<open>_LP64\<close>
  branches of the sources): \<open>ulong_t\<close>, \<open>size_t\<close> and \<open>uintptr_t\<close> are 64-bit words.
  A read of an array element goes through \<open>nth_opt\<close>, so that a read past the end is a value
  of the model and not an unspecified one.
\<close>

unbundle bit_operations_syntax

subsection \<open>Integer types of the sources\<close>

type_synonym ulong = "64 word"
type_synonym uint32 = "32 word"
type_synonym uint16 = "16 word"
type_synonym uchar = "8 word"

subsection \<open>Array reads that can fail\<close>

definition nth_opt :: "'a list \<Rightarrow> nat \<Rightarrow> 'a option" where
  "nth_opt xs i = (if i < length xs then Some (xs ! i) else None)"

subsection \<open>Masks, shifts and powers of two\<close>

lemma and_minus_exp: "(x :: 'a::len word) AND - (2 ^ n) = x - take_bit n x"
proof -
  have "x = (x AND NOT (mask n)) + (x AND mask n)"
    by (simp add: bit_eq_iff disjunctive_add bit_simps) auto
  then show ?thesis
    by (simp add: minus_exp_eq_not_mask take_bit_eq_mask)
      (metis add_diff_cancel_right')
qed

lemma and_exp_minus_1: "(x :: 'a::len word) AND (2 ^ n - 1) = take_bit n x"
  by (simp add: take_bit_eq_mask mask_eq_exp_minus_1)

lemma unat_take_bit: "unat (take_bit n (x :: 'a::len word)) = unat x mod 2 ^ n"
  by (simp add: unsigned_take_bit_eq flip: take_bit_eq_mod)

lemma unat_drop_bit: "unat (drop_bit n (x :: 'a::len word)) = unat x div 2 ^ n"
  by (simp add: unat_drop_bit_eq flip: drop_bit_eq_div)

lemma take_bit_0_iff: "take_bit n (x::'a::len word) = 0 \<longleftrightarrow> (\<forall>j<n. \<not> bit x j)"
  by (auto simp: bit_eq_iff bit_simps dest: bit_imp_le_length)

lemma ge_exp_iff: "n < LENGTH('a) \<Longrightarrow> 2 ^ n \<le> unat (x::'a::len word) \<longleftrightarrow> drop_bit n x \<noteq> 0"
  by (simp add: unat_drop_bit unat_eq_zero word_unat_eq_iff div_eq_0_iff not_less)

lemma unat_exp [simp]:
  assumes "n < LENGTH('a)"
  shows "unat (2 ^ n :: 'a::len word) = 2 ^ n"
proof -
  have "(2 ^ n :: 'a word) = word_of_nat (2 ^ n)" by simp
  then have "unat (2 ^ n :: 'a word) = 2 ^ n mod 2 ^ LENGTH('a)"
    by (simp only: unat_of_nat)
  with assms show ?thesis by simp
qed

lemma unat_exp_minus_1: "n < LENGTH('a) \<Longrightarrow> unat (2 ^ n - 1 :: 'a::len word) = 2 ^ n - 1"
  by (subst unat_sub) (auto simp: word_le_nat_alt)

lemma nonzero_bitE:
  assumes "(w :: 'a::len word) \<noteq> 0"
  obtains k where "bit w k"
  using assms bit_eqI [of w 0] by auto

lemma xor_eq_0_iff: "(x :: 'a::len word) XOR y = 0 \<longleftrightarrow> x = y"
  by (metis xor.right_neutral xor.assoc xor_self_eq)

end
