(* ===== verification/Kernel_Bits.thy ===== *)
theory Kernel_Bits
  imports Kernel_Prelude
begin

section \<open>Bit operations: sysmacros.h and bitmap.c\<close>

text \<open>
  The power-of-two rounding macros of \<open>uts/common/sys/sysmacros.h\<close> and the bit searches of
  \<open>uts/common/os/bitmap.c\<close>, in their \<open>_LP64\<close> form. A bitmap is the list of its words; a
  read outside it is the fault \<open>BT_OutOfMap\<close>. The arena allocator and the cyclic subsystem
  build on these definitions. Bit positions are natural numbers; the searches that return a C
  \<open>int\<close> or an \<open>index_t\<close> (a 16-bit \<open>short\<close>) say so in their result.
\<close>

subsection \<open>Alignment and phase macros\<close>

definition P2ALIGN :: "ulong \<Rightarrow> ulong \<Rightarrow> ulong" where
  "P2ALIGN x align = x AND - align"

definition P2PHASE :: "ulong \<Rightarrow> ulong \<Rightarrow> ulong" where
  "P2PHASE x align = x AND (align - 1)"

definition P2NPHASE :: "ulong \<Rightarrow> ulong \<Rightarrow> ulong" where
  "P2NPHASE x align = (- x) AND (align - 1)"

definition P2ROUNDUP :: "ulong \<Rightarrow> ulong \<Rightarrow> ulong" where
  "P2ROUNDUP x align = - ((- x) AND - align)"

definition P2END :: "ulong \<Rightarrow> ulong \<Rightarrow> ulong" where
  "P2END x align = - ((NOT x) AND - align)"

definition P2PHASEUP :: "ulong \<Rightarrow> ulong \<Rightarrow> ulong \<Rightarrow> ulong" where
  "P2PHASEUP x align phase = phase - ((phase - x) AND - align)"

definition P2CROSS :: "ulong \<Rightarrow> ulong \<Rightarrow> ulong \<Rightarrow> bool" where
  "P2CROSS x y align \<longleftrightarrow> align - 1 < (x XOR y)"

subsection \<open>highbit() and lowbit()\<close>

text \<open>
  Each stage of \<open>highbit()\<close> halves the window that still can hold the highest bit: when a bit
  of the upper half (\<open>m\<close>) is set, \<open>s\<close> is added to the count and the word is shifted. The shift
  of the last stage is not observed. \<open>lowbit()\<close> is the mirror image on the lower half.
\<close>

fun hb_stage :: "ulong \<Rightarrow> nat \<Rightarrow> nat \<times> ulong \<Rightarrow> nat \<times> ulong" where
  "hb_stage m s (h, i) = (if i AND m \<noteq> 0 then (h + s, drop_bit s i) else (h, i))"

definition highbit :: "ulong \<Rightarrow> nat" where
  "highbit i =
     (if i = 0 then 0
      else fst (hb_stage 0x2 1 (hb_stage 0xc 2 (hb_stage 0xf0 4 (hb_stage 0xff00 8
                (hb_stage 0xffff0000 16 (hb_stage 0xffffffff00000000 32 (1, i))))))))"

fun lb_stage :: "ulong \<Rightarrow> nat \<Rightarrow> nat \<times> ulong \<Rightarrow> nat \<times> ulong" where
  "lb_stage m s (h, i) = (if i AND m = 0 then (h + s, drop_bit s i) else (h, i))"

definition lowbit :: "ulong \<Rightarrow> nat" where
  "lowbit i =
     (if i = 0 then 0
      else fst (lb_stage 0x1 1 (lb_stage 0x3 2 (lb_stage 0xf 4 (lb_stage 0xff 8
                (lb_stage 0xffff 16 (lb_stage 0xffffffff 32 (1, i))))))))"

subsection \<open>Searches in a bitmap\<close>

text \<open>
  The faults of a search: a read outside the map, and the overflow of an \<open>int\<close>, which C leaves undefined.
\<close>

datatype bt_fault = BT_OutOfMap | BT_Overflow

text \<open>A value converted to \<open>int\<close> keeps its low 32 bits, read as signed.\<close>

definition c_int :: "int \<Rightarrow> int" where
  "c_int x = (x + 2 ^ 31) mod 2 ^ 32 - 2 ^ 31"

text \<open>The \<open>int\<close> value \<open>wx << BT_ULSHIFT | bx\<close> of a position.\<close>

definition bt_pos :: "nat \<Rightarrow> int \<Rightarrow> bt_fault + int" where
  "bt_pos wx bx = (if wx < 2 ^ 25 then Inr (int wx * 64 + bx) else Inl BT_Overflow)"

definition BT_TEST :: "ulong list \<Rightarrow> nat \<Rightarrow> bt_fault + bool" where
  "BT_TEST bitmap bitindex =
     (case nth_opt bitmap (bitindex div 64) of
        None \<Rightarrow> Inl BT_OutOfMap
      | Some w \<Rightarrow> Inr (w AND push_bit (bitindex mod 64) 1 \<noteq> 0))"

text \<open>A value stored into an \<open>index_t\<close>, a \<open>short\<close>, keeps its low 16 bits, read as signed.\<close>

definition index_t :: "int \<Rightarrow> int" where
  "index_t x = (x + 2 ^ 15) mod 2 ^ 16 - 2 ^ 15"

text \<open>
  \<open>bt_availbit()\<close>: the loop over the words, with \<open>wx\<close> and \<open>maxword\<close> of type \<open>index_t\<close>, then
  the loop over the bits of the word it stopped at.
\<close>

function bt_availbit_word :: "ulong list \<Rightarrow> int \<Rightarrow> int \<Rightarrow> bt_fault + int" where
  "bt_availbit_word bitmap maxword wx =
     (if wx \<le> maxword then
        (if wx < 0 then Inl BT_OutOfMap
         else case nth_opt bitmap (nat wx) of
             None \<Rightarrow> Inl BT_OutOfMap
           | Some w \<Rightarrow> if w \<noteq> NOT 0 then Inr wx
                       else bt_availbit_word bitmap maxword (index_t (wx + 1)))
      else Inr wx)"
  by pat_completeness auto
termination
proof (relation "measure (\<lambda>(bm, mw, wx). if wx < 0 then 0 else if wx < 2 ^ 15 then nat (2 ^ 15 - wx)
    else 2 ^ 15 + 1)", goal_cases)
  case 1 show ?case by simp
next
  case (2 bitmap maxword wx w)
  consider "wx < 2 ^ 15 - 1" | "wx = 2 ^ 15 - 1" | "2 ^ 15 \<le> wx" by linarith
  then show ?case
  proof cases
    case 1
    with 2 have "index_t (wx + 1) = wx + 1" by (simp add: index_t_def)
    with 1 2 show ?thesis by simp
  next
    case 2
    then show ?thesis by (simp add: index_t_def)
  next
    case 3
    moreover have "index_t (wx + 1) < 2 ^ 15" by (simp add: index_t_def)
    ultimately show ?thesis by auto
  qed
qed

fun bt_availbit_bit :: "ulong \<Rightarrow> nat \<Rightarrow> nat \<Rightarrow> nat option" where
  "bt_availbit_bit word bx 0 = None"
| "bt_availbit_bit word bx (Suc left) =
     (if word AND push_bit bx 1 = 0 then Some bx else bt_availbit_bit word (Suc bx) left)"

definition bt_availbit :: "ulong list \<Rightarrow> ulong \<Rightarrow> bt_fault + int" where
  "bt_availbit bitmap nbits =
     (let nbits = nbits - 1;
          maxword = index_t (uint (drop_bit 6 nbits))
      in case bt_availbit_word bitmap maxword 0 of
           Inl f \<Rightarrow> Inl f
         | Inr wx \<Rightarrow>
             if wx \<le> maxword then
               (let maxbit = (if wx = maxword then unat (nbits AND 63) else 63)
                in case bt_availbit_bit (bitmap ! nat wx) 0 (Suc maxbit) of
                     Some bx \<Rightarrow> Inr (index_t (wx * 64 + int bx))
                   | None \<Rightarrow> Inr (- 1))
             else Inr (- 1))"

fun bt_gethighbit :: "ulong list \<Rightarrow> nat \<Rightarrow> bt_fault + int" where
  "bt_gethighbit mapp wx =
     (case nth_opt mapp wx of
        None \<Rightarrow> Inl BT_OutOfMap
      | Some word \<Rightarrow>
          if word = 0 then (case wx of 0 \<Rightarrow> Inr (- 1) | Suc wx' \<Rightarrow> bt_gethighbit mapp wx')
          else bt_pos wx (int (highbit word) - 1))"

text \<open>
  \<open>bt_range()\<close> runs the same scan twice, first for a bit that is set and then, from there, for
  one that is clear; the result is the pair of positions it stores, or \<open>None\<close> for its
  failure return 0.
\<close>

function bt_scan :: "ulong list \<Rightarrow> bool \<Rightarrow> nat \<Rightarrow> nat \<Rightarrow> bt_fault + nat" where
  "bt_scan bitmap stop inx nbits =
     (if inx < nbits then
        (case BT_TEST bitmap inx of
           Inl f \<Rightarrow> Inl f
         | Inr b \<Rightarrow> if b = stop then Inr inx else bt_scan bitmap stop (Suc inx) nbits)
      else Inr inx)"
  by pat_completeness auto
termination by (relation "measure (\<lambda>(bm, b, i, n). n - i)") auto

definition bt_range :: "ulong list \<Rightarrow> nat \<Rightarrow> nat \<Rightarrow> bt_fault + (nat \<times> nat) option" where
  "bt_range bitmap pos1 nbits =
     (case bt_scan bitmap True pos1 nbits of
        Inl f \<Rightarrow> Inl f
      | Inr inx \<Rightarrow>
          if inx = nbits then Inr None
          else (case bt_scan bitmap False inx nbits of
                  Inl f \<Rightarrow> Inl f
                | Inr end \<Rightarrow> Inr (Some (inx, end - 1))))"

text \<open>
  \<open>bt_getlowbit()\<close>: the first word with the bits below \<open>start\<close> masked off, the loop that
  reads \<open>map[++wx]\<close> while the current word is 0 and \<open>wx <= limit\<close>, and the treatment of the
  last word.
\<close>

function bt_getlowbit_loop :: "ulong list \<Rightarrow> int \<Rightarrow> ulong \<Rightarrow> nat \<Rightarrow> bt_fault + ulong \<times> nat" where
  "bt_getlowbit_loop mapp limit word wx =
     (if word = 0 \<and> int wx \<le> limit then
        if Suc wx = 2 ^ 31 then Inl BT_Overflow
        else (case nth_opt mapp (Suc wx) of
           None \<Rightarrow> Inl BT_OutOfMap
         | Some w \<Rightarrow> bt_getlowbit_loop mapp limit w (Suc wx))
      else Inr (word, wx))"
  by pat_completeness auto
termination by (relation "measure (\<lambda>(m, l, w, wx). nat (l + 1 - int wx))") auto

definition bt_first_word :: "ulong \<Rightarrow> nat \<Rightarrow> ulong" where
  "bt_first_word word start =
     (let startbits = start mod 64
      in if startbits \<noteq> 0 then word AND push_bit startbits (- 1) else word)"

definition bt_limit :: "nat \<Rightarrow> int" where
  "bt_limit stop = c_int (if stop mod 64 = 63 then int (stop div 64) else int (stop div 64) - 1)"

definition bt_last_word :: "nat \<Rightarrow> ulong \<Rightarrow> nat \<Rightarrow> bt_fault + int" where
  "bt_last_word stop word wx =
     (let limitbits = stop mod 64
      in if bt_limit stop < int wx then
           (if limitbits = 63 then Inr (- 1)
            else let word = word AND NOT (push_bit (limitbits + 1) (- 1))
                 in if word = 0 then Inr (- 1) else bt_pos wx (int (lowbit word) - 1))
         else bt_pos wx (int (lowbit word) - 1))"

definition bt_getlowbit :: "ulong list \<Rightarrow> nat \<Rightarrow> nat \<Rightarrow> bt_fault + int" where
  "bt_getlowbit mapp start stop =
     (let wx = c_int (int (start div 64))
      in if stop < start then Inr (- 1)
         else if wx < 0 \<or> int (length mapp) \<le> wx then Inl BT_OutOfMap
         else case bt_getlowbit_loop mapp (bt_limit stop) (bt_first_word (mapp ! nat wx) start) (nat wx) of
                Inl f \<Rightarrow> Inl f
              | Inr (word, wx) \<Rightarrow> bt_last_word stop word wx)"

declare bt_availbit_word.simps [simp del] bt_gethighbit.simps [simp del]
  bt_scan.simps [simp del] bt_getlowbit_loop.simps [simp del]

subsection \<open>The macros on powers of two\<close>

lemma P2_exp:
  "P2ALIGN x (2 ^ k) = x - take_bit k x"
  "P2PHASE x (2 ^ k) = take_bit k x"
  "P2NPHASE x (2 ^ k) = take_bit k (- x)"
  "P2ROUNDUP x (2 ^ k) = x + take_bit k (- x)"
  "P2PHASEUP x (2 ^ k) p = x + take_bit k (p - x)"
  by (simp_all add: P2ALIGN_def P2PHASE_def P2NPHASE_def P2ROUNDUP_def P2PHASEUP_def
      and_minus_exp and_exp_minus_1 del: take_bit_minus)

lemma P2CROSS_exp:
  assumes "k < 64"
  shows "P2CROSS x y (2 ^ k) \<longleftrightarrow> drop_bit k x \<noteq> drop_bit k y"
proof -
  have u: "unat (2 ^ k - 1 :: ulong) = 2 ^ k - 1"
    using assms by (simp add: unat_exp_minus_1)
  have "P2CROSS x y (2 ^ k) \<longleftrightarrow> 2 ^ k \<le> unat (x XOR y)"
    using one_le_power [of "2::nat" k] unfolding P2CROSS_def word_less_nat_alt u by linarith
  also have "\<dots> \<longleftrightarrow> drop_bit k x XOR drop_bit k y \<noteq> 0"
    using assms by (simp add: ge_exp_iff drop_bit_xor)
  finally show ?thesis by (simp add: xor_eq_0_iff)
qed

lemma P2CROSS_0: "\<not> P2CROSS x y 0"
  by (simp add: P2CROSS_def not_less)

lemma drop_bit_eq_iff_div: "drop_bit k (x::ulong) = drop_bit k y \<longleftrightarrow> unat x div 2 ^ k = unat y div 2 ^ k"
  by (simp add: word_unat_eq_iff unat_drop_bit)

subsection \<open>Correctness of highbit() and lowbit()\<close>

definition hb_inv :: "ulong \<Rightarrow> nat \<Rightarrow> nat \<times> ulong \<Rightarrow> bool" where
  "hb_inv i0 w = (\<lambda>(h, i). 1 \<le> h \<and> i \<noteq> 0 \<and> drop_bit (h - 1) i0 = i \<and> drop_bit w i = 0)"

lemma hb_mask:
  assumes "drop_bit (2 * s) i = 0"
  shows "i AND push_bit s (mask s) \<noteq> 0 \<longleftrightarrow> drop_bit s (i::ulong) \<noteq> 0"
proof -
  have above: "n < 2 * s" if "bit i n" for n
  proof (rule ccontr)
    assume "\<not> n < 2 * s"
    then have "bit i n = bit (drop_bit (2 * s) i) (n - 2 * s)"
      by (simp add: bit_drop_bit_eq)
    then show False using that assms by simp
  qed
  have lhs: "bit (i AND push_bit s (mask s)) n \<longleftrightarrow> s \<le> n \<and> bit i n" for n
    using above [of n] bit_imp_le_length [of i n] by (auto simp: bit_simps)
  have rhs: "bit (drop_bit s i) n \<longleftrightarrow> bit i (s + n)" for n
    by (simp add: bit_drop_bit_eq)
  have "i AND push_bit s (mask s) = 0 \<longleftrightarrow> (\<forall>n. \<not> (s \<le> n \<and> bit i n))"
    by (metis bit_0_eq bot_apply bot_bool_def lhs bit_eqI)
  also have "\<dots> \<longleftrightarrow> (\<forall>n. \<not> bit i (s + n))"
    by (metis le_add1 le_Suc_ex)
  also have "\<dots> \<longleftrightarrow> drop_bit s i = 0"
    by (metis bit_0_eq bot_apply bot_bool_def rhs bit_eqI)
  finally show ?thesis by simp
qed

lemma hb_step:
  assumes "hb_inv i0 w p" and "w = 2 * s" and "M = push_bit s (mask s)"
  shows "hb_inv i0 s (hb_stage M s p)"
proof -
  obtain h i where p: "p = (h, i)" by fastforce
  with assms have h: "1 \<le> h" and nz: "i \<noteq> 0" and i: "drop_bit (h - 1) i0 = i"
    and z: "drop_bit (2 * s) i = 0" by (auto simp: hb_inv_def)
  have "drop_bit (h + s - 1) i0 = drop_bit s i" "drop_bit s (drop_bit s i) = 0"
    using h i z by (auto simp: drop_bit_drop_bit mult_2 add.commute [of h s])
  then show ?thesis
    using hb_mask [OF z] h nz i assms(3) p by (simp add: hb_inv_def)
qed

lemma highbit_inv:
  assumes "i \<noteq> 0"
  shows "\<exists>j. hb_inv i 1 (highbit i, j)"
proof -
  have "hb_inv i 64 (1, i)"
    using assms by (simp add: hb_inv_def)
  then have "hb_inv i 1 (hb_stage 0x2 1 (hb_stage 0xc 2 (hb_stage 0xf0 4 (hb_stage 0xff00 8
                (hb_stage 0xffff0000 16 (hb_stage 0xffffffff00000000 32 (1, i)))))))"
    by (intro hb_step [where w = 2] hb_step [where w = 4] hb_step [where w = 8]
        hb_step [where w = 16] hb_step [where w = 32] hb_step [where w = 64])
      (simp_all add: mask_eq_exp_minus_1 push_bit_eq_mult del: hb_stage.simps)
  then show ?thesis
    using assms by (metis highbit_def prod.collapse)
qed

lemma highbit_0 [simp]: "highbit 0 = 0" and lowbit_0 [simp]: "lowbit 0 = 0"
  by (simp_all add: highbit_def lowbit_def)

lemma highbit_bounds:
  assumes "i \<noteq> 0"
  shows "1 \<le> highbit i" "highbit i \<le> 64" "2 ^ (highbit i - 1) \<le> unat i" "unat i < 2 ^ highbit i"
proof -
  let ?h = "highbit i"
  from highbit_inv [OF assms] have h: "1 \<le> ?h" and nz: "drop_bit (?h - 1) i \<noteq> 0"
    and z: "drop_bit 1 (drop_bit (?h - 1) i) = 0"
    by (auto simp: hb_inv_def)
  show "1 \<le> ?h" by (rule h)
  have lt: "?h - 1 < 64"
  proof (rule ccontr)
    assume "\<not> ?h - 1 < 64"
    then have "drop_bit (?h - 1) i = 0" by (intro drop_bit_word_beyond) simp
    with nz show False by simp
  qed
  then show "?h \<le> 64" by simp
  from ge_exp_iff [of "?h - 1" i] lt nz show "2 ^ (?h - 1) \<le> unat i" by simp
  from z h have "drop_bit ?h i = 0" by (simp add: drop_bit_drop_bit)
  then have "unat (drop_bit ?h i) = 0" by simp
  then show "unat i < 2 ^ ?h" by (simp add: unat_drop_bit div_eq_0_iff)
qed

definition lb_inv :: "ulong \<Rightarrow> nat \<Rightarrow> nat \<times> ulong \<Rightarrow> bool" where
  "lb_inv i0 w = (\<lambda>(h, i). 1 \<le> h \<and> drop_bit (h - 1) i0 = i \<and> take_bit (h - 1) i0 = 0
     \<and> take_bit w i \<noteq> 0)"

lemma lb_step:
  assumes "lb_inv i0 w p" and "w = 2 * s" and "M = mask s"
  shows "lb_inv i0 s (lb_stage M s p)"
proof -
  obtain h i where p: "p = (h, i)" by fastforce
  from assms p have h: "1 \<le> h" and i: "drop_bit (h - 1) i0 = i" and z: "take_bit (h - 1) i0 = 0"
    and nz: "take_bit (2 * s) i \<noteq> 0" by (auto simp: lb_inv_def)
  show ?thesis
  proof (cases "take_bit s i = 0")
    case True
    have "take_bit (h + s - 1) i0 = 0"
      unfolding take_bit_0_iff
    proof (intro allI impI)
      fix j assume j: "j < h + s - 1"
      show "\<not> bit i0 j"
      proof (cases "j < h - 1")
        case True then show ?thesis using z by (simp add: take_bit_0_iff)
      next
        case False
        then have "bit i0 j = bit i (j - (h - 1))" using i by (auto simp: bit_drop_bit_eq)
        moreover have "j - (h - 1) < s" using False j h by linarith
        ultimately show ?thesis using True by (simp add: take_bit_0_iff)
      qed
    qed
    moreover have "take_bit s (drop_bit s i) \<noteq> 0"
    proof -
      from nz obtain j where j: "j < 2 * s" "bit i j" by (auto simp: take_bit_0_iff)
      with True have "s \<le> j" by (meson not_le take_bit_0_iff)
      with j have "bit (drop_bit s i) (j - s)" "j - s < s" by (auto simp: bit_drop_bit_eq)
      then show ?thesis by (auto simp: take_bit_0_iff)
    qed
    ultimately show ?thesis
      using True assms(3) p h i
      by (auto simp: lb_inv_def take_bit_eq_mask drop_bit_drop_bit ac_simps)
  next
    case False
    then show ?thesis using assms(3) p h i z by (simp add: lb_inv_def take_bit_eq_mask)
  qed
qed

lemma lowbit_inv:
  assumes "i \<noteq> 0"
  shows "\<exists>j. lb_inv i 1 (lowbit i, j)"
proof -
  have "lb_inv i 64 (1, i)"
    using assms by (simp add: lb_inv_def take_bit_word_eq_self)
  then have "lb_inv i 1 (lb_stage 0x1 1 (lb_stage 0x3 2 (lb_stage 0xf 4 (lb_stage 0xff 8
                (lb_stage 0xffff 16 (lb_stage 0xffffffff 32 (1, i)))))))"
    by (intro lb_step [where w = 2] lb_step [where w = 4] lb_step [where w = 8]
        lb_step [where w = 16] lb_step [where w = 32] lb_step [where w = 64])
      (simp_all add: mask_eq_exp_minus_1 del: lb_stage.simps)
  then show ?thesis
    using assms by (metis lowbit_def prod.collapse)
qed

lemma lowbit_least:
  assumes "i \<noteq> 0"
  shows "1 \<le> lowbit i" "lowbit i \<le> 64" "bit i (lowbit i - 1)" "j < lowbit i - 1 \<Longrightarrow> \<not> bit i j"
proof -
  let ?h = "lowbit i"
  from lowbit_inv [OF assms] have h: "1 \<le> ?h" and z: "take_bit (?h - 1) i = 0"
    and b: "take_bit 1 (drop_bit (?h - 1) i) \<noteq> 0"
    by (auto simp: lb_inv_def)
  from b have "bit (drop_bit (?h - 1) i) 0"
    by (auto simp: take_bit_0_iff simp del: take_bit_Suc_0)
  then show bit: "bit i (?h - 1)" by (simp add: bit_drop_bit_eq)
  from bit_imp_le_length [OF bit] show "?h \<le> 64" by simp
  show "1 \<le> ?h" by (rule h)
  show "j < ?h - 1 \<Longrightarrow> \<not> bit i j" using z by (simp add: take_bit_0_iff)
qed



subsection \<open>Bits of a map, and the searches\<close>

definition bt_bit :: "ulong list \<Rightarrow> nat \<Rightarrow> bool" where
  "bt_bit bm j = bit (bm ! (j div 64)) (j mod 64)"

lemmas bt_mask = and_exp_eq_0_iff_not_bit

lemma BT_TEST_eq: "j div 64 < length bm \<Longrightarrow> BT_TEST bm j = Inr (bt_bit bm j)"
  by (simp add: BT_TEST_def nth_opt_def bt_bit_def bt_mask)

lemma bt_bit_word: "b < 64 \<Longrightarrow> bt_bit bm (wx * 64 + b) = bit (bm ! wx) b"
  by (simp add: bt_bit_def)

lemma bt_bit_splitE:
  obtains wx b where "j = wx * 64 + b" "b < (64::nat)"
proof
  show "j = j div 64 * 64 + j mod 64" by simp
  show "j mod 64 < 64" by simp
qed

lemma index_t_id: "- (2 ^ 15) \<le> x \<Longrightarrow> x < 2 ^ 15 \<Longrightarrow> index_t x = x"
  by (simp add: index_t_def)

lemma bt_availbit_word_spec:
  assumes "0 \<le> wx" "wx \<le> mw + 1" "mw < 2 ^ 15 - 1" "mw < int (length bm)"
  shows "\<exists>r. bt_availbit_word bm mw wx = Inr r \<and> wx \<le> r \<and> r \<le> mw + 1 \<and>
     (\<forall>k. wx \<le> int k \<longrightarrow> int k < r \<longrightarrow> bm ! k = NOT 0) \<and> (r \<le> mw \<longrightarrow> bm ! nat r \<noteq> NOT 0)"
  using assms
proof (induction bm mw wx rule: bt_availbit_word.induct)
  case (1 bm mw wx)
  show ?case
  proof (cases "wx \<le> mw \<and> bm ! nat wx = NOT 0")
    case True
    have nxt: "index_t (wx + 1) = wx + 1" using "1.prems" True by (intro index_t_id) auto
    have nth: "nth_opt bm (nat wx) = Some (bm ! nat wx)"
      using "1.prems" True by (simp add: nth_opt_def nat_less_iff)
    obtain r where r: "bt_availbit_word bm mw (wx + 1) = Inr r" "wx + 1 \<le> r" "r \<le> mw + 1"
      "\<forall>k. wx + 1 \<le> int k \<longrightarrow> int k < r \<longrightarrow> bm ! k = NOT 0" "r \<le> mw \<longrightarrow> bm ! nat r \<noteq> NOT 0"
      using "1.IH" [of "bm ! nat wx"] "1.prems" True nth nxt by fastforce
    have "bt_availbit_word bm mw wx = Inr r"
      using r(1) nxt nth True "1.prems" by (simp add: bt_availbit_word.simps [of bm mw wx])
    moreover have "bm ! k = NOT 0" if "wx \<le> int k" "int k < r" for k
      using that r(4) True by (cases "int k = wx") auto
    ultimately show ?thesis using r by auto
  next
    case False
    then show ?thesis
      using "1.prems" by (auto simp: bt_availbit_word.simps [of bm mw wx] nth_opt_def nat_less_iff)
  qed
qed

lemma bt_availbit_bit_spec:
  "bx + n \<le> 64 \<Longrightarrow>
   (case bt_availbit_bit w bx n of
      None \<Rightarrow> \<forall>b. bx \<le> b \<longrightarrow> b < bx + n \<longrightarrow> bit w b
    | Some r \<Rightarrow> bx \<le> r \<and> r < bx + n \<and> \<not> bit w r \<and> (\<forall>b. bx \<le> b \<longrightarrow> b < r \<longrightarrow> bit w b))"
proof (induction w bx n rule: bt_availbit_bit.induct)
  case (2 w bx n)
  show ?case
  proof (cases "bit w bx")
    case True
    have ext: "\<forall>b. bx \<le> b \<longrightarrow> b < m \<longrightarrow> bit w b" if "\<forall>b. Suc bx \<le> b \<longrightarrow> b < m \<longrightarrow> bit w b" for m
    proof (intro allI impI)
      fix b assume "bx \<le> b" "b < m"
      then show "bit w b" using that True by (cases "b = bx") auto
    qed
    have rec: "bt_availbit_bit w bx (Suc n) = bt_availbit_bit w (Suc bx) n"
      using True by (simp add: bt_mask)
    from 2 True have IH: "case bt_availbit_bit w (Suc bx) n of
        None \<Rightarrow> \<forall>b. Suc bx \<le> b \<longrightarrow> b < Suc bx + n \<longrightarrow> bit w b
      | Some r \<Rightarrow> Suc bx \<le> r \<and> r < Suc bx + n \<and> \<not> bit w r \<and> (\<forall>b. Suc bx \<le> b \<longrightarrow> b < r \<longrightarrow> bit w b)"
      by (simp add: bt_mask)
    show ?thesis
      unfolding rec
    proof (cases "bt_availbit_bit w (Suc bx) n")
      case None
      with IH ext [of "bx + Suc n"] show "case bt_availbit_bit w (Suc bx) n of
        None \<Rightarrow> \<forall>b. bx \<le> b \<longrightarrow> b < bx + Suc n \<longrightarrow> bit w b
      | Some r \<Rightarrow> bx \<le> r \<and> r < bx + Suc n \<and> \<not> bit w r \<and> (\<forall>b. bx \<le> b \<longrightarrow> b < r \<longrightarrow> bit w b)"
        by simp
    next
      case (Some r)
      with IH ext [of r] show "case bt_availbit_bit w (Suc bx) n of
        None \<Rightarrow> \<forall>b. bx \<le> b \<longrightarrow> b < bx + Suc n \<longrightarrow> bit w b
      | Some r \<Rightarrow> bx \<le> r \<and> r < bx + Suc n \<and> \<not> bit w r \<and> (\<forall>b. bx \<le> b \<longrightarrow> b < r \<longrightarrow> bit w b)"
        by simp
    qed
  next
    case False
    with 2 show ?thesis by (simp add: bt_mask)
  qed
qed simp

lemma all_ones_iff: "(w::ulong) = NOT 0 \<longleftrightarrow> (\<forall>b<64. bit w b)"
proof
  assume "\<forall>b<64. bit w b"
  then show "w = NOT 0" by (intro bit_eqI) (auto simp: bit_simps)
qed (simp add: bit_simps)

lemma and_63: "(w::ulong) AND 63 = take_bit 6 w"
  using and_exp_minus_1 [of w 6] by simp

lemma div_mod_block:
  fixes j wx :: nat
  assumes "wx * 64 \<le> j" "j < wx * 64 + 64"
  shows "j div 64 = wx" "j mod 64 = j - wx * 64"
proof -
  obtain c where "j = wx * 64 + c" "c < 64" using assms by (metis add_less_cancel_left le_Suc_ex)
  then show "j div 64 = wx" "j mod 64 = j - wx * 64" by auto
qed

lemma bt_availbit_least:
  assumes "0 < unat nbits" and "unat nbits \<le> 2 ^ 15" and "unat nbits \<le> 64 * length bm"
  shows "\<exists>r. bt_availbit bm nbits = Inr r \<and>
    (if \<exists>j < unat nbits. \<not> bt_bit bm j
     then 0 \<le> r \<and> nat r < unat nbits \<and> \<not> bt_bit bm (nat r) \<and> (\<forall>j < nat r. bt_bit bm j)
     else r = - 1)"
proof -
  define n where "n = unat nbits - 1"
  define mw where "mw = n div 64"
  have un: "unat (nbits - 1) = n"
    using assms(1) by (simp add: n_def unat_sub word_le_nat_alt)
  have mwlt: "mw < 512" "mw < length bm" using assms by (auto simp: mw_def n_def)
  have "int (unat (drop_bit 6 (nbits - 1))) = int mw"
    by (simp only: unat_drop_bit un) (simp add: mw_def)
  then have imw: "index_t (uint (drop_bit 6 (nbits - 1))) = int mw"
    using mwlt by (subst index_t_id) auto
  have mb: "unat ((nbits - 1) AND 63) = n mod 64" by (simp add: and_63 unat_take_bit un)
  obtain r0 where "bt_availbit_word bm (int mw) 0 = Inr r0" "0 \<le> r0" "r0 \<le> int mw + 1"
    "\<forall>k. 0 \<le> int k \<longrightarrow> int k < r0 \<longrightarrow> bm ! k = NOT 0" "r0 \<le> int mw \<longrightarrow> bm ! nat r0 \<noteq> NOT 0"
    using bt_availbit_word_spec [of 0 "int mw" bm] mwlt by auto
  then obtain wx where w: "bt_availbit_word bm (int mw) 0 = Inr (int wx)" "wx \<le> mw + 1"
    and ones: "\<And>k. k < wx \<Longrightarrow> bm ! k = NOT 0" and notones: "wx \<le> mw \<Longrightarrow> bm ! wx \<noteq> NOT 0"
    by (cases r0) auto
  have below: "bt_bit bm j" if "j < wx * 64" for j
    using that ones [of "j div 64"] by (simp add: bt_bit_def less_mult_imp_div_less bit_simps)
  define mxb where "mxb = (if wx = mw then n mod 64 else 63)"
  have "n mod 64 < 64" by simp
  then have "n mod 64 \<le> 63" by linarith
  then have mx: "mxb \<le> 63" by (simp only: mxb_def split: if_split) simp
  show ?thesis
  proof (cases "wx \<le> mw")
    case False
    then have "wx = mw + 1" using w(2) by simp
    then have "\<forall>j < unat nbits. bt_bit bm j"
      using below assms(1) by (auto simp: n_def mw_def)
    moreover have "bt_availbit bm nbits = Inr (- 1)"
      using False w by (simp add: bt_availbit_def Let_def imw)
    ultimately show ?thesis by auto
  next
    case True
    have scan: "case bt_availbit_bit (bm ! wx) 0 (Suc mxb) of
        None \<Rightarrow> \<forall>b. 0 \<le> b \<longrightarrow> b < 0 + Suc mxb \<longrightarrow> bit (bm ! wx) b
      | Some r \<Rightarrow> 0 \<le> r \<and> r < 0 + Suc mxb \<and> \<not> bit (bm ! wx) r \<and> (\<forall>b. 0 \<le> b \<longrightarrow> b < r \<longrightarrow> bit (bm ! wx) b)"
      using mx by (intro bt_availbit_bit_spec) simp
    have val: "bt_availbit bm nbits = (case bt_availbit_bit (bm ! wx) 0 (Suc mxb) of
        Some bx \<Rightarrow> Inr (index_t (int wx * 64 + int bx)) | None \<Rightarrow> Inr (- 1))"
      using True w by (simp add: bt_availbit_def Let_def imw mb mxb_def cong: option.case_cong)
    show ?thesis
    proof (cases "bt_availbit_bit (bm ! wx) 0 (Suc mxb)")
      case None
      have "wx = mw"
      proof (rule ccontr)
        assume "wx \<noteq> mw"
        with scan None have "\<forall>b<64. bit (bm ! wx) b" by (simp add: mxb_def)
        with notones [OF True] show False using all_ones_iff by blast
      qed
      have "bt_bit bm j" if "j < unat nbits" for j
      proof (cases "j < wx * 64")
        case False
        have jn: "j \<le> wx * 64 + n mod 64"
          using that \<open>wx = mw\<close> div_mult_mod_eq [of n 64] by (simp add: n_def mw_def)
        with False \<open>n mod 64 < 64\<close> have "j div 64 = wx" "j mod 64 = j - wx * 64"
          by (auto intro: div_mod_block)
        with jn scan None \<open>wx = mw\<close> show ?thesis by (simp add: bt_bit_def mxb_def)
      qed (simp add: below)
      with None val show ?thesis by auto
    next
      case (Some b)
      with scan have b: "b < Suc mxb" "\<not> bit (bm ! wx) b" "\<forall>c<b. bit (bm ! wx) c" by auto
      have b64: "b < 64" using b(1) by (auto simp: mxb_def split: if_splits)
      have lt: "wx * 64 + b < unat nbits"
      proof (cases "wx = mw")
        case True
        then have "wx * 64 + b \<le> wx * 64 + n mod 64" using b(1) by (simp add: mxb_def)
        also have "\<dots> = n" using True by (simp add: mw_def)
        finally show ?thesis using assms(1) by (simp add: n_def)
      next
        case False
        then have "Suc wx * 64 \<le> mw * 64" using True by (intro mult_le_mono1) simp
        also have "\<dots> \<le> n" unfolding mw_def by (rule div_times_less_eq_dividend)
        finally show ?thesis using b64 assms(1) by (simp add: n_def)
      qed
      have idx: "index_t (int wx * 64 + int b) = int (wx * 64 + b)"
        using lt assms(2) by (subst index_t_id) auto
      have low: "bt_bit bm j" if "j < wx * 64 + b" for j
      proof (cases "j < wx * 64")
        case False
        then have "j div 64 = wx" "j mod 64 = j - wx * 64"
          using that b64 by (auto intro: div_mod_block)
        then show ?thesis using b(3) that False by (auto simp: bt_bit_def)
      qed (simp add: below)
      have "\<not> bt_bit bm (wx * 64 + b)" using b(2) b64 by (simp add: bt_bit_word)
      moreover have "bt_availbit bm nbits = Inr (int (wx * 64 + b))"
        using val Some idx by simp
      ultimately show ?thesis using lt low by (auto simp del: of_nat_add of_nat_mult)
    qed
  qed
qed

lemma c_int_id: "- (2 ^ 31) \<le> x \<Longrightarrow> x < 2 ^ 31 \<Longrightarrow> c_int x = x"
  by (simp add: c_int_def)

lemma bt_limit_id: "stop < 2 ^ 31 \<Longrightarrow> bt_limit stop = (if stop mod 64 = 63 then int (stop div 64) else int (stop div 64) - 1)"
  unfolding bt_limit_def by (rule c_int_id) (simp_all, linarith+)

lemma bt_getlowbit_loop_spec:
  assumes "wx < length bm" "nat (limit + 1) < length bm" "start < Suc wx * 64" "limit + 1 < 2 ^ 31"
    and "\<And>b. bit w b \<longleftrightarrow> b < 64 \<and> start \<le> wx * 64 + b \<and> bt_bit bm (wx * 64 + b)"
    and "\<And>j. start \<le> j \<Longrightarrow> j < wx * 64 \<Longrightarrow> \<not> bt_bit bm j"
  shows "\<exists>w' wx'. bt_getlowbit_loop bm limit w wx = Inr (w', wx') \<and> wx \<le> wx' \<and> wx' < length bm \<and>
     (w' = 0 \<longrightarrow> limit < int wx') \<and> (int wx \<le> limit \<longrightarrow> int wx' \<le> limit + 1) \<and>
     (limit < int wx \<longrightarrow> wx' = wx) \<and>
     (\<forall>b. bit w' b \<longleftrightarrow> b < 64 \<and> start \<le> wx' * 64 + b \<and> bt_bit bm (wx' * 64 + b)) \<and>
     (\<forall>j. start \<le> j \<longrightarrow> j < wx' * 64 \<longrightarrow> \<not> bt_bit bm j)"
  using assms
proof (induction bm limit w wx rule: bt_getlowbit_loop.induct)
  case (1 bm limit w wx)
  show ?case
  proof (cases "w = 0 \<and> int wx \<le> limit")
    case False
    then have "bt_getlowbit_loop bm limit w wx = Inr (w, wx)"
      by (auto simp: bt_getlowbit_loop.simps [of bm limit w wx])
    then show ?thesis using False "1.prems" by auto
  next
    case True
    then have len: "Suc wx < length bm" using "1.prems"(2) by linarith
    have n31: "Suc wx \<noteq> 2 ^ 31" using True "1.prems"(4) by (auto simp: nat_less_iff)
    have step: "bt_getlowbit_loop bm limit w wx = bt_getlowbit_loop bm limit (bm ! Suc wx) (Suc wx)"
      using True len n31 by (subst bt_getlowbit_loop.simps) (simp add: nth_opt_def)
    have none: "\<not> bt_bit bm j" if j: "start \<le> j" "j < Suc wx * 64" for j
    proof (cases "j < wx * 64")
      case False
      then obtain b where "j = wx * 64 + b" "b < 64"
        using j(2) by (metis add_diff_inverse_nat add_less_cancel_left mult_Suc add.commute)
      then show ?thesis using "1.prems"(5) [of b] True j(1) by simp
    qed (use j "1.prems"(6) in blast)
    have bits: "bit (bm ! Suc wx) b \<longleftrightarrow> b < 64 \<and> start \<le> Suc wx * 64 + b \<and> bt_bit bm (Suc wx * 64 + b)" for b
      using "1.prems"(3) bit_imp_le_length [of "bm ! Suc wx" b] bt_bit_word [of b bm "Suc wx"] by auto
    show ?thesis
      unfolding step using "1.IH" [of "bm ! Suc wx"] True len n31 "1.prems"(2,3,4) none bits
      by (fastforce simp: nth_opt_def)
  qed
qed

lemma bt_lowest_word:
  assumes "\<And>b. bit w b \<longleftrightarrow> b < 64 \<and> start \<le> wx * 64 + b \<and> wx * 64 + b \<le> stop \<and> bt_bit bm (wx * 64 + b)"
    and "\<And>j. start \<le> j \<Longrightarrow> j < wx * 64 \<Longrightarrow> \<not> bt_bit bm j" and "(w::ulong) \<noteq> 0"
  shows "\<exists>j. int wx * 64 + (int (lowbit w) - 1) = int j \<and> start \<le> j \<and> j \<le> stop \<and> bt_bit bm j \<and>
    (\<forall>i. start \<le> i \<longrightarrow> i < j \<longrightarrow> \<not> bt_bit bm i)"
proof -
  let ?b = "lowbit w - 1"
  note l = lowbit_least [OF assms(3)]
  have "\<not> bt_bit bm i" if i: "start \<le> i" "i < wx * 64 + ?b" for i
  proof (cases "i < wx * 64")
    case False
    then obtain b where b: "i = wx * 64 + b" "b < ?b"
      using i(2) by (metis add_diff_inverse_nat add_less_cancel_left)
    then have "\<not> bit w b" using l(4) by blast
    moreover have "b < 64" "wx * 64 + b \<le> stop" using b l(2) assms(1) [of ?b] l(3) by auto
    ultimately show ?thesis using assms(1) [of b] b i(1) by blast
  qed (use i assms(2) in blast)
  moreover have "int wx * 64 + (int (lowbit w) - 1) = int (wx * 64 + ?b)" using l(1) by simp
  ultimately show ?thesis using assms(1) [of ?b] l(3) by blast
qed

definition lowest_in_range :: "ulong list \<Rightarrow> nat \<Rightarrow> nat \<Rightarrow> int \<Rightarrow> bool" where
  "lowest_in_range bm start stop r \<longleftrightarrow>
     (if \<exists>j. start \<le> j \<and> j \<le> stop \<and> bt_bit bm j
      then \<exists>j. r = int j \<and> start \<le> j \<and> j \<le> stop \<and> bt_bit bm j \<and> (\<forall>i. start \<le> i \<longrightarrow> i < j \<longrightarrow> \<not> bt_bit bm i)
      else r = - 1)"

lemma bt_first_word_bits:
  "bit (bt_first_word (bm ! (start div 64)) start) b \<longleftrightarrow>
     b < 64 \<and> start \<le> start div 64 * 64 + b \<and> bt_bit bm (start div 64 * 64 + b)"
proof -
  obtain wx sb where st: "start = wx * 64 + sb" "sb < 64" by (rule bt_bit_splitE)
  then have "start div 64 = wx" "start mod 64 = sb" by auto
  with st show ?thesis
    using bit_imp_le_length [of "bm ! wx" b]
    by (auto simp: bt_first_word_def Let_def bt_bit_def bit_simps)
qed

lemma Suc_div_bound: "(n::nat) < Suc (n div 64) * 64"
  by (metis dividend_less_div_times zero_less_numeral add.commute mult_Suc)

lemma bt_last_word_spec:
  assumes bits: "\<And>b. bit w b \<longleftrightarrow> b < 64 \<and> start \<le> wx * 64 + b \<and> bt_bit bm (wx * 64 + b)"
    and none: "\<And>j. start \<le> j \<Longrightarrow> j < wx * 64 \<Longrightarrow> \<not> bt_bit bm j"
    and "w = 0 \<longrightarrow> bt_limit stop < int wx" and "int wx \<le> bt_limit stop + 1" and "start \<le> stop"
    and small: "stop < 2 ^ 31"
  shows "\<exists>r. bt_last_word stop w wx = Inr r \<and> lowest_in_range bm start stop r"
proof (cases "bt_limit stop < int wx")
  case False
  note lid = bt_limit_id [OF small]
  have le: "wx * 64 + 63 \<le> stop"
  proof (cases "stop mod 64 = 63")
    case True
    with False have "wx * 64 \<le> stop div 64 * 64" by (simp add: lid)
    with True div_mult_mod_eq [of stop 64] show ?thesis by linarith
  next
    case False
    with \<open>\<not> bt_limit stop < int wx\<close> have "Suc wx * 64 \<le> stop div 64 * 64"
      by (intro mult_le_mono1) (simp add: lid)
    also have "\<dots> \<le> stop" by (rule div_times_less_eq_dividend)
    finally show ?thesis by simp
  qed
  have "\<exists>j. int wx * 64 + (int (lowbit w) - 1) = int j \<and> start \<le> j \<and> j \<le> stop \<and> bt_bit bm j \<and>
    (\<forall>i. start \<le> i \<longrightarrow> i < j \<longrightarrow> \<not> bt_bit bm i)"
    using False assms(3) bits none le by (intro bt_lowest_word) fastforce+
  moreover have "bt_pos wx x = Inr (int wx * 64 + x)" for x using le small by (simp add: bt_pos_def)
  ultimately show ?thesis using False by (auto simp: lowest_in_range_def bt_last_word_def Let_def)
next
  case True
  note lim = True and lid = bt_limit_id [OF small]
  show ?thesis
  proof (cases "stop mod 64 = 63")
    case True
    with lim assms(4) have "wx = Suc (stop div 64)" by (simp add: lid)
    then have "stop < wx * 64" using Suc_div_bound [of stop] by simp
    with none have "\<not> (\<exists>j. start \<le> j \<and> j \<le> stop \<and> bt_bit bm j)" by force
    with lim True show ?thesis by (simp add: lowest_in_range_def bt_last_word_def)
  next
    case False
    define lb where "lb = stop mod 64"
    define w' where "w' = w AND NOT (push_bit (lb + 1) (- 1))"
    from False lim assms(4) have wx: "wx = stop div 64" by (simp add: lid)
    have pos: "bt_pos wx x = Inr (int wx * 64 + x)" for x using small by (simp add: bt_pos_def wx)
    from wx have stop: "stop = wx * 64 + lb" by (simp add: lb_def)
    have "lb < 64" by (simp add: lb_def)
    have w': "bit w' b \<longleftrightarrow> b < 64 \<and> start \<le> wx * 64 + b \<and> wx * 64 + b \<le> stop \<and> bt_bit bm (wx * 64 + b)" for b
      using bits [of b] by (auto simp: w'_def bit_simps stop)
    have val: "bt_last_word stop w wx = Inr (if w' = 0 then - 1 else int wx * 64 + (int (lowbit w') - 1))"
      using lim False by (simp add: bt_last_word_def Let_def lb_def w'_def pos)
    show ?thesis
    proof (cases "w' = 0")
      case True
      have "\<not> bt_bit bm j" if "start \<le> j" "j \<le> stop" for j
      proof (cases "j < wx * 64")
        case False
        then have "wx * 64 + (j - wx * 64) = j" by simp
        moreover have "j - wx * 64 < 64" using that(2) stop \<open>lb < 64\<close> by linarith
        ultimately show ?thesis using w' [of "j - wx * 64"] True that by simp
      qed (use none that in blast)
      with True val show ?thesis by (auto simp: lowest_in_range_def)
    next
      case False
      have "\<exists>j. int wx * 64 + (int (lowbit w') - 1) = int j \<and> start \<le> j \<and> j \<le> stop \<and> bt_bit bm j \<and>
        (\<forall>i. start \<le> i \<longrightarrow> i < j \<longrightarrow> \<not> bt_bit bm i)"
        using False none w' by (intro bt_lowest_word) blast+
      with False val show ?thesis by (auto simp: lowest_in_range_def)
    qed
  qed
qed

lemma bt_getlowbit_lowest:
  assumes "start \<le> stop" and "stop < 2 ^ 31" and "stop div 64 + (if stop mod 64 = 63 then 1 else 0) < length bm"
  shows "\<exists>r. bt_getlowbit bm start stop = Inr r \<and> lowest_in_range bm start stop r"
proof -
  let ?wx = "start div 64"
  note lid = bt_limit_id [OF assms(2)]
  have le: "?wx \<le> stop div 64" using assms(1) by (rule div_le_mono)
  have c: "c_int (int ?wx) = int ?wx" using assms(1,2) div_le_dividend [of start 64] by (intro c_int_id) simp_all
  have wx: "?wx < length bm" using assms(3) le by (auto split: if_splits)
  have lim: "nat (bt_limit stop + 1) < length bm" "int ?wx \<le> bt_limit stop + 1"
    using assms(3) le by (auto simp: lid nat_add_distrib split: if_splits)
  have lim31: "bt_limit stop + 1 < 2 ^ 31" using assms(2) unfolding lid by (auto split: if_splits)
  obtain w wx where loop: "bt_getlowbit_loop bm (bt_limit stop) (bt_first_word (bm ! ?wx) start) ?wx = Inr (w, wx)"
    "w = 0 \<longrightarrow> bt_limit stop < int wx" "int ?wx \<le> bt_limit stop \<longrightarrow> int wx \<le> bt_limit stop + 1"
    "bt_limit stop < int ?wx \<longrightarrow> wx = ?wx"
    and bits: "\<And>b. bit w b \<longleftrightarrow> b < 64 \<and> start \<le> wx * 64 + b \<and> bt_bit bm (wx * 64 + b)"
    and none: "\<And>j. start \<le> j \<Longrightarrow> j < wx * 64 \<Longrightarrow> \<not> bt_bit bm j"
    using bt_getlowbit_loop_spec [OF wx lim(1) Suc_div_bound lim31 bt_first_word_bits]
      div_times_less_eq_dividend [of start 64] by fastforce
  have "int wx \<le> bt_limit stop + 1" using loop lim(2) by linarith
  with loop bits none assms(1,2) have "\<exists>r. bt_last_word stop w wx = Inr r \<and> lowest_in_range bm start stop r"
    by (intro bt_last_word_spec) auto
  with loop(1) assms(1) wx show ?thesis by (simp add: bt_getlowbit_def c)
qed

lemma bt_word_zero: "(\<And>b. b < 64 \<Longrightarrow> \<not> bt_bit bm (wx * 64 + b)) \<Longrightarrow> bm ! wx = 0"
  by (intro bit_eqI) (auto simp: bt_bit_word dest: bit_imp_le_length)

lemma bt_getlowbit_oob:
  assumes "start \<le> stop" and small: "stop < 2 ^ 31" and "stop mod 64 = 63" and len: "length bm = Suc (stop div 64)"
    and clear: "\<forall>j. start \<le> j \<and> j \<le> stop \<longrightarrow> \<not> bt_bit bm j"
  shows "bt_getlowbit bm start stop = Inl BT_OutOfMap"
proof -
  define S where "S = stop div 64"
  have stop: "stop = S * 64 + 63" using assms(3) by (metis S_def div_mult_mod_eq)
  have S: "Suc S < 2 ^ 31" using small stop by simp
  have c: "c_int (int (start div 64)) = int (start div 64)" using assms(1,2) div_le_dividend [of start 64] by (intro c_int_id) simp_all
  have loop: "bt_getlowbit_loop bm (int S) 0 wx = Inl BT_OutOfMap"
    if "wx \<le> S" "start < Suc wx * 64" for wx
    using that
  proof (induction "S - wx" arbitrary: wx)
    case 0
    then show ?case
      using len S by (subst bt_getlowbit_loop.simps) (auto simp: nth_opt_def S_def)
  next
    case (Suc n)
    have "bm ! Suc wx = 0"
    proof (rule bt_word_zero)
      fix b :: nat assume "b < 64"
      moreover have "Suc wx * 64 \<le> S * 64" using Suc.hyps(2) by (intro mult_le_mono1) simp
      ultimately show "\<not> bt_bit bm (Suc wx * 64 + b)"
        using clear Suc.prems stop by auto
    qed
    moreover have "bt_getlowbit_loop bm (int S) 0 (Suc wx) = Inl BT_OutOfMap"
      using Suc.hyps(2) Suc.prems by (intro Suc.hyps(1)) auto
    ultimately show ?case
      using Suc.hyps(2) len S
      by (subst bt_getlowbit_loop.simps) (auto simp: nth_opt_def S_def split: option.splits)
  qed
  have "bt_first_word (bm ! (start div 64)) start = 0"
  proof (rule bit_eqI)
    fix b
    show "bit (bt_first_word (bm ! (start div 64)) start) b = bit 0 b"
    proof (cases "b < 64")
      case True
      have "start div 64 * 64 \<le> S * 64" unfolding S_def using assms(1) by (intro mult_le_mono1 div_le_mono)
      then have "start div 64 * 64 + b \<le> stop" using True stop by linarith
      with clear show ?thesis by (auto simp: bt_first_word_bits)
    qed (simp add: bt_first_word_bits)
  qed
  then show ?thesis
    using assms(1,3,4) loop [of "start div 64"] div_le_mono [OF assms(1), of 64] Suc_div_bound [of start]
    by (simp add: bt_getlowbit_def bt_limit_id [OF small] S_def c)
qed

lemma highbit_greatest:
  assumes "i \<noteq> 0"
  shows "bit i (highbit i - 1)" and "bit i j \<Longrightarrow> j < highbit i"
proof -
  let ?h = "highbit i"
  from highbit_inv [OF assms] have h: "1 \<le> ?h" and nz: "drop_bit (?h - 1) i \<noteq> 0"
    and z: "drop_bit 1 (drop_bit (?h - 1) i) = 0"
    by (auto simp: hb_inv_def)
  have above: "k < ?h" if "bit i k" for k
  proof (rule ccontr)
    assume "\<not> k < ?h"
    then have "bit (drop_bit 1 (drop_bit (?h - 1) i)) (k - ?h)"
      using that h by (simp add: bit_drop_bit_eq)
    with z show False by (simp only: bit_0_eq) simp
  qed
  then show "bit i j \<Longrightarrow> j < ?h" .
  from nz obtain k where "bit i (?h - 1 + k)"
    by (auto elim: nonzero_bitE simp: bit_drop_bit_eq)
  moreover from above [OF this] h have "k = 0" by linarith
  ultimately show "bit i (?h - 1)" by simp
qed

lemma bt_gethighbit_found:
  assumes "wx < length bm" "wx < 2 ^ 25" "bm ! wx \<noteq> 0"
  shows "\<exists>j. bt_gethighbit bm wx = Inr (int j) \<and> j < Suc wx * 64 \<and> bt_bit bm j \<and>
    (\<forall>i. j < i \<longrightarrow> i < Suc wx * 64 \<longrightarrow> \<not> bt_bit bm i)"
proof -
  let ?b = "highbit (bm ! wx) - 1"
  note g = highbit_greatest [OF assms(3)] and b = highbit_bounds [OF assms(3)]
  have "\<not> bt_bit bm i" if "wx * 64 + ?b < i" "i < Suc wx * 64" for i
  proof -
    have "i = wx * 64 + (i - wx * 64)" "i - wx * 64 < 64" "?b < i - wx * 64" using that by auto
    then show ?thesis using g(2) [of "i - wx * 64"] bt_bit_word [of "i - wx * 64" bm wx] b(1) by fastforce
  qed
  moreover have "bt_bit bm (wx * 64 + ?b)" using g(1) b bt_bit_word [of ?b bm wx] by linarith
  moreover have "bt_gethighbit bm wx = Inr (int (wx * 64 + ?b))"
    using assms b(1) by (simp add: bt_gethighbit.simps nth_opt_def of_nat_diff bt_pos_def)
  moreover have "wx * 64 + ?b < Suc wx * 64" using b by simp
  ultimately show ?thesis by blast
qed

lemma bt_gethighbit_highest:
  "wx < length bm \<Longrightarrow> wx < 2 ^ 25 \<Longrightarrow>
   \<exists>r. bt_gethighbit bm wx = Inr r \<and>
     (if \<exists>j < Suc wx * 64. bt_bit bm j
      then \<exists>j. r = int j \<and> j < Suc wx * 64 \<and> bt_bit bm j \<and> (\<forall>i. j < i \<longrightarrow> i < Suc wx * 64 \<longrightarrow> \<not> bt_bit bm i)
      else r = - 1)"
proof (induction wx)
  case 0
  show ?case
  proof (cases "bm ! 0 = 0")
    case True
    then have "\<forall>j < 64. \<not> bt_bit bm j" by (simp add: bt_bit_def)
    with True 0 show ?thesis by (simp add: bt_gethighbit.simps nth_opt_def)
  next
    case False
    from bt_gethighbit_found [OF 0 this] show ?thesis by force
  qed
next
  case (Suc wx)
  show ?case
  proof (cases "bm ! Suc wx = 0")
    case True
    then have z: "\<not> bt_bit bm j" if "Suc wx * 64 \<le> j" "j < Suc (Suc wx) * 64" for j
    proof -
      have "j div 64 = Suc wx" using that by (simp add: div_nat_eqI)
      then show ?thesis using True by (simp add: bt_bit_def)
    qed
    have rec: "bt_gethighbit bm (Suc wx) = bt_gethighbit bm wx"
      using True Suc.prems by (simp add: bt_gethighbit.simps [of bm "Suc wx"] nth_opt_def)
    have "(\<exists>j < Suc (Suc wx) * 64. bt_bit bm j) \<longleftrightarrow> (\<exists>j < Suc wx * 64. bt_bit bm j)"
      using z by (metis add_lessD1 mult_Suc not_less trans_less_add2 add.commute)
    then show ?thesis
      unfolding rec using Suc z by (smt (verit) add.commute mult_Suc not_less trans_less_add1 Suc_lessD)
  next
    case False
    from bt_gethighbit_found [OF Suc.prems this] show ?thesis by force
  qed
qed

subsection \<open>Properties\<close>

text \<open>
  C4: \<open>highbit()\<close> returns one more than the position of the highest bit set, and 0 for 0: a
  non-zero word lies between \<open>2 ^ (highbit i - 1)\<close> and \<open>2 ^ highbit i\<close>.
\<close>

theorem highbit_correct:
  "highbit 0 = 0 \<and>
   (\<forall>i. i \<noteq> 0 \<longrightarrow> 1 \<le> highbit i \<and> highbit i \<le> 64 \<and> 2 ^ (highbit i - 1) \<le> unat i \<and> unat i < 2 ^ highbit i)"
  using highbit_bounds highbit_0 by blast

theorem highbit_correct_witness:
  "(1000 :: ulong) \<noteq> 0 \<and> highbit 1000 = 10 \<and> 2 ^ (highbit 1000 - 1) \<le> unat (1000 :: ulong)"
proof -
  have nz: "(1000 :: ulong) \<noteq> 0" by simp
  have "highbit 1000 = 10" by (simp add: highbit_def)
  with nz show ?thesis using highbit_correct by blast
qed



text \<open>
  C3: for a range below bit \<open>2 ^ 31\<close>, the positions an \<open>int\<close> can hold, \<open>bt_getlowbit()\<close> returns the lowest bit set
  between \<open>start\<close> and \<open>stop\<close>, both included, or -1 when there is none, and no \<open>int\<close> overflows. The map must have
  the word of \<open>stop\<close> and, when the range ends on a word boundary, one more word, which the code may read.
\<close>

theorem bt_getlowbit_correct:
  assumes "start \<le> stop" and "stop < 2 ^ 31" and "stop div 64 + (if stop mod 64 = 63 then 1 else 0) < length bm"
  shows "\<exists>r. bt_getlowbit bm start stop = Inr r \<and> lowest_in_range bm start stop r"
  using assms by (rule bt_getlowbit_lowest)

theorem bt_getlowbit_correct_witness:
  "\<exists>r. bt_getlowbit [0, 12] 3 70 = Inr r \<and> lowest_in_range [0, 12] 3 70 r"
  by (rule bt_getlowbit_correct) simp_all

text \<open>
  C7: \<open>bt_getlowbit()\<close> reads past the end of the map when the range, below bit \<open>2 ^ 31\<close>, is the tail of the map,
  ends on a word boundary and has no bit set: the loop fetches \<open>map[++wx]\<close> before it compares
  \<open>wx\<close> with \<open>limit\<close>.
\<close>

theorem bt_getlowbit_overread:
  assumes "start \<le> stop" and "stop < 2 ^ 31" and "stop mod 64 = 63" and "length bm = Suc (stop div 64)"
    and "\<forall>j. start \<le> j \<and> j \<le> stop \<longrightarrow> \<not> bt_bit bm j"
  shows "bt_getlowbit bm start stop = Inl BT_OutOfMap"
  using assms by (rule bt_getlowbit_oob)

theorem bt_getlowbit_overread_witness:
  "bt_getlowbit [5, 0] 64 127 = Inl BT_OutOfMap"
proof (rule bt_getlowbit_overread)
  have "j div 64 = 1" if "64 \<le> j \<and> j \<le> 127" for j :: nat using that by (intro div_nat_eqI) auto
  then show "\<forall>j. 64 \<le> j \<and> j \<le> 127 \<longrightarrow> \<not> bt_bit [5, 0] j" by (simp add: bt_bit_def)
qed simp_all

text \<open>
  C6: \<open>bt_gethighbit()\<close>, the search the dispatcher uses on its bitmap of runnable priorities,
  returns the highest bit set in the words 0 to \<open>wx\<close>, or -1 when they are all 0, for \<open>wx\<close> below \<open>2 ^ 25\<close>,
  where every position is an \<open>int\<close> and the shift of the result does not overflow.
\<close>

theorem bt_gethighbit_correct:
  assumes "wx < length bm" "wx < 2 ^ 25"
  shows "\<exists>r. bt_gethighbit bm wx = Inr r \<and>
     (if \<exists>j < Suc wx * 64. bt_bit bm j
      then \<exists>j. r = int j \<and> j < Suc wx * 64 \<and> bt_bit bm j \<and> (\<forall>i. j < i \<longrightarrow> i < Suc wx * 64 \<longrightarrow> \<not> bt_bit bm i)
      else r = - 1)"
  using assms by (rule bt_gethighbit_highest)

theorem bt_gethighbit_correct_witness:
  "\<exists>r. bt_gethighbit [12, 0] 1 = Inr r \<and> (\<exists>j. r = int j \<and> bt_bit [12, 0] j)"
proof -
  have "bt_bit [12, 0] 3" by (simp add: bt_bit_def bit_simps)
  then have ex: "\<exists>j < Suc 1 * 64. bt_bit [12, 0] j" by (intro exI [of _ 3]) simp
  have "1 < length [12 :: ulong, 0]" "(1::nat) < 2 ^ 25" by simp_all
  from bt_gethighbit_correct [OF this] show ?thesis unfolding if_P [OF ex] by blast
qed

end
