(* ===== verification/Compress.thy ===== *)
theory Compress
  imports Kernel_Prelude
begin

section \<open>LZJB compression: compress.c\<close>

text \<open>
  \<open>uts/common/os/compress.c\<close>: the Lempel-Ziv compressor used for crash dumps and for
  checkpoint/resume, its inverse and the 32-bit checksum. Buffers are byte lists. The pointers
  \<open>src\<close>, \<open>dst\<close>, \<open>cpy\<close> and \<open>copymap\<close> are indices into them; \<open>sbase\<close> is the address
  of the source buffer, which the code stores, cut to 16 bits, in the Lempel history. The history
  is not initialised in C, so it is an arbitrary argument. A read past the end of the source of
  \<open>compress()\<close> is \<open>None\<close>, and its destination is the list of the bytes written so far. The source of
  \<open>decompress()\<close> is the memory that can be read from \<open>s_start\<close> on, which may go on after the \<open>s_len\<close>
  bytes of the input, and its destination is the whole buffer with its previous contents, because a copy
  item with offset 0 reads bytes that were never written. A read or a write outside them is a fault.
\<close>

subsection \<open>compress()\<close>

definition MATCH_MIN :: nat where "MATCH_MIN = 3"
definition MATCH_MAX :: nat where "MATCH_MAX = 66"
definition OFFSET_MASK :: nat where "OFFSET_MASK = 1023"
definition LEMPEL_SIZE :: nat where "LEMPEL_SIZE = 256"

record lz_state =
  lz_src :: nat
  lz_dst :: "uchar list"
  lz_map :: nat
  lz_mask :: nat
  lz_lempel :: "uint16 list"

datatype lz_next = LzRaw | LzCont lz_state

text \<open>The loop \<open>for (mlen = MATCH_MIN; mlen < MATCH_MAX; mlen++)\<close> that extends a match.\<close>

function lz_match :: "uchar list \<Rightarrow> nat \<Rightarrow> nat \<Rightarrow> nat \<Rightarrow> nat option" where
  "lz_match s src cpy mlen =
     (if mlen < MATCH_MAX then
        (case (nth_opt s (src + mlen), nth_opt s (cpy + mlen)) of
           (Some a, Some b) \<Rightarrow> if a \<noteq> b then Some mlen else lz_match s src cpy (Suc mlen)
         | _ \<Rightarrow> None)
      else Some mlen)"
  by pat_completeness auto
termination by (relation "measure (\<lambda>(s, i, c, m). MATCH_MAX - m)") auto

declare lz_match.simps [simp del]

text \<open>
  The index into the history, in the C \<open>int\<close> arithmetic of the source; the history lookup and
  update; the two kinds of item; and one turn of the main loop, split at the group header.
\<close>

definition lz_hash :: "uchar \<Rightarrow> uchar \<Rightarrow> uchar \<Rightarrow> nat" where
  "lz_hash a b c = nat (((uint a + 13) XOR (uint b - 13) XOR uint c) AND (int LEMPEL_SIZE - 1))"

definition lz_literal :: "uchar list \<Rightarrow> lz_state \<Rightarrow> lz_next option" where
  "lz_literal s st =
     (case nth_opt s (lz_src st) of
        None \<Rightarrow> None
      | Some c \<Rightarrow> Some (LzCont (st\<lparr>lz_dst := lz_dst st @ [c], lz_src := lz_src st + 1\<rparr>)))"

definition lz_lookup :: "ulong \<Rightarrow> nat \<Rightarrow> lz_state \<Rightarrow> nat \<times> lz_state" where
  "lz_lookup p h st =
     (unat ((p - ucast (lz_lempel st ! h)) AND word_of_nat OFFSET_MASK),
      st\<lparr>lz_lempel := (lz_lempel st)[h := ucast p]\<rparr>)"

definition lz_emit_copy :: "uchar list \<Rightarrow> nat \<Rightarrow> lz_state \<Rightarrow> lz_next option" where
  "lz_emit_copy s offset st =
     (case lz_match s (lz_src st) (lz_src st - offset) MATCH_MIN of
        None \<Rightarrow> None
      | Some mlen \<Rightarrow>
          (let dst = (lz_dst st)[lz_map st := (lz_dst st ! lz_map st) OR word_of_nat (lz_mask st)]
           in Some (LzCont (st\<lparr>lz_dst := dst @
                  [word_of_nat (push_bit 2 (mlen - MATCH_MIN) OR drop_bit 8 offset), word_of_nat offset],
                lz_src := lz_src st + mlen\<rparr>))))"

definition lz_item :: "uchar list \<Rightarrow> ulong \<Rightarrow> lz_state \<Rightarrow> lz_next option" where
  "lz_item s sbase st =
     (let src = lz_src st
      in if int src > int (length s) - int MATCH_MAX then lz_literal s st
         else case (nth_opt s src, nth_opt s (src + 1), nth_opt s (src + 2)) of
             (Some s0, Some s1, Some s2) \<Rightarrow>
               (case lz_lookup (sbase + word_of_nat src) (lz_hash s0 s1 s2) st of
                  (offset, st) \<Rightarrow>
                    if offset \<le> src \<and> offset \<noteq> 0 \<and> nth_opt s (src - offset) = Some s0 \<and>
                       nth_opt s (src - offset + 1) = Some s1 \<and> nth_opt s (src - offset + 2) = Some s2
                    then lz_emit_copy s offset st
                    else lz_literal s st)
           | _ \<Rightarrow> None)"

definition lz_step :: "uchar list \<Rightarrow> ulong \<Rightarrow> lz_state \<Rightarrow> lz_next option" where
  "lz_step s sbase st =
     (let mask = lz_mask st * 2
      in if mask = 2 ^ 8 then
           (if int (length (lz_dst st)) \<ge> int (length s) - 1 - 2 * 8 then Some LzRaw
            else lz_item s sbase (st\<lparr>lz_mask := 1, lz_map := length (lz_dst st), lz_dst := lz_dst st @ [0]\<rparr>))
         else lz_item s sbase (st\<lparr>lz_mask := mask\<rparr>))"

text \<open>Every item consumes at least one byte of the source, which bounds the main loop.\<close>

lemma lz_match_ge: "lz_match s i c m = Some r \<Longrightarrow> m \<le> r"
proof (induction s i c m rule: lz_match.induct)
  case (1 s i c m)
  from "1.prems" show ?case
    unfolding lz_match.simps [of s i c m]
    using "1.IH" by (fastforce split: if_splits option.splits)
qed

lemma lz_literal_progress: "lz_literal s st = Some (LzCont st') \<Longrightarrow> lz_src st < lz_src st'"
  by (auto simp: lz_literal_def split: option.splits)

lemma lz_emit_copy_progress: "lz_emit_copy s off st = Some (LzCont st') \<Longrightarrow> lz_src st < lz_src st'"
  by (auto simp: lz_emit_copy_def Let_def MATCH_MIN_def split: option.splits dest!: lz_match_ge)

lemma lz_item_progress: "lz_item s sbase st = Some (LzCont st') \<Longrightarrow> lz_src st < lz_src st'"
  by (auto simp: lz_item_def lz_lookup_def Let_def split: option.splits if_splits
      dest!: lz_literal_progress lz_emit_copy_progress)

lemma lz_step_progress: "lz_step s sbase st = Some (LzCont st') \<Longrightarrow> lz_src st < lz_src st'"
  by (auto simp: lz_step_def Let_def split: if_splits dest!: lz_item_progress)

text \<open>
  Data that does not shrink is copied as it is. The copy counts down the \<open>int\<close> \<open>mlen\<close>, which has the low 32 bits
  of \<open>s_len\<close>, to 0, but the size returned is \<open>s_len\<close>. The result is the size returned and the bytes written.
\<close>

definition lz_raw :: "uchar list \<Rightarrow> uchar list" where
  "lz_raw s = (let mlen = (word_of_nat (length s) :: uint32) in take (unat mlen) s)"

function compress_loop :: "uchar list \<Rightarrow> ulong \<Rightarrow> lz_state \<Rightarrow> (nat \<times> uchar list) option" where
  "compress_loop s sbase st =
     (if lz_src st < length s then
        (case lz_step s sbase st of
           None \<Rightarrow> None
         | Some LzRaw \<Rightarrow> Some (length s, lz_raw s)
         | Some (LzCont st') \<Rightarrow> compress_loop s sbase st')
      else Some (length (lz_dst st), lz_dst st))"
  by pat_completeness auto
termination
  by (relation "measure (\<lambda>(s, b, st). length s - lz_src st)") (auto dest: lz_step_progress)

definition compress :: "uchar list \<Rightarrow> ulong \<Rightarrow> uint16 list \<Rightarrow> (nat \<times> uchar list) option" where
  "compress s sbase lempel =
     compress_loop s sbase \<lparr>lz_src = 0, lz_dst = [], lz_map = 0, lz_mask = 2 ^ 7, lz_lempel = lempel\<rparr>"

subsection \<open>decompress() and checksum32()\<close>

text \<open>
  \<open>lz_copy\<close> is \<open>while (--mlen >= 0 && dst < d_end) *dst++ = *cpy++\<close>, byte by byte, so that an
  overlapping copy repeats the bytes it has just written.
\<close>

datatype lz_fault = Src_Overread | Dst_Overwrite

definition fetch :: "uchar list \<Rightarrow> nat \<Rightarrow> lz_fault + uchar" where
  "fetch z src = (case nth_opt z src of None \<Rightarrow> Inl Src_Overread | Some c \<Rightarrow> Inr c)"

definition store :: "uchar list \<Rightarrow> nat \<Rightarrow> uchar \<Rightarrow> lz_fault + uchar list" where
  "store dbuf dst c = (if dst < length dbuf then Inr (dbuf[dst := c]) else Inl Dst_Overwrite)"

fun lz_copy :: "uchar list \<Rightarrow> nat \<Rightarrow> nat \<Rightarrow> nat \<Rightarrow> lz_fault + uchar list \<times> nat" where
  "lz_copy dbuf dst cpy 0 = Inr (dbuf, dst)"
| "lz_copy dbuf dst cpy (Suc mlen) =
     (if dst < length dbuf
      then case store dbuf dst (dbuf ! cpy) of
             Inl f \<Rightarrow> Inl f
           | Inr dbuf \<Rightarrow> lz_copy dbuf (dst + 1) (cpy + 1) mlen
      else Inr (dbuf, dst))"

text \<open>The group header, read when \<open>copymask\<close> has left its byte, and the two kinds of item.\<close>

definition lz_group :: "uchar list \<Rightarrow> nat \<Rightarrow> uchar \<Rightarrow> nat \<Rightarrow> lz_fault + nat \<times> uchar \<times> nat" where
  "lz_group z src copymap copymask =
     (if copymask * 2 = 2 ^ 8
      then case fetch z src of Inl f \<Rightarrow> Inl f | Inr c \<Rightarrow> Inr (1, c, src + 1)
      else Inr (copymask * 2, copymap, src))"

text \<open>The result of an item: the function returns, or it goes on with a new source position, buffer and destination.\<close>

datatype lz_more = LzReturn | LzOn nat "uchar list" nat

definition lz_expand :: "uchar list \<Rightarrow> bool \<Rightarrow> nat \<Rightarrow> uchar list \<Rightarrow> nat \<Rightarrow> lz_fault + lz_more" where
  "lz_expand z is_copy src dbuf dst =
     (if is_copy then
        (case (fetch z src, fetch z (src + 1)) of
           (Inr b0, Inr b1) \<Rightarrow>
             (let mlen = drop_bit 2 (unat b0) + MATCH_MIN;
                  offset = (push_bit 8 (unat b0) OR unat b1) AND OFFSET_MASK
              in if offset \<le> dst
                 then (case lz_copy dbuf dst (dst - offset) mlen of
                         Inl f \<Rightarrow> Inl f
                       | Inr (dbuf, dst) \<Rightarrow> Inr (LzOn (src + 2) dbuf dst))
                 else Inr LzReturn)
         | _ \<Rightarrow> Inl Src_Overread)
      else (case fetch z src of
              Inl f \<Rightarrow> Inl f
            | Inr c \<Rightarrow> (case store dbuf dst c of
                           Inl f \<Rightarrow> Inl f
                         | Inr dbuf \<Rightarrow> Inr (LzOn (src + 1) dbuf (dst + 1)))))"

lemma lz_group_src: "lz_group z src cm k = Inr (k', cm', src') \<Longrightarrow> src' = src \<or> src' = src + 1"
  by (auto simp: lz_group_def split: if_splits sum.splits)

lemma lz_expand_src: "lz_expand z b src dbuf dst = Inr (LzOn src' dbuf' dst') \<Longrightarrow> src < src'"
  by (auto simp: lz_expand_def Let_def split: if_splits sum.splits)

function decompress_loop ::
  "uchar list \<Rightarrow> nat \<Rightarrow> nat \<Rightarrow> uchar list \<Rightarrow> nat \<Rightarrow> uchar \<Rightarrow> nat \<Rightarrow> lz_fault + nat \<times> uchar list" where
  "decompress_loop z s_len src dbuf dst copymap copymask =
     (if src < s_len \<and> dst < length dbuf then
        (case lz_group z src copymap copymask of
           Inl f \<Rightarrow> Inl f
         | Inr (copymask', copymap', src1) \<Rightarrow>
             (case lz_expand z (copymap' AND word_of_nat copymask' \<noteq> 0) src1 dbuf dst of
                Inl f \<Rightarrow> Inl f
              | Inr LzReturn \<Rightarrow> Inr (dst, dbuf)
              | Inr (LzOn src2 dbuf2 dst2) \<Rightarrow> decompress_loop z s_len src2 dbuf2 dst2 copymap' copymask'))
      else Inr (dst, dbuf))"
  by pat_completeness auto
termination
  by (relation "measure (\<lambda>(z, s_len, i, db, d, m, k). s_len - i)") (auto dest!: lz_group_src lz_expand_src)

definition decompress :: "uchar list \<Rightarrow> nat \<Rightarrow> uchar list \<Rightarrow> lz_fault + nat \<times> uchar list" where
  "decompress z s_len dbuf =
     (if s_len \<ge> length dbuf
      then if length z < length dbuf then Inl Src_Overread else Inr (length dbuf, take (length dbuf) z)
      else decompress_loop z s_len 0 dbuf 0 0 (2 ^ 7))"

fun checksum32_loop :: "uchar list \<Rightarrow> uint32 \<Rightarrow> uint32" where
  "checksum32_loop [] ck = ck"
| "checksum32_loop (c # cs) ck =
     checksum32_loop cs ((if ck AND 1 \<noteq> 0 then drop_bit 1 ck + 0x80000000 else drop_bit 1 ck) + ucast c)"

definition checksum32 :: "uchar list \<Rightarrow> uint32" where
  "checksum32 cp = checksum32_loop cp 0"

declare compress_loop.simps [simp del] decompress_loop.simps [simp del]


subsection \<open>Coding of copy items, and what a match is\<close>

lemma or_shift_add: "b < 2 ^ k \<Longrightarrow> push_bit k a OR b = a * 2 ^ k + (b::nat)"
proof -
  assume "b < 2 ^ k"
  then have "\<not> bit b n" if "k \<le> n" for n
    using that by (metis bit_take_bit_iff not_less take_bit_nat_eq_self)
  then have "\<not> bit (push_bit k a) n \<or> \<not> bit b n" for n
    by (auto simp: bit_push_bit_iff)
  then show ?thesis
    by (simp add: push_bit_eq_mult flip: disjunctive_add)
qed

lemma and_1023: "(x::nat) AND 1023 = x mod 1024"
  using take_bit_eq_mask [of 10 x] take_bit_eq_mod [of 10 x] mask_eq_exp_minus_1 [of 10, where 'a = nat]
  by simp

lemma lz_code:
  assumes "m < 64" "off < 1024"
  defines "b0 \<equiv> word_of_nat (push_bit 2 m OR drop_bit 8 off) :: uchar" and "b1 \<equiv> word_of_nat off :: uchar"
  shows "drop_bit 2 (unat b0) = m" "(push_bit 8 (unat b0) OR unat b1) AND OFFSET_MASK = off"
proof -
  have d: "drop_bit 8 off = off div 256" "off div 256 < 4" using assms by (auto simp: drop_bit_eq_div)
  have n: "push_bit 2 m OR drop_bit 8 off = m * 4 + off div 256"
    using or_shift_add [of "off div 256" 2 m] d by simp
  have u0: "unat b0 = m * 4 + off div 256"
    unfolding b0_def n unat_of_nat using d(2) assms(1) by simp
  have u1: "unat b1 = off mod 256" by (simp add: b1_def unsigned_of_nat take_bit_eq_mod)
  show "drop_bit 2 (unat b0) = m" using d u0 by (simp add: drop_bit_eq_div)
  have "push_bit 8 (unat b0) OR unat b1 = unat b0 * 2 ^ 8 + unat b1"
    by (rule or_shift_add) (simp add: u1)
  then have "(push_bit 8 (unat b0) OR unat b1) AND OFFSET_MASK = ((m * 4 + off div 256) * 256 + off mod 256) mod 2 ^ 10"
    using and_1023 by (simp add: u0 u1 OFFSET_MASK_def)
  also have "(m * 4 + off div 256) * 256 + off mod 256 = m * 1024 + off"
    by (simp add: algebra_simps)
  finally show "(push_bit 8 (unat b0) OR unat b1) AND OFFSET_MASK = off" using assms(2) by simp
qed

lemma lz_match_spec:
  assumes "i + MATCH_MAX \<le> length s" "c \<le> i" "m \<le> MATCH_MAX"
  shows "\<exists>r. lz_match s i c m = Some r \<and> m \<le> r \<and> r \<le> MATCH_MAX \<and> (\<forall>k. m \<le> k \<longrightarrow> k < r \<longrightarrow> s ! (i + k) = s ! (c + k))"
  using assms
proof (induction s i c m rule: lz_match.induct)
  case (1 s i c m)
  show ?case
  proof (cases "m < MATCH_MAX \<and> s ! (i + m) = s ! (c + m)")
    case True
    with "1.prems" have n: "nth_opt s (i + m) = Some (s ! (i + m))" "nth_opt s (c + m) = Some (s ! (i + m))"
      by (auto simp: nth_opt_def)
    with "1.IH" [OF _ refl n(1) n(2)] True "1.prems" obtain r where r:
      "lz_match s i c (Suc m) = Some r" "Suc m \<le> r" "r \<le> MATCH_MAX" "\<forall>k. Suc m \<le> k \<longrightarrow> k < r \<longrightarrow> s ! (i + k) = s ! (c + k)"
      by auto
    have "lz_match s i c m = Some r" using r(1) n True by (simp add: lz_match.simps [of s i c m])
    moreover have "s ! (i + k) = s ! (c + k)" if "m \<le> k" "k < r" for k
      using that r(4) True by (cases "k = m") auto
    ultimately show ?thesis using r by auto
  next
    case False
    then have "lz_match s i c m = Some m"
      using "1.prems" by (auto simp: lz_match.simps [of s i c m] nth_opt_def)
    then show ?thesis using "1.prems" by auto
  qed
qed

definition lz_copies :: "uchar list \<Rightarrow> nat \<Rightarrow> nat \<Rightarrow> nat \<Rightarrow> bool" where
  "lz_copies s src off mlen \<longleftrightarrow> 3 \<le> mlen \<and> mlen \<le> 66 \<and> 1 \<le> off \<and> off \<le> src \<and> off < 1024 \<and>
     src + mlen \<le> length s \<and> (\<forall>k<mlen. s ! (src + k) = s ! (src - off + k))"

definition lz_lit_next :: "uchar list \<Rightarrow> lz_state \<Rightarrow> lz_state \<Rightarrow> bool" where
  "lz_lit_next s st st' \<longleftrightarrow> lz_dst st' = lz_dst st @ [s ! lz_src st] \<and> lz_src st' = lz_src st + 1"

definition lz_copy_next :: "uchar list \<Rightarrow> lz_state \<Rightarrow> lz_state \<Rightarrow> bool" where
  "lz_copy_next s st st' \<longleftrightarrow> (\<exists>mlen off. lz_copies s (lz_src st) off mlen \<and> lz_src st' = lz_src st + mlen \<and>
     lz_dst st' = (lz_dst st)[lz_map st := lz_dst st ! lz_map st OR word_of_nat (lz_mask st)] @
       [word_of_nat (push_bit 2 (mlen - 3) OR drop_bit 8 off), word_of_nat off])"

lemma and_offset_mask: "unat ((p :: ulong) AND word_of_nat OFFSET_MASK) < 1024"
  using unat_take_bit [of 10 p] and_exp_minus_1 [of p 10] by (simp add: OFFSET_MASK_def)

abbreviation lz_same :: "lz_state \<Rightarrow> lz_state \<Rightarrow> bool" where
  "lz_same st st' \<equiv> lz_mask st' = lz_mask st \<and> lz_map st' = lz_map st \<and> length (lz_lempel st') = length (lz_lempel st)"

lemma lz_literal_cases:
  "lz_src st < length s \<Longrightarrow>
    \<exists>st'. lz_literal s st = Some (LzCont st') \<and> lz_lit_next s st st' \<and> lz_same st st'"
  by (simp add: lz_literal_def nth_opt_def lz_lit_next_def)

lemma lz_emit_copy_cases:
  assumes "lz_src st + 66 \<le> length s" "1 \<le> off" "off \<le> lz_src st" "off < 1024"
    and "s ! (lz_src st - off) = s ! lz_src st" "s ! (lz_src st - off + 1) = s ! (lz_src st + 1)"
      "s ! (lz_src st - off + 2) = s ! (lz_src st + 2)"
  shows "\<exists>st'. lz_emit_copy s off st = Some (LzCont st') \<and> lz_copy_next s st st' \<and> lz_same st st'"
proof -
  let ?src = "lz_src st"
  obtain mlen where m: "lz_match s ?src (?src - off) MATCH_MIN = Some mlen" "3 \<le> mlen" "mlen \<le> 66"
    "\<forall>k. 3 \<le> k \<longrightarrow> k < mlen \<longrightarrow> s ! (?src + k) = s ! (?src - off + k)"
    using lz_match_spec [of ?src s "?src - off" MATCH_MIN] assms(1) by (auto simp: MATCH_MAX_def MATCH_MIN_def)
  have "s ! (?src + k) = s ! (?src - off + k)" if "k < mlen" for k
  proof -
    consider "k = 0" | "k = 1" | "k = 2" | "3 \<le> k" by linarith
    then show ?thesis using assms(5-7) m(4) that by cases auto
  qed
  then have "lz_copies s ?src off mlen"
    using assms(1-4) m(2,3) by (auto simp: lz_copies_def)
  then show ?thesis using m(1)
    by (auto simp: lz_copy_next_def lz_emit_copy_def MATCH_MIN_def)
qed

lemma lz_item_cases:
  assumes "lz_src st < length s"
  shows "\<exists>st'. lz_item s sbase st = Some (LzCont st') \<and> (lz_lit_next s st st' \<or> lz_copy_next s st st') \<and> lz_same st st'"
proof (cases "int (lz_src st) > int (length s) - int MATCH_MAX")
  case True
  then show ?thesis using lz_literal_cases [OF assms] by (auto simp: lz_item_def)
next
  case False
  let ?src = "lz_src st"
  from False have room: "?src + 66 \<le> length s" by (simp add: MATCH_MAX_def)
  define p h where "p = sbase + word_of_nat ?src" and "h = lz_hash (s ! ?src) (s ! (?src + 1)) (s ! (?src + 2))"
  obtain off st1 where lk: "lz_lookup p h st = (off, st1)" by fastforce
  then have st1: "lz_src st1 = ?src" "lz_dst st1 = lz_dst st" "lz_same st st1" and off: "off < 1024"
    using and_offset_mask by (auto simp: lz_lookup_def)
  have nth: "nth_opt s k = Some (s ! k)" if "k \<le> ?src + 2" for k
    using that room by (simp add: nth_opt_def)
  let ?hit = "off \<le> ?src \<and> off \<noteq> 0 \<and> s ! (?src - off) = s ! ?src \<and>
      s ! (?src - off + 1) = s ! (?src + 1) \<and> s ! (?src - off + 2) = s ! (?src + 2)"
  have item: "lz_item s sbase st = (if ?hit then lz_emit_copy s off st1 else lz_literal s st1)"
    unfolding lz_item_def Let_def using False nth lk [unfolded p_def h_def] by (simp cong: if_cong)
  have tr: "lz_lit_next s st1 = lz_lit_next s st" "lz_copy_next s st1 = lz_copy_next s st"
    using st1 by (auto simp: lz_lit_next_def lz_copy_next_def fun_eq_iff)
  show ?thesis
  proof (cases ?hit)
    case True
    then show ?thesis
      using item lz_emit_copy_cases [of st1 s off] off room st1 unfolding tr by fastforce
  next
    case False
    then show ?thesis
      using item lz_literal_cases [of st1 s] assms st1 unfolding tr by fastforce
  qed
qed


subsection \<open>The compressor's invariant\<close>

lemma lz_copy_spec:
  assumes "length dbuf = length s" "take d dbuf = take d s" "c < d" "d + n \<le> length s"
    and "\<forall>k<n. s ! (d + k) = s ! (c + k)"
  shows "\<exists>dbuf'. lz_copy dbuf d c n = Inr (dbuf', d + n) \<and> length dbuf' = length s \<and> take (d + n) dbuf' = take (d + n) s"
  using assms
proof (induction n arbitrary: dbuf d c)
  case 0
  then show ?case by simp
next
  case (Suc n)
  have "dbuf ! c = s ! c"
    using Suc.prems(2,3) by (metis nth_take)
  also have "\<dots> = s ! d" using Suc.prems(5) by force
  finally have upd: "take (d + 1) (dbuf[d := dbuf ! c]) = take (d + 1) s"
    using Suc.prems(1,2,4) by (simp add: take_Suc_conv_app_nth)
  have "\<forall>k<n. s ! (d + 1 + k) = s ! (c + 1 + k)"
    using Suc.prems(5) by (metis Suc_mono add.assoc plus_1_eq_Suc)
  then obtain dbuf' where "lz_copy (dbuf[d := dbuf ! c]) (d + 1) (c + 1) n = Inr (dbuf', d + 1 + n)"
    "length dbuf' = length s" "take (d + 1 + n) dbuf' = take (d + 1 + n) s"
    using Suc.IH [of "dbuf[d := dbuf ! c]" "d + 1" "c + 1"] upd Suc.prems by auto
  then show ?case using Suc.prems by (auto simp: store_def)
qed

lemma mask_bit: "j < 8 \<Longrightarrow> (w::uchar) AND word_of_nat (2 ^ j) \<noteq> 0 \<longleftrightarrow> bit w j"
  by (simp add: and_exp_eq_0_iff_not_bit)

lemma mask_or_bit: "j < 8 \<Longrightarrow> bit ((w::uchar) OR word_of_nat (2 ^ j)) b \<longleftrightarrow> bit w b \<or> b = j"
  by (auto simp: bit_simps)

definition lz_head :: "lz_state \<Rightarrow> lz_state" where
  "lz_head st = (if lz_mask st = 2 ^ 7
     then st\<lparr>lz_mask := 1, lz_map := length (lz_dst st), lz_dst := lz_dst st @ [0]\<rparr>
     else st\<lparr>lz_mask := lz_mask st * 2\<rparr>)"

lemma lz_step_head:
  "lz_step s sbase st = (if lz_mask st = 2 ^ 7 \<and> int (length (lz_dst st)) \<ge> int (length s) - 17 then Some LzRaw
     else lz_item s sbase (lz_head st))"
  by (auto simp: lz_step_def lz_head_def Let_def)

definition lz_wf :: "uchar list \<Rightarrow> lz_state \<Rightarrow> nat \<Rightarrow> bool" where
  "lz_wf s st j \<longleftrightarrow> j < 8 \<and> lz_mask st = 2 ^ j \<and> lz_src st \<le> length s \<and>
     length (lz_dst st) + 2 * (7 - j) < length s \<and>
     (j < 7 \<longrightarrow> lz_map st < length (lz_dst st) \<and> (\<forall>b>j. \<not> bit (lz_dst st ! lz_map st) b))"

definition lz_agree :: "uchar list \<Rightarrow> lz_state \<Rightarrow> nat \<Rightarrow> bool" where
  "lz_agree z st j \<longleftrightarrow> length (lz_dst st) \<le> length z \<and>
     (\<forall>k < length (lz_dst st). (j < 7 \<longrightarrow> k \<noteq> lz_map st) \<longrightarrow> z ! k = lz_dst st ! k) \<and>
     (j < 7 \<longrightarrow> (\<forall>b\<le>j. bit (z ! lz_map st) b = bit (lz_dst st ! lz_map st) b))"


definition lz_ready :: "uchar list \<Rightarrow> lz_state \<Rightarrow> nat \<Rightarrow> bool" where
  "lz_ready s st j \<longleftrightarrow> j < 8 \<and> lz_mask st = 2 ^ j \<and> lz_src st < length s \<and>
     length (lz_dst st) + 2 * (8 - j) < length s \<and>
     lz_map st < length (lz_dst st) \<and> (\<forall>b\<ge>j. \<not> bit (lz_dst st ! lz_map st) b)"

abbreviation next_bit :: "nat \<Rightarrow> nat" where
  "next_bit j \<equiv> (if j = 7 then 0 else Suc j)"

lemma mask_128: "j < 8 \<Longrightarrow> (2::nat) ^ j = 2 ^ 7 \<longleftrightarrow> j = 7"
  by (rule power_inject_exp) simp

lemma lz_head_ready:
  assumes "lz_wf s st j" "lz_src st < length s"
    and "\<not> (lz_mask st = 2 ^ 7 \<and> int (length (lz_dst st)) \<ge> int (length s) - 17)"
  shows "lz_ready s (lz_head st) (next_bit j)" "lz_src (lz_head st) = lz_src st"
proof -
  have j: "j < 8" "lz_mask st = 2 ^ j" using assms(1) by (auto simp: lz_wf_def)
  show "lz_src (lz_head st) = lz_src st" by (simp add: lz_head_def)
  show "lz_ready s (lz_head st) (next_bit j)"
  proof (cases "j = 7")
    case True
    then show ?thesis using assms j by (auto simp: lz_head_def lz_ready_def lz_wf_def nth_append)
  next
    case False
    then show ?thesis using assms j mask_128 [OF j(1)]
      by (auto simp: lz_head_def lz_ready_def lz_wf_def)
  qed
qed

lemma lz_next_wf:
  assumes "lz_ready s st j" "lz_lit_next s st st' \<or> lz_copy_next s st st'" "lz_same st st'"
  shows "lz_wf s st' j"
proof -
  have r: "j < 8" "lz_mask st = 2 ^ j" "lz_src st < length s"
     "length (lz_dst st) + 2 * (8 - j) < length s"
     "lz_map st < length (lz_dst st)" "\<forall>b\<ge>j. \<not> bit (lz_dst st ! lz_map st) b"
    using assms(1) by (auto simp: lz_ready_def)
  from assms(2) show ?thesis
  proof
    assume "lz_lit_next s st st'"
    then show ?thesis using r assms(3) by (auto simp: lz_lit_next_def lz_wf_def nth_append)
  next
    assume "lz_copy_next s st st'"
    then show ?thesis using r assms(3)
      by (auto simp: lz_copy_next_def lz_copies_def lz_wf_def nth_append mask_or_bit
          simp del: of_nat_power)
  qed
qed

lemma lz_next_dst:
  assumes "lz_ready s st j" "lz_lit_next s st st' \<or> lz_copy_next s st st'"
  shows "length (lz_dst st) < length (lz_dst st')"
    "k < length (lz_dst st) \<Longrightarrow> k \<noteq> lz_map st \<Longrightarrow> lz_dst st' ! k = lz_dst st ! k"
    "b \<noteq> j \<Longrightarrow> bit (lz_dst st' ! lz_map st) b = bit (lz_dst st ! lz_map st) b"
  using assms
  by (auto simp: lz_ready_def lz_lit_next_def lz_copy_next_def nth_append mask_or_bit simp del: of_nat_power)

lemma lz_next_flag:
  assumes "lz_ready s st j"
  shows "lz_lit_next s st st' \<Longrightarrow> \<not> bit (lz_dst st' ! lz_map st) j"
    "lz_copy_next s st st' \<Longrightarrow> bit (lz_dst st' ! lz_map st) j"
  using assms
  by (auto simp: lz_ready_def lz_lit_next_def lz_copy_next_def nth_append mask_or_bit simp del: of_nat_power)

lemma lz_head_dst:
  assumes "lz_wf s st j"
  shows "lz_dst (lz_head st) = (if j = 7 then lz_dst st @ [0] else lz_dst st)"
    "lz_map (lz_head st) = (if j = 7 then length (lz_dst st) else lz_map st)"
  using assms mask_128 [of j] by (auto simp: lz_wf_def lz_head_def)

lemma lz_agree_bits:
  assumes "lz_agree z st j" "lz_map st < length (lz_dst st)" "b \<le> j"
  shows "bit (z ! lz_map st) b = bit (lz_dst st ! lz_map st) b"
  using assms by (auto simp: lz_agree_def)

lemma lz_agree_back:
  assumes wf: "lz_wf s st j" and r: "lz_ready s (lz_head st) (next_bit j)"
    and n: "lz_lit_next s (lz_head st) st' \<or> lz_copy_next s (lz_head st) st'" "lz_same (lz_head st) st'"
    and a: "lz_agree z st' (next_bit j)"
  shows "lz_agree z st j"
proof -
  note d = lz_next_dst [OF r n(1)] and h = lz_head_dst [OF wf]
  have len: "length (lz_dst st') \<le> length z" using a by (simp add: lz_agree_def)
  have other: "z ! k = lz_dst (lz_head st) ! k" if "k < length (lz_dst (lz_head st))" "k \<noteq> lz_map (lz_head st)" for k
    using a d(1) d(2) [OF that] n(2) that by (auto simp: lz_agree_def)
  show ?thesis
  proof (cases "j = 7")
    case True
    then show ?thesis using other len d(1) h by (auto simp: lz_agree_def nth_append)
  next
    case False
    have "bit (z ! lz_map st) b = bit (lz_dst st ! lz_map st) b" if "b \<le> j" for b
      using lz_agree_bits [OF a, of b] r d(1) d(3) [of b] n(2) that False h by (auto simp: lz_ready_def)
    then show ?thesis using other len d(1) h False wf by (auto simp: lz_agree_def lz_wf_def)
  qed
qed

subsection \<open>The decompressor follows the compressor\<close>

lemma decompress_literal:
  assumes "i < length z" "d < length dbuf"
    and "(k0, cm0, i0) = (if k * 2 = 2 ^ 8 then (1, z ! i, i + 1) else (k * 2, cm, i))"
    and "cm0 AND word_of_nat k0 = 0" "i0 < length z"
  shows "decompress_loop z (length z) i dbuf d cm k = decompress_loop z (length z) (i0 + 1) (dbuf[d := z ! i0]) (d + 1) cm0 k0"
proof -
  have "lz_group z i cm k = Inr (k0, cm0, i0)" using assms(1,3) by (auto simp: lz_group_def fetch_def nth_opt_def split: if_splits)
  moreover have "lz_expand z False i0 dbuf d = Inr (LzOn (i0 + 1) (dbuf[d := z ! i0]) (d + 1))"
    using assms(2,5) by (simp add: lz_expand_def fetch_def nth_opt_def store_def)
  ultimately show ?thesis using assms(1,2,4) by (subst decompress_loop.simps) simp
qed

lemma decompress_copy:
  assumes "i < length z" "d < length dbuf"
    and "(k0, cm0, i0) = (if k * 2 = 2 ^ 8 then (1, z ! i, i + 1) else (k * 2, cm, i))"
    and "cm0 AND word_of_nat k0 \<noteq> 0" "i0 + 1 < length z"
    and "off = (push_bit 8 (unat (z ! i0)) OR unat (z ! (i0 + 1))) AND OFFSET_MASK" "off \<le> d"
    and "lz_copy dbuf d (d - off) (drop_bit 2 (unat (z ! i0)) + MATCH_MIN) = Inr (dbuf', d')"
  shows "decompress_loop z (length z) i dbuf d cm k = decompress_loop z (length z) (i0 + 2) dbuf' d' cm0 k0"
proof -
  have "lz_group z i cm k = Inr (k0, cm0, i0)" using assms(1,3) by (auto simp: lz_group_def fetch_def nth_opt_def split: if_splits)
  moreover have "lz_expand z True i0 dbuf d = Inr (LzOn (i0 + 2) dbuf' d')"
    using assms(5-8) by (simp add: lz_expand_def fetch_def nth_opt_def Let_def)
  ultimately show ?thesis using assms(1,2,4) by (subst decompress_loop.simps) simp
qed

definition lz_decodes :: "uchar list \<Rightarrow> uchar list \<Rightarrow> lz_state \<Rightarrow> nat \<Rightarrow> bool" where
  "lz_decodes s z st j \<longleftrightarrow> (\<forall>dbuf cm. length dbuf = length s \<longrightarrow>
     take (lz_src st) dbuf = take (lz_src st) s \<longrightarrow> (j < 7 \<longrightarrow> cm = z ! lz_map st) \<longrightarrow>
     decompress_loop z (length z) (length (lz_dst st)) dbuf (lz_src st) cm (2 ^ j) = Inr (length s, s))"

lemma lz_decodes_back:
  assumes wf: "lz_wf s st j" and r: "lz_ready s (lz_head st) (next_bit j)"
    and n: "lz_lit_next s (lz_head st) st' \<or> lz_copy_next s (lz_head st) st'" "lz_same (lz_head st) st'"
    and a: "lz_agree z st' (next_bit j)" and dec: "lz_decodes s z st' (next_bit j)"
  shows "lz_decodes s z st j"
  unfolding lz_decodes_def
proof (intro allI impI)
  fix dbuf cm
  assume db: "length dbuf = length s" "take (lz_src st) dbuf = take (lz_src st) s"
    and cm: "j < 7 \<longrightarrow> cm = z ! lz_map st"
  let ?st0 = "lz_head st" and ?j0 = "next_bit j"
  define i0 where "i0 = length (lz_dst ?st0)"
  define cm0 where "cm0 = z ! lz_map ?st0"
  have j: "j < 8" using wf by (simp add: lz_wf_def)
  note h = lz_head_dst [OF wf] and d = lz_next_dst [OF r n(1)]
  have src: "lz_src ?st0 = lz_src st" "lz_src st < length s"
    using r by (auto simp: lz_head_def lz_ready_def split: if_splits)
  have len: "length (lz_dst st') \<le> length z" using a by (simp add: lz_agree_def)
  have i: "length (lz_dst st) < length z" using len d(1) h by (auto split: if_splits)
  have hdr: "((2::nat) ^ ?j0, cm0, i0) = (if 2 ^ j * 2 = (2::nat) ^ 8 then (1, z ! length (lz_dst st), length (lz_dst st) + 1)
      else (2 ^ j * 2, cm, length (lz_dst st)))"
    using h j cm mask_128 [of j] by (auto simp: cm0_def i0_def)
  have zk: "z ! k = lz_dst st' ! k" if "k < length (lz_dst st')" "k \<noteq> lz_map ?st0" for k
    using a n(2) that by (auto simp: lz_agree_def)
  have map0: "lz_map ?st0 < i0" using r by (simp add: lz_ready_def i0_def)
  have flag: "bit cm0 ?j0 = bit (lz_dst st' ! lz_map ?st0) ?j0"
    using lz_agree_bits [OF a, of ?j0] n(2) map0 d(1) by (simp add: cm0_def i0_def)
  have j0: "?j0 < 8" using j by simp
  from n(1) show "decompress_loop z (length z) (length (lz_dst st)) dbuf (lz_src st) cm (2 ^ j) = Inr (length s, s)"
  proof
    assume lit: "lz_lit_next s ?st0 st'"
    then have st': "lz_dst st' = lz_dst ?st0 @ [s ! lz_src st]" "lz_src st' = lz_src st + 1"
      using src by (auto simp: lz_lit_next_def)
    then have z0: "z ! i0 = s ! lz_src st" "i0 < length z"
      using zk [of i0] map0 len by (auto simp: i0_def)
    have "cm0 AND word_of_nat (2 ^ ?j0) = 0"
      using lz_next_flag(1) [OF r lit] flag mask_bit [OF j0, of cm0] by blast
    from decompress_literal [OF i _ hdr this z0(2)] db(1) src(2)
    have "decompress_loop z (length z) (length (lz_dst st)) dbuf (lz_src st) cm (2 ^ j) =
        decompress_loop z (length z) (i0 + 1) (dbuf[lz_src st := z ! i0]) (lz_src st + 1) cm0 (2 ^ ?j0)"
      by simp
    moreover have "take (lz_src st + 1) (dbuf[lz_src st := z ! i0]) = take (lz_src st + 1) s"
      using db src z0 by (simp add: take_Suc_conv_app_nth)
    ultimately show ?thesis
      using dec db st' n(2) by (simp add: lz_decodes_def cm0_def i0_def)
  next
    assume cp: "lz_copy_next s ?st0 st'"
    then obtain mlen off where c: "lz_copies s (lz_src st) off mlen" "lz_src st' = lz_src st + mlen"
      and st': "lz_dst st' = (lz_dst ?st0)[lz_map ?st0 := lz_dst ?st0 ! lz_map ?st0 OR word_of_nat (lz_mask ?st0)] @
       [word_of_nat (push_bit 2 (mlen - 3) OR drop_bit 8 off), word_of_nat off]"
      using src by (auto simp: lz_copy_next_def)
    have b: "z ! i0 = word_of_nat (push_bit 2 (mlen - 3) OR drop_bit 8 off)" "z ! (i0 + 1) = word_of_nat off"
      "i0 + 1 < length z"
      using zk [of i0] zk [of "i0 + 1"] map0 len st' by (auto simp: i0_def nth_append)
    have code: "drop_bit 2 (unat (z ! i0)) + MATCH_MIN = mlen"
      "off = (push_bit 8 (unat (z ! i0)) OR unat (z ! (i0 + 1))) AND OFFSET_MASK"
      using lz_code [of "mlen - 3" off] c(1) unfolding b by (auto simp: lz_copies_def MATCH_MIN_def)
    obtain dbuf' where copy: "lz_copy dbuf (lz_src st) (lz_src st - off) mlen = Inr (dbuf', lz_src st + mlen)"
      "length dbuf' = length s" "take (lz_src st + mlen) dbuf' = take (lz_src st + mlen) s"
      using lz_copy_spec [OF db, of "lz_src st - off" mlen] c(1) by (auto simp: lz_copies_def)
    have "cm0 AND word_of_nat (2 ^ ?j0) \<noteq> 0"
      using lz_next_flag(2) [OF r cp] flag mask_bit [OF j0, of cm0] by blast
    from decompress_copy [OF i _ hdr this b(3) code(2) _ copy(1) [folded code(1)]] db(1) src(2) c(1)
    have "decompress_loop z (length z) (length (lz_dst st)) dbuf (lz_src st) cm (2 ^ j) =
        decompress_loop z (length z) (i0 + 2) dbuf' (lz_src st + mlen) cm0 (2 ^ ?j0)"
      by (simp add: lz_copies_def code(1))
    then show ?thesis
      using dec copy st' c n(2) by (simp add: lz_decodes_def cm0_def i0_def)
  qed
qed

lemma lz_raw_id: "length s < 2 ^ 31 \<Longrightarrow> lz_raw s = s"
  by (simp add: lz_raw_def unat_of_nat)

lemma compress_loop_roundtrip:
  "lz_wf s st j \<Longrightarrow> length s < 2 ^ 31 \<Longrightarrow> \<exists>z. compress_loop s sbase st = Some (length z, z) \<and>
     (z = s \<or> length z < length s \<and> lz_agree z st j \<and> lz_decodes s z st j)"
proof (induction s sbase st arbitrary: j rule: compress_loop.induct)
  case (1 s sbase st)
  let ?raw = "lz_mask st = 2 ^ 7 \<and> int (length (lz_dst st)) \<ge> int (length s) - 17"
  show ?case
  proof (cases "lz_src st < length s")
    case False
    then have "compress_loop s sbase st = Some (length (lz_dst st), lz_dst st)" by (simp add: compress_loop.simps)
    moreover have "lz_decodes s (lz_dst st) st j"
      using False "1.prems" by (auto simp: lz_decodes_def lz_wf_def decompress_loop.simps)
    ultimately show ?thesis using "1.prems" by (auto simp: lz_wf_def lz_agree_def)
  next
    case src: True
    show ?thesis
    proof (cases ?raw)
      case True
      then show ?thesis using src "1.prems"(2) by (simp add: compress_loop.simps lz_step_head lz_raw_id)
    next
      case False
      note r = lz_head_ready [OF "1.prems"(1) src False]
      then obtain st' where st': "lz_item s sbase (lz_head st) = Some (LzCont st')"
        "lz_lit_next s (lz_head st) st' \<or> lz_copy_next s (lz_head st) st'" "lz_same (lz_head st) st'"
        using lz_item_cases [of "lz_head st" s sbase] src by auto
      have step: "lz_step s sbase st = Some (LzCont st')" using False st'(1) by (simp only: lz_step_head if_False)
      then have eq: "compress_loop s sbase st = compress_loop s sbase st'"
        using src by (simp add: compress_loop.simps [of s sbase st])
      from "1.IH" [OF src step refl lz_next_wf [OF r(1) st'(2,3)] "1.prems"(2)]
      show ?thesis
        using lz_agree_back [OF "1.prems"(1) r(1) st'(2,3)] lz_decodes_back [OF "1.prems"(1) r(1) st'(2,3)]
        unfolding eq by blast
    qed
  qed
qed

lemma compress_roundtrip:
  assumes "length dbuf = length s" "length s < 2 ^ 31"
  shows "\<exists>z. compress s sbase lempel = Some (length z, z) \<and> length z \<le> length s \<and>
    decompress z (length z) dbuf = Inr (length s, s)"
proof (cases "s = []")
  case True
  then show ?thesis using assms by (simp add: compress_def compress_loop.simps decompress_def)
next
  case False
  define st where "st = \<lparr>lz_src = 0, lz_dst = [], lz_map = 0, lz_mask = 2 ^ 7, lz_lempel = lempel\<rparr>"
  from False have "lz_wf s st 7" by (simp add: lz_wf_def st_def)
  then obtain z where z: "compress_loop s sbase st = Some (length z, z)"
    "z = s \<or> length z < length s \<and> lz_decodes s z st 7"
    using compress_loop_roundtrip [OF _ assms(2)] by blast
  then have "decompress z (length z) dbuf = Inr (length s, s)"
    using assms by (auto simp: decompress_def lz_decodes_def st_def)
  moreover have "length z \<le> length s" using z(2) by auto
  ultimately show ?thesis using z(1) by (simp add: compress_def st_def)
qed

subsection \<open>The decompressor stays in its buffer\<close>

lemma lz_copy_frame:
  "d \<le> length dbuf \<Longrightarrow> \<exists>dbuf' d'. lz_copy dbuf d c n = Inr (dbuf', d') \<and>
     d \<le> d' \<and> d' \<le> length dbuf \<and> length dbuf' = length dbuf \<and> drop d' dbuf' = drop d' dbuf"
proof (induction n arbitrary: dbuf d c)
  case (Suc n)
  show ?case
  proof (cases "d < length dbuf")
    case True
    then obtain dbuf' d' where "lz_copy (dbuf[d := dbuf ! c]) (d + 1) (c + 1) n = Inr (dbuf', d')" "d + 1 \<le> d'" "d' \<le> length dbuf"
      "length dbuf' = length dbuf" "drop d' dbuf' = drop d' (dbuf[d := dbuf ! c])"
      using Suc.IH [of "d + 1" "dbuf[d := dbuf ! c]" "c + 1"] by auto
    then show ?thesis using True by (auto simp: store_def)
  qed (use Suc.prems in simp)
qed simp

text \<open>What one turn of the loop leaves unchanged.\<close>

definition lz_kept :: "uchar list \<Rightarrow> nat \<Rightarrow> uchar list \<Rightarrow> nat \<Rightarrow> bool" where
  "lz_kept dbuf d dbuf' d' \<longleftrightarrow> d \<le> d' \<and> d' \<le> length dbuf \<and> length dbuf' = length dbuf \<and> drop d' dbuf' = drop d' dbuf"

lemma lz_kept_trans: "lz_kept a i b j \<Longrightarrow> lz_kept b j c k \<Longrightarrow> lz_kept a i c k"
  unfolding lz_kept_def by (metis drop_drop le_add_diff_inverse2 le_trans)

lemma lz_expand_kept:
  assumes "d < length dbuf"
  shows "lz_expand z b i dbuf d \<noteq> Inl Dst_Overwrite"
    "lz_expand z b i dbuf d = Inr (LzOn i' dbuf' d') \<Longrightarrow> lz_kept dbuf d dbuf' d'"
    "i + 1 < length z \<Longrightarrow> \<exists>r. lz_expand z b i dbuf d = Inr r"
proof -
  have c: "\<exists>dbuf' d'. lz_copy dbuf d c n = Inr (dbuf', d') \<and> lz_kept dbuf d dbuf' d'" for c n
    using lz_copy_frame [of d dbuf c n] assms by (auto simp: lz_kept_def)
  have c': "lz_copy dbuf d c n \<noteq> Inl f" "lz_copy dbuf d c n = Inr (x, y) \<Longrightarrow> lz_kept dbuf d x y" for c n f x y using c [of c n] by auto
  show "lz_expand z b i dbuf d \<noteq> Inl Dst_Overwrite"
    using assms c' by (auto simp: lz_expand_def Let_def store_def fetch_def split: sum.splits option.splits)
  show "lz_kept dbuf d dbuf' d'" if "lz_expand z b i dbuf d = Inr (LzOn i' dbuf' d')"
    using that assms c' by (auto simp: lz_expand_def Let_def store_def lz_kept_def split: sum.splits if_splits)
  show "\<exists>r. lz_expand z b i dbuf d = Inr r" if "i + 1 < length z"
    using that assms c' by (auto simp: lz_expand_def Let_def store_def fetch_def nth_opt_def split: sum.splits)
qed

text \<open>
  The loop, on any source: it never writes outside the buffer, and when two bytes can be read after the
  \<open>s_len\<close> bytes of the source it returns.
\<close>

lemma decompress_loop_frame:
  "d \<le> length dbuf \<Longrightarrow>
   (case decompress_loop z s_len i dbuf d cm k of
      Inl f \<Rightarrow> f = Src_Overread \<and> length z < s_len + 2
    | Inr (n, out) \<Rightarrow> lz_kept dbuf d out n)"
proof (induction z s_len i dbuf d cm k rule: decompress_loop.induct)
  case (1 z s_len i dbuf d cm k)
  note unf = decompress_loop.simps [of z s_len i dbuf d cm k]
  show ?case
  proof (cases "i < s_len \<and> d < length dbuf")
    case False
    then have "decompress_loop z s_len i dbuf d cm k = Inr (d, dbuf)" using unf by auto
    then show ?thesis using "1.prems" by (simp add: lz_kept_def)
  next
    case True
    then have d: "d < length dbuf" by simp
    show ?thesis
    proof (cases "lz_group z i cm k")
      case (Inl f)
      then show ?thesis using True unf by (auto simp: lz_group_def fetch_def nth_opt_def split: if_splits)
    next
      case (Inr g)
      then obtain k' cm' i1 where g: "lz_group z i cm k = Inr (k', cm', i1)" by (cases g) auto
      let ?b = "cm' AND word_of_nat k' \<noteq> 0"
      have i1: "i1 \<le> s_len" using lz_group_src [OF g] True by auto
      show ?thesis
      proof (cases "lz_expand z ?b i1 dbuf d")
        case (Inl f)
        have "f = Src_Overread" using lz_expand_kept(1) [OF d, of z ?b i1] Inl by (cases f) auto
        moreover have "length z < s_len + 2"
        proof (rule ccontr)
          assume "\<not> length z < s_len + 2"
          then show False using lz_expand_kept(3) [OF d, of i1 z ?b] i1 Inl by auto
        qed
        moreover have "decompress_loop z s_len i dbuf d cm k = Inl f" using True unf g Inl by simp
        ultimately show ?thesis by simp
      next
        case e: (Inr r)
        show ?thesis
        proof (cases r)
          case LzReturn
          then have "decompress_loop z s_len i dbuf d cm k = Inr (d, dbuf)" using True unf g e by simp
          then show ?thesis using d by (simp add: lz_kept_def)
        next
          case (LzOn i2 dbuf2 d2)
          have kept: "lz_kept dbuf d dbuf2 d2" using lz_expand_kept(2) [OF d, of z ?b i1] e LzOn by simp
          then have "d2 \<le> length dbuf2" by (simp add: lz_kept_def)
          from "1.IH" [OF True g refl refl e LzOn this]
          have "case decompress_loop z s_len i2 dbuf2 d2 cm' k' of Inl f \<Rightarrow> f = Src_Overread \<and> length z < s_len + 2 | Inr (n, out) \<Rightarrow> lz_kept dbuf2 d2 out n" .
          moreover have "decompress_loop z s_len i dbuf d cm k = decompress_loop z s_len i2 dbuf2 d2 cm' k'" using True unf g e LzOn by simp
          ultimately show ?thesis using lz_kept_trans [OF kept] by (auto split: sum.splits)
        qed
      qed
    qed
  qed
qed

subsection \<open>Properties\<close>

text \<open>
  C1: compression loses nothing. For every source buffer whose size is a positive \<open>int\<close> or 0, every address it may have
  and every content of the uninitialised Lempel history, \<open>compress()\<close> succeeds without reading outside the
  source, returns the number of bytes it has written, which is at most the size of the source, and \<open>decompress()\<close> of that
  output into any buffer of the source's size returns the size and leaves exactly the source bytes there.
\<close>

theorem compress_decompress:
  assumes "length dbuf = length s" "length s < 2 ^ 31"
  shows "\<exists>z. compress s sbase lempel = Some (length z, z) \<and> length z \<le> length s \<and>
    decompress z (length z) dbuf = Inr (length s, s)"
  using assms by (rule compress_roundtrip)

theorem compress_decompress_witness:
  "\<exists>z. compress (replicate 100 65) 4096 (replicate 256 0) = Some (length z, z) \<and> length z \<le> 100 \<and>
    decompress z (length z) (replicate 100 0) = Inr (100, replicate 100 65)"
proof -
  have "length (replicate 100 (0 :: uchar)) = length (replicate 100 (65 :: uchar))" "length (replicate 100 (65 :: uchar)) < 2 ^ 31" by simp_all
  from compress_decompress [OF this, of 4096 "replicate 256 0"] show ?thesis by (simp only: length_replicate)
qed

text \<open>
  C2: \<open>decompress()\<close> never writes outside its destination, whatever its source, truncated or corrupt, and whatever
  follows the source in memory. The only fault is a read after the source, and two bytes there that can be read
  are enough for it to return, with a count within the buffer; the bytes from the count on are untouched.
\<close>

theorem decompress_within_buffer:
  "case decompress z s_len dbuf of
     Inl f \<Rightarrow> f = Src_Overread \<and> length z < s_len + 2
   | Inr (n, out) \<Rightarrow> n \<le> length dbuf \<and> length out = length dbuf \<and> drop n out = drop n dbuf"
proof (cases "s_len \<ge> length dbuf")
  case True
  then show ?thesis by (auto simp: decompress_def)
next
  case False
  then show ?thesis using decompress_loop_frame [of 0 dbuf z s_len 0 0 "2 ^ 7"] by (auto simp: decompress_def lz_kept_def split: sum.splits)
qed

text \<open>
  C8: on truncated input \<open>decompress()\<close> reads past the end of its source: after a group header
  in the last byte it fetches the first item without testing \<open>src\<close> against \<open>s_end\<close> again.
\<close>

theorem decompress_truncated_overread:
  assumes "2 \<le> length dbuf"
  shows "decompress [m] 1 dbuf = Inl Src_Overread"
proof -
  have "lz_group [m] 0 0 (2 ^ 7) = Inr (1, m, 1)" by (simp add: lz_group_def fetch_def nth_opt_def)
  moreover have "lz_expand [m] b 1 dbuf 0 = Inl Src_Overread" for b by (simp add: lz_expand_def fetch_def nth_opt_def)
  ultimately have "decompress_loop [m] 1 0 dbuf 0 0 (2 ^ 7) = Inl Src_Overread" using assms by (subst decompress_loop.simps) auto
  then show ?thesis using assms by (simp add: decompress_def)
qed

theorem decompress_truncated_overread_witness:
  "2 \<le> length [0 :: uchar, 0] \<and> decompress [7] 1 [0, 0] = Inl Src_Overread"
  using decompress_truncated_overread [of "[0, 0]" 7] by simp

end
