(* ===== verification/Vmem_Model.thy ===== *)
theory Vmem_Model
  imports Kernel_Bits
begin

section \<open>Vmem arenas: data and operations\<close>

text \<open>
  The arena allocator of \<open>uts/common/os/vmem.c\<close> and \<open>sys/vmem_impl.h\<close>. A \<open>vmem_seg_t\<close> is known by
  its identity (\<open>segp\<close>) and its fields live in the store \<open>vm_seg\<close>; the intrusive lists of the code
  are lists of identities: \<open>vm_arena\<close> is the \<open>vs_anext\<close> chain from \<open>vm_seg0\<close>, \<open>vm_spans\<close> its
  \<open>vs_knext\<close> chain, \<open>vm_freelist\<close> the segments behind each of the 65 freelist heads, and
  \<open>vm_hash_table\<close> the chains of the hash buckets. A panic, and a step on a list that the code takes
  for granted, is a value of \<open>vmem_fault\<close>. What surrounds an arena (its source, the pool of segment
  structures, the quantum caches, \<open>kmem_reap()\<close> and \<open>cv_wait()\<close>) is the record \<open>vm_env\<close> over a world
  of type \<open>'w\<close>. Locks, condition broadcasts, kstat creation and the \<open>KMF_AUDIT\<close> stacks are left out.
\<close>

subsection \<open>Segments and arenas\<close>

type_synonym segp = nat

datatype seg_type = VMEM_ALLOC | VMEM_FREE | VMEM_SPAN

record vmem_seg =
  vs_start :: ulong
  vs_end :: ulong
  vs_type :: seg_type
  vs_import :: bool

record vmem_kstat =
  vk_mem_inuse :: ulong
  vk_mem_import :: ulong
  vk_mem_total :: ulong
  vk_alloc :: ulong
  vk_free :: ulong
  vk_wait :: ulong
  vk_fail :: ulong
  vk_lookup :: ulong
  vk_search :: ulong
  vk_populate_wait :: ulong
  vk_populate_fail :: ulong
  vk_contains :: ulong
  vk_contains_search :: ulong

record vmem =
  vm_quantum :: ulong
  vm_qshift :: nat
  vm_nsegfree :: int
  vm_segfree :: "segp list"
  vm_seg :: "segp \<Rightarrow> vmem_seg"
  vm_arena :: "segp list"
  vm_spans :: "segp list"
  vm_freelist :: "segp list list"
  vm_freemap :: ulong
  vm_hash_table :: "segp list list"
  vm_hash_mask :: ulong
  vm_hash_shift :: nat
  vm_kstat :: vmem_kstat
  vm_qcache_max :: ulong

datatype vmem_fault =
    VmNoSegment
  | VmEmptySegment
  | VmNotOnList
  | VmZeroStart
  | VmBadFree
  | VmWrongSize
  | VmMisaligned
  | VmBadArguments
  | VmZeroSize
  | VmUnaligned
  | VmOverconstrained
  | VmMandatory

type_synonym 'a vres = "vmem_fault + 'a"

definition vbind :: "'a vres \<Rightarrow> ('a \<Rightarrow> 'b vres) \<Rightarrow> 'b vres" where
  "vbind m f = (case m of Inl e \<Rightarrow> Inl e | Inr x \<Rightarrow> f x)"

definition VMEM_FREELISTS :: nat where "VMEM_FREELISTS = 64"
definition VMEM_HASH_INITIAL :: nat where "VMEM_HASH_INITIAL = 64"

definition seg_size :: "vmem_seg \<Rightarrow> ulong" where
  "seg_size s = vs_end s - vs_start s"

definition VS_SIZE :: "vmem \<Rightarrow> segp \<Rightarrow> ulong" where
  "VS_SIZE v p = seg_size (vm_seg v p)"

definition flist_size :: "nat \<Rightarrow> ulong" where
  "flist_size n = push_bit n 1"

definition VMEM_HASH_INDEX :: "vmem \<Rightarrow> ulong \<Rightarrow> nat" where
  "VMEM_HASH_INDEX v a =
     unat (drop_bit (vm_qshift v) (a + drop_bit (vm_hash_shift v) a + drop_bit (2 * vm_hash_shift v) a)
           AND vm_hash_mask v)"

abbreviation upd_seg :: "segp \<Rightarrow> (vmem_seg \<Rightarrow> vmem_seg) \<Rightarrow> vmem \<Rightarrow> vmem" where
  "upd_seg p f v \<equiv> v\<lparr>vm_seg := (vm_seg v)(p := f (vm_seg v p))\<rparr>"

abbreviation upd_kstat :: "(vmem_kstat \<Rightarrow> vmem_kstat) \<Rightarrow> vmem \<Rightarrow> vmem" where
  "upd_kstat f v \<equiv> v\<lparr>vm_kstat := f (vm_kstat v)\<rparr>"

subsection \<open>Linked lists\<close>

fun insert_after :: "'a option \<Rightarrow> 'a \<Rightarrow> 'a list \<Rightarrow> 'a list" where
  "insert_after None y xs = y # xs"
| "insert_after (Some x) y [] = [y]"
| "insert_after (Some x) y (z # zs) = (if z = x then z # y # zs else z # insert_after (Some x) y zs)"

fun next_in :: "'a \<Rightarrow> 'a list \<Rightarrow> 'a option" where
  "next_in x (y # ys) = (if y = x then (case ys of [] \<Rightarrow> None | z # _ \<Rightarrow> Some z) else next_in x ys)"
| "next_in x [] = None"

fun prev_in :: "'a \<Rightarrow> 'a list \<Rightarrow> 'a option" where
  "prev_in x (y # z # zs) = (if y = x then None else if z = x then Some y else prev_in x (z # zs))"
| "prev_in x _ = None"

definition last_opt :: "'a list \<Rightarrow> 'a option" where
  "last_opt xs = (if xs = [] then None else Some (last xs))"

fun find_list :: "'a \<Rightarrow> 'a list list \<Rightarrow> nat option" where
  "find_list x [] = None"
| "find_list x (xs # xss) = (if x \<in> set xs then Some 0 else map_option Suc (find_list x xss))"

subsection \<open>Segment structures, freelists and the hash table\<close>

definition vmem_getseg :: "vmem \<Rightarrow> (segp \<times> vmem) vres" where
  "vmem_getseg v =
     (case vm_segfree v of
        [] \<Rightarrow> Inl VmNoSegment
      | p # ps \<Rightarrow> Inr (p, v\<lparr>vm_segfree := ps, vm_nsegfree := vm_nsegfree v - 1\<rparr>))"

definition vmem_putseg :: "segp \<Rightarrow> vmem \<Rightarrow> vmem" where
  "vmem_putseg p v = v\<lparr>vm_segfree := p # vm_segfree v, vm_nsegfree := vm_nsegfree v + 1\<rparr>"

definition vmem_freelist_insert :: "segp \<Rightarrow> vmem \<Rightarrow> vmem vres" where
  "vmem_freelist_insert p v =
     (if VS_SIZE v p = 0 then Inl VmEmptySegment
      else let n = highbit (VS_SIZE v p) - 1;
               v = upd_seg p (vs_type_update (\<lambda>_. VMEM_FREE)) v
           in Inr (v\<lparr>vm_freemap := vm_freemap v OR flist_size n,
                     vm_freelist := (vm_freelist v)[n := p # vm_freelist v ! n]\<rparr>))"

definition vmem_freelist_delete :: "segp \<Rightarrow> vmem \<Rightarrow> vmem vres" where
  "vmem_freelist_delete p v =
     (case find_list p (vm_freelist v) of
        None \<Rightarrow> Inl VmNotOnList
      | Some n \<Rightarrow>
          let fl = vm_freelist v ! n;
              (nstart, nsize) = (case next_in p fl of None \<Rightarrow> (0, flist_size (Suc n)) | Some q \<Rightarrow> (vs_start (vm_seg v q), VS_SIZE v q));
              (pstart, psize) = (case prev_in p fl of None \<Rightarrow> (0, flist_size n) | Some q \<Rightarrow> (vs_start (vm_seg v q), VS_SIZE v q));
              v = (if nstart = 0 \<and> pstart = 0 then v\<lparr>vm_freemap := vm_freemap v XOR psize\<rparr> else v)
          in Inr (v\<lparr>vm_freelist := (vm_freelist v)[n := remove1 p fl]\<rparr>))"

definition vmem_hash_insert :: "segp \<Rightarrow> vmem \<Rightarrow> vmem" where
  "vmem_hash_insert p v =
     (let v = upd_seg p (vs_type_update (\<lambda>_. VMEM_ALLOC)) v;
          h = VMEM_HASH_INDEX v (vs_start (vm_seg v p));
          v = v\<lparr>vm_hash_table := (vm_hash_table v)[h := p # vm_hash_table v ! h]\<rparr>
      in upd_kstat (\<lambda>k. k\<lparr>vk_alloc := vk_alloc k + 1, vk_mem_inuse := vk_mem_inuse k + VS_SIZE v p\<rparr>) v)"

fun hash_chain_find :: "vmem \<Rightarrow> ulong \<Rightarrow> segp list \<Rightarrow> segp option \<times> nat" where
  "hash_chain_find v addr [] = (None, 0)"
| "hash_chain_find v addr (p # ps) =
     (if vs_start (vm_seg v p) = addr then (Some p, 0)
      else let (r, n) = hash_chain_find v addr ps in (r, Suc n))"

definition vmem_hash_delete :: "ulong \<Rightarrow> ulong \<Rightarrow> vmem \<Rightarrow> (segp \<times> vmem) vres" where
  "vmem_hash_delete addr sz v =
     (let h = VMEM_HASH_INDEX v addr; b = vm_hash_table v ! h;
          (r, n) = hash_chain_find v addr b;
          v = upd_kstat (\<lambda>k. k\<lparr>vk_lookup := vk_lookup k + word_of_nat n\<rparr>) v
      in case r of
           None \<Rightarrow> Inl VmBadFree
         | Some p \<Rightarrow>
             let v = v\<lparr>vm_hash_table := (vm_hash_table v)[h := remove1 p b]\<rparr>
             in if VS_SIZE v p \<noteq> sz then Inl VmWrongSize
                else Inr (p, upd_kstat (\<lambda>k. k\<lparr>vk_free := vk_free k + 1, vk_mem_inuse := vk_mem_inuse k - sz\<rparr>) v))"

subsection \<open>Segments and spans of the arena list\<close>

definition vmem_seg_create :: "segp option \<Rightarrow> ulong \<Rightarrow> ulong \<Rightarrow> seg_type \<Rightarrow> vmem \<Rightarrow> (segp \<times> vmem) vres" where
  "vmem_seg_create vprev start end segtype v =
     vbind (vmem_getseg v) (\<lambda>(newseg, v).
       let v = upd_seg newseg (\<lambda>_. \<lparr>vs_start = start, vs_end = end, vs_type = segtype, vs_import = False\<rparr>) v
       in Inr (newseg, v\<lparr>vm_arena := insert_after vprev newseg (vm_arena v)\<rparr>))"

definition vmem_seg_destroy :: "segp \<Rightarrow> vmem \<Rightarrow> vmem" where
  "vmem_seg_destroy p v = vmem_putseg p (v\<lparr>vm_arena := remove1 p (vm_arena v)\<rparr>)"

definition vmem_span_create :: "ulong \<Rightarrow> ulong \<Rightarrow> bool \<Rightarrow> vmem \<Rightarrow> (segp \<times> vmem) vres" where
  "vmem_span_create vaddr sz import v =
     (let start = vaddr; end = start + sz
      in if (start OR end) AND (vm_quantum v - 1) \<noteq> 0 then Inl VmMisaligned
         else vbind (vmem_seg_create (last_opt (vm_arena v)) start end VMEM_SPAN v) (\<lambda>(span, v).
              vbind (vmem_seg_create (Some span) start end VMEM_FREE v) (\<lambda>(newseg, v).
              vbind (vmem_freelist_insert newseg (v\<lparr>vm_spans := vm_spans v @ [span]\<rparr>)) (\<lambda>v.
              let v = upd_seg newseg (vs_import_update (\<lambda>_. import)) v;
                  v = upd_kstat (\<lambda>k. k\<lparr>vk_mem_import := (if import then vk_mem_import k + sz else vk_mem_import k),
                                      vk_mem_total := vk_mem_total k + sz\<rparr>) v
              in Inr (newseg, v)))))"

definition vmem_span_destroy :: "segp \<Rightarrow> vmem \<Rightarrow> vmem vres" where
  "vmem_span_destroy p v =
     (case prev_in p (vm_arena v) of
        None \<Rightarrow> Inl VmNotOnList
      | Some span \<Rightarrow>
          let sz = VS_SIZE v p;
              v = upd_kstat (\<lambda>k. k\<lparr>vk_mem_import := (if vs_import (vm_seg v p) then vk_mem_import k - sz else vk_mem_import k),
                                  vk_mem_total := vk_mem_total k - sz\<rparr>) v;
              v = v\<lparr>vm_spans := remove1 span (vm_spans v)\<rparr>
          in Inr (vmem_seg_destroy span (vmem_seg_destroy p v)))"

definition vmem_seg_alloc :: "segp \<Rightarrow> ulong \<Rightarrow> ulong \<Rightarrow> vmem \<Rightarrow> vmem vres" where
  "vmem_seg_alloc p start end v =
     (let s0 = vs_start (vm_seg v p); e0 = vs_end (vm_seg v p); p2end = P2ROUNDUP end (vm_quantum v)
      in if start < s0 \<or> end - 1 > e0 - 1 \<or> start - 1 \<ge> end - 1 \<or> vs_type (vm_seg v p) \<noteq> VMEM_FREE
         then Inl VmBadArguments
         else
           vbind (if e0 \<noteq> p2end then
                    vbind (vmem_seg_create (Some p) p2end e0 VMEM_FREE (upd_seg p (vs_end_update (\<lambda>_. p2end)) v))
                      (\<lambda>(newseg, v). vmem_freelist_insert newseg v)
                  else Inr v) (\<lambda>v.
           vbind (if s0 \<noteq> start then
                    vbind (vmem_seg_create (Some p) start end VMEM_ALLOC (upd_seg p (vs_end_update (\<lambda>_. start)) v))
                      (\<lambda>(newseg, v). vbind (vmem_freelist_insert p v) (\<lambda>v. Inr (newseg, v)))
                  else Inr (p, v)) (\<lambda>(p, v).
           Inr (vmem_hash_insert p (upd_seg p (vs_end_update (\<lambda>_. end)) v)))))"

definition anext_type :: "segp \<Rightarrow> vmem \<Rightarrow> seg_type" where
  "anext_type p v = (case next_in p (vm_arena v) of None \<Rightarrow> VMEM_SPAN | Some q \<Rightarrow> vs_type (vm_seg v q))"

definition aprev_type :: "segp \<Rightarrow> vmem \<Rightarrow> seg_type" where
  "aprev_type p v = (case prev_in p (vm_arena v) of None \<Rightarrow> VMEM_SPAN | Some q \<Rightarrow> vs_type (vm_seg v q))"

definition coalesce_next :: "segp \<Rightarrow> vmem \<Rightarrow> vmem vres" where
  "coalesce_next p v =
     (case next_in p (vm_arena v) of
        None \<Rightarrow> Inr v
      | Some vnext \<Rightarrow>
          if vs_type (vm_seg v vnext) = VMEM_FREE
          then vbind (vmem_freelist_delete vnext v) (\<lambda>v.
                 Inr (vmem_seg_destroy vnext (upd_seg p (vs_end_update (\<lambda>_. vs_end (vm_seg v vnext))) v)))
          else Inr v)"

definition coalesce_prev :: "segp \<Rightarrow> vmem \<Rightarrow> (segp \<times> vmem) vres" where
  "coalesce_prev p v =
     (case prev_in p (vm_arena v) of
        None \<Rightarrow> Inr (p, v)
      | Some vprev \<Rightarrow>
          if vs_type (vm_seg v vprev) = VMEM_FREE
          then vbind (vmem_freelist_delete vprev v) (\<lambda>v.
                 Inr (vprev, vmem_seg_destroy p (upd_seg vprev (vs_end_update (\<lambda>_. vs_end (vm_seg v p))) v)))
          else Inr (p, v))"

subsection \<open>The surroundings of an arena\<close>

record 'w vm_env =
  ve_populate :: "nat \<Rightarrow> uint32 \<Rightarrow> 'w \<Rightarrow> vmem \<Rightarrow> (bool \<times> 'w \<times> vmem) vres"
  ve_has_alloc :: bool
  ve_has_free :: bool
  ve_source_quantum :: ulong
  ve_source_alloc :: "ulong \<Rightarrow> uint32 \<Rightarrow> 'w \<Rightarrow> vmem \<Rightarrow> (ulong \<times> 'w \<times> vmem) vres"
  ve_source_free :: "ulong \<Rightarrow> ulong \<Rightarrow> 'w \<Rightarrow> vmem \<Rightarrow> ('w \<times> vmem) vres"
  ve_cache_alloc :: "nat \<Rightarrow> uint32 \<Rightarrow> 'w \<Rightarrow> vmem \<Rightarrow> (ulong \<times> 'w \<times> vmem) vres"
  ve_cache_free :: "nat \<Rightarrow> ulong \<Rightarrow> 'w \<Rightarrow> vmem \<Rightarrow> ('w \<times> vmem) vres"
  ve_smp :: "'w \<Rightarrow> vmem"
  ve_set_smp :: "vmem \<Rightarrow> 'w \<Rightarrow> 'w"
  ve_reap :: "'w \<Rightarrow> vmem \<Rightarrow> 'w \<times> vmem"
  ve_wait :: "'w \<Rightarrow> vmem \<Rightarrow> 'w \<times> vmem"

definition VM_NOSLEEP :: uint32 where "VM_NOSLEEP = 1"
definition VM_PANIC :: uint32 where "VM_PANIC = 2"
definition VM_KMFLAGS :: uint32 where "VM_KMFLAGS = 0xff"
definition VM_BESTFIT :: uint32 where "VM_BESTFIT = 0x100"

subsection \<open>Freeing a segment\<close>

definition xfree_coalesce :: "ulong \<Rightarrow> ulong \<Rightarrow> vmem \<Rightarrow> (segp \<times> vmem) vres" where
  "xfree_coalesce vaddr sz v =
     vbind (vmem_hash_delete vaddr sz v) (\<lambda>(p, v).
     vbind (coalesce_next p (upd_seg p (vs_end_update (\<lambda>e. P2ROUNDUP e (vm_quantum v))) v)) (\<lambda>v.
     coalesce_prev p v))"

definition vmem_xfree :: "'w vm_env \<Rightarrow> ulong \<Rightarrow> ulong \<Rightarrow> 'w \<Rightarrow> vmem \<Rightarrow> ('w \<times> vmem) vres" where
  "vmem_xfree env vaddr sz w v =
     vbind (xfree_coalesce vaddr sz v) (\<lambda>(p, v).
       if vs_import (vm_seg v p) \<and> ve_has_free env \<and> aprev_type p v = VMEM_SPAN \<and> anext_type p v = VMEM_SPAN
       then let vaddr = vs_start (vm_seg v p); sz = VS_SIZE v p
            in vbind (vmem_span_destroy p v) (\<lambda>v. ve_source_free env vaddr sz w v)
       else vbind (vmem_freelist_insert p v) (\<lambda>v. Inr (w, v)))"

subsection \<open>Constrained allocation\<close>

record vmem_req =
  rq_size :: ulong
  rq_align :: ulong
  rq_phase :: ulong
  rq_nocross :: ulong
  rq_minaddr :: ulong
  rq_maxaddr :: ulong
  rq_flag :: uint32

definition fit_start :: "vmem_req \<Rightarrow> vmem_seg \<Rightarrow> ulong" where
  "fit_start r s = max (vs_start s) (rq_minaddr r)"

definition fit_end :: "vmem_req \<Rightarrow> vmem_seg \<Rightarrow> ulong" where
  "fit_end r s = min (vs_end s - 1) (rq_maxaddr r - 1) + 1"

definition fit_taddr :: "vmem_req \<Rightarrow> ulong \<Rightarrow> ulong" where
  "fit_taddr r start =
     (let taddr = P2PHASEUP start (rq_align r) (rq_phase r)
      in if P2CROSS taddr (taddr + rq_size r - 1) (rq_nocross r)
         then taddr + P2ROUNDUP (P2NPHASE taddr (rq_nocross r)) (rq_align r)
         else taddr)"

definition vmem_fit :: "vmem_req \<Rightarrow> vmem_seg \<Rightarrow> ulong option" where
  "vmem_fit r s =
     (if vs_end s - 1 < rq_minaddr r then None
      else if vs_start s > rq_maxaddr r - 1 then None
      else let start = fit_start r s; end = fit_end r s; taddr = fit_taddr r start
           in if (taddr - start) + rq_size r > end - start then None else Some taddr)"

definition vmem_flist :: "vmem_req \<Rightarrow> vmem \<Rightarrow> nat" where
  "vmem_flist r v =
     (let sz = rq_size r; flist = highbit sz
      in if sz AND (sz - 1) = 0 \<or> drop_bit flist (vm_freemap v) = 0 \<or> flist = VMEM_FREELISTS
            \<or> rq_flag r AND VM_BESTFIT \<noteq> 0
         then flist - 1 else flist)"

text \<open>The freelist that the walk turns to at the head of freelist \<open>n\<close>.\<close>

definition next_flist :: "vmem \<Rightarrow> nat \<Rightarrow> nat option" where
  "next_flist v n =
     (let flist = lowbit (vm_freemap v AND - flist_size n) in if flist = 0 then None else Some (flist - 1))"

datatype vm_walk = WalkStop "(segp \<times> ulong) option" | WalkEnd "(segp \<times> ulong) option" | WalkFault vmem_fault

text \<open>The walk along one freelist: it stops at a segment it takes, or reaches the next head.\<close>

fun walk_flist :: "vmem \<Rightarrow> vmem_req \<Rightarrow> segp list \<Rightarrow> (segp \<times> ulong) option \<Rightarrow> nat \<Rightarrow> vm_walk \<times> nat" where
  "walk_flist v r [] best n = (WalkEnd best, n)"
| "walk_flist v r (p # ps) best n =
     (if vs_start (vm_seg v p) = 0 then (WalkFault VmZeroStart, Suc n)
      else case vmem_fit r (vm_seg v p) of
        None \<Rightarrow> walk_flist v r ps best (Suc n)
      | Some taddr \<Rightarrow>
          if (case best of None \<Rightarrow> False | Some (q, _) \<Rightarrow> VS_SIZE v p \<ge> VS_SIZE v q)
          then walk_flist v r ps best (Suc n)
          else if rq_flag r AND VM_BESTFIT = 0 \<or> VS_SIZE v p = rq_size r then (WalkStop (Some (p, taddr)), Suc n)
          else walk_flist v r ps (Some (p, taddr)) (Suc n))"

lemma bit_minus_flist_size: "bit (- flist_size n) m \<longleftrightarrow> n \<le> m \<and> m < 64"
proof -
  have "- flist_size n = NOT (mask n)" by (simp add: flist_size_def minus_exp_eq_not_mask)
  then show ?thesis by (auto simp: bit_simps)
qed

lemma next_flist_ge:
  assumes "next_flist v n = Some m"
  shows "n \<le> m \<and> m < 64"
proof -
  let ?w = "vm_freemap v AND - flist_size n"
  from assms have nz: "?w \<noteq> 0" and m: "m = lowbit ?w - 1"
    by (auto simp: next_flist_def Let_def split: if_splits)
  from lowbit_least(3) [OF nz] m have "bit (- flist_size n) m" by (simp only: bit_and_iff)
  then show ?thesis by (simp add: bit_minus_flist_size)
qed

text \<open>The walk over all the freelists from \<open>flist\<close> on.\<close>

function vmem_search :: "vmem \<Rightarrow> vmem_req \<Rightarrow> nat \<Rightarrow> nat \<Rightarrow> (segp \<times> ulong) option vres \<times> nat" where
  "vmem_search v r flist n =
     (case walk_flist v r (vm_freelist v ! flist) None n of
        (WalkFault e, n) \<Rightarrow> (Inl e, n)
      | (WalkStop b, n) \<Rightarrow> (Inr b, n)
      | (WalkEnd (Some b), n) \<Rightarrow> (Inr (Some b), if flist < VMEM_FREELISTS then Suc n else n)
      | (WalkEnd None, n) \<Rightarrow>
          if flist < VMEM_FREELISTS then
            (case next_flist v (Suc flist) of
               None \<Rightarrow> (Inr None, Suc n)
             | Some m \<Rightarrow> vmem_search v r m (Suc n))
          else (Inr None, n))"
  by pat_completeness auto
termination
  by (relation "measure (\<lambda>(v, r, flist, n). 65 - flist)") (auto simp: VMEM_FREELISTS_def dest: next_flist_ge)

declare vmem_search.simps [simp del]

datatype 'w xturn = XFound segp ulong 'w vmem | XFail 'w vmem | XRetry 'w vmem

definition xalloc_import :: "'w vm_env \<Rightarrow> vmem_req \<Rightarrow> 'w \<Rightarrow> vmem \<Rightarrow> ((segp \<times> ulong) option \<times> 'w \<times> vmem) vres" where
  "xalloc_import env r w v =
     (if ve_has_alloc env \<and> rq_nocross r = 0 \<and> rq_minaddr r = 0 \<and> rq_maxaddr r = 0
      then let asize = P2ROUNDUP (rq_size r + rq_phase r) (max (rq_align r) (ve_source_quantum env));
               v = v\<lparr>vm_nsegfree := vm_nsegfree v - 4\<rparr>
           in vbind (ve_source_alloc env asize (rq_flag r) w v) (\<lambda>(vaddr, w, v).
              let v = v\<lparr>vm_nsegfree := vm_nsegfree v + 4\<rparr>
              in if vaddr \<noteq> 0
                 then vbind (vmem_span_create vaddr asize True v) (\<lambda>(p, v).
                      Inr (Some (p, P2PHASEUP (vs_start (vm_seg v p)) (rq_align r) (rq_phase r)), w, v))
                 else Inr (None, w, v))
      else Inr (None, w, v))"

definition xalloc_turn :: "'w vm_env \<Rightarrow> vmem_req \<Rightarrow> bool \<Rightarrow> 'w \<Rightarrow> vmem \<Rightarrow> 'w xturn vres" where
  "xalloc_turn env r reaped w v =
     vbind (ve_populate env 4 (rq_flag r) w v) (\<lambda>(ok, w, v).
       if \<not> ok then Inr (XFail w v)
       else let (res, n) = vmem_search v r (vmem_flist r v) 0;
                v = upd_kstat (\<lambda>k. k\<lparr>vk_search := vk_search k + word_of_nat n\<rparr>) v
            in vbind res (\<lambda>best. case best of
                 Some (p, addr) \<Rightarrow> Inr (XFound p addr w v)
               | None \<Rightarrow>
                   vbind (xalloc_import env r w v) (\<lambda>(imp, w, v). case imp of
                     Some (p, addr) \<Rightarrow> Inr (XFound p addr w v)
                   | None \<Rightarrow>
                       let (w, v) = (if reaped then (w, v) else ve_reap env w v)
                       in if rq_flag r AND VM_NOSLEEP \<noteq> 0 then Inr (XFail w v)
                          else let v = upd_kstat (\<lambda>k. k\<lparr>vk_wait := vk_wait k + 1\<rparr>) v;
                                   (w, v) = ve_wait env w v
                               in Inr (XRetry w v))))"

definition xalloc_take :: "vmem_req \<Rightarrow> segp \<Rightarrow> ulong \<Rightarrow> 'w \<Rightarrow> vmem \<Rightarrow> (ulong \<times> 'w \<times> vmem) vres" where
  "xalloc_take r p addr w v =
     vbind (vmem_freelist_delete p v) (\<lambda>v.
     vbind (vmem_seg_alloc p addr (addr + rq_size r) v) (\<lambda>v. Inr (addr, w, v)))"

definition xalloc_fail :: "vmem_req \<Rightarrow> 'w \<Rightarrow> vmem \<Rightarrow> (ulong \<times> 'w \<times> vmem) vres" where
  "xalloc_fail r w v =
     (let v = upd_kstat (\<lambda>k. k\<lparr>vk_fail := vk_fail k + 1\<rparr>) v
      in if rq_flag r AND VM_PANIC \<noteq> 0 then Inl VmMandatory else Inr (0, w, v))"

fun xalloc_loop :: "nat \<Rightarrow> 'w vm_env \<Rightarrow> vmem_req \<Rightarrow> bool \<Rightarrow> 'w \<Rightarrow> vmem \<Rightarrow> (ulong \<times> 'w \<times> vmem) vres option" where
  "xalloc_loop 0 env r reaped w v = None"
| "xalloc_loop (Suc fuel) env r reaped w v =
     (case xalloc_turn env r reaped w v of
        Inl e \<Rightarrow> Some (Inl e)
      | Inr (XFound p addr w v) \<Rightarrow> Some (xalloc_take r p addr w v)
      | Inr (XFail w v) \<Rightarrow> Some (xalloc_fail r w v)
      | Inr (XRetry w v) \<Rightarrow> xalloc_loop fuel env r True w v)"

definition xalloc_check :: "vmem_req \<Rightarrow> vmem \<Rightarrow> vmem_fault option" where
  "xalloc_check r v =
     (if rq_size r = 0 then Some VmZeroSize
      else if (rq_align r OR rq_phase r OR rq_nocross r) AND (vm_quantum v - 1) \<noteq> 0 then Some VmUnaligned
      else if rq_nocross r \<noteq> 0 \<and>
              (rq_align r > rq_nocross r \<or> P2ROUNDUP (rq_phase r + rq_size r) (rq_align r) > rq_nocross r)
           then Some VmOverconstrained
      else None)"

definition vmem_xalloc :: "nat \<Rightarrow> 'w vm_env \<Rightarrow> vmem_req \<Rightarrow> 'w \<Rightarrow> vmem \<Rightarrow> (ulong \<times> 'w \<times> vmem) vres option" where
  "vmem_xalloc fuel env r w v =
     (case xalloc_check r v of
        Some e \<Rightarrow> Some (Inl e)
      | None \<Rightarrow> xalloc_loop fuel env r False w v)"

subsection \<open>Unconstrained requests and quantum caches\<close>

definition plain_req :: "vmem \<Rightarrow> ulong \<Rightarrow> uint32 \<Rightarrow> vmem_req" where
  "plain_req v sz vmflag =
     \<lparr>rq_size = sz, rq_align = vm_quantum v, rq_phase = 0, rq_nocross = 0, rq_minaddr = 0, rq_maxaddr = 0, rq_flag = vmflag\<rparr>"

definition vmem_alloc :: "nat \<Rightarrow> 'w vm_env \<Rightarrow> ulong \<Rightarrow> uint32 \<Rightarrow> 'w \<Rightarrow> vmem \<Rightarrow> (ulong \<times> 'w \<times> vmem) vres option" where
  "vmem_alloc fuel env sz vmflag w v =
     (if sz - 1 \<ge> vm_qcache_max v then vmem_xalloc fuel env (plain_req v sz vmflag) w v
      else Some (ve_cache_alloc env (unat (drop_bit (vm_qshift v) (sz - 1))) (vmflag AND VM_KMFLAGS) w v))"

definition vmem_free :: "'w vm_env \<Rightarrow> ulong \<Rightarrow> ulong \<Rightarrow> 'w \<Rightarrow> vmem \<Rightarrow> ('w \<times> vmem) vres" where
  "vmem_free env vaddr sz w v =
     (if sz - 1 \<ge> vm_qcache_max v then vmem_xfree env vaddr sz w v
      else ve_cache_free env (unat (drop_bit (vm_qshift v) (sz - 1))) vaddr w v)"

subsection \<open>Spans of an arena\<close>

fun contains_loop :: "vmem \<Rightarrow> ulong \<Rightarrow> ulong \<Rightarrow> segp list \<Rightarrow> nat \<Rightarrow> bool \<times> nat" where
  "contains_loop v start end [] n = (False, n)"
| "contains_loop v start end (p # ps) n =
     (if start \<ge> vs_start (vm_seg v p) \<and> end - 1 \<le> vs_end (vm_seg v p) - 1 then (True, Suc n)
      else contains_loop v start end ps (Suc n))"

definition vmem_contains :: "ulong \<Rightarrow> ulong \<Rightarrow> vmem \<Rightarrow> bool \<times> vmem" where
  "vmem_contains vaddr sz v =
     (let (found, n) = contains_loop v vaddr (vaddr + sz) (vm_spans v) 0
      in (found, upd_kstat (\<lambda>k. k\<lparr>vk_contains := vk_contains k + 1,
                                  vk_contains_search := vk_contains_search k + word_of_nat n\<rparr>) v))"

definition vmem_add :: "'w vm_env \<Rightarrow> ulong \<Rightarrow> ulong \<Rightarrow> uint32 \<Rightarrow> 'w \<Rightarrow> vmem \<Rightarrow> (ulong \<times> 'w \<times> vmem) vres" where
  "vmem_add env vaddr sz vmflag w v =
     (if vaddr = 0 \<or> sz = 0 then Inl VmBadArguments
      else vbind (ve_populate env 2 vmflag w v) (\<lambda>(ok, w, v).
           if ok then vbind (vmem_span_create vaddr sz False v) (\<lambda>(_, v). Inr (vaddr, w, v))
           else Inr (0, w, v)))"

fun type_code :: "seg_type \<Rightarrow> uint32" where
  "type_code VMEM_ALLOC = 0x01"
| "type_code VMEM_FREE = 0x02"
| "type_code VMEM_SPAN = 0x10"

text \<open>The calls of \<open>func\<close> that \<open>vmem_walk()\<close> makes, in their order.\<close>

definition vmem_walk :: "uint32 \<Rightarrow> vmem \<Rightarrow> (ulong \<times> ulong) list" where
  "vmem_walk typemask v =
     map (\<lambda>p. (vs_start (vm_seg v p), VS_SIZE v p))
       (filter (\<lambda>p. type_code (vs_type (vm_seg v p)) AND typemask \<noteq> 0) (vm_arena v))"

definition vmem_size :: "uint32 \<Rightarrow> vmem \<Rightarrow> ulong" where
  "vmem_size typemask v =
     (let k = vm_kstat v;
          sz = (if typemask AND type_code VMEM_ALLOC \<noteq> 0 then vk_mem_inuse k else 0)
      in if typemask AND type_code VMEM_FREE \<noteq> 0 then sz + (vk_mem_total k - vk_mem_inuse k) else sz)"

subsection \<open>Creating and destroying an arena\<close>

definition VMEM_NQCACHE_MAX :: ulong where "VMEM_NQCACHE_MAX = 16"

definition kstat_zero :: vmem_kstat where
  "kstat_zero = \<lparr>vk_mem_inuse = 0, vk_mem_import = 0, vk_mem_total = 0, vk_alloc = 0, vk_free = 0, vk_wait = 0,
     vk_fail = 0, vk_lookup = 0, vk_search = 0, vk_populate_wait = 0, vk_populate_fail = 0,
     vk_contains = 0, vk_contains_search = 0\<rparr>"

definition seg_zero :: vmem_seg where
  "seg_zero = \<lparr>vs_start = 0, vs_end = 0, vs_type = VMEM_ALLOC, vs_import = False\<rparr>"

definition vmem_init_arena :: "ulong \<Rightarrow> ulong \<Rightarrow> vmem" where
  "vmem_init_arena quantum qcache_max =
     (let qshift = highbit quantum - 1; nqcache = min (drop_bit qshift qcache_max) VMEM_NQCACHE_MAX
      in \<lparr>vm_quantum = quantum, vm_qshift = qshift, vm_nsegfree = 0, vm_segfree = [], vm_seg = (\<lambda>_. seg_zero),
          vm_arena = [], vm_spans = [], vm_freelist = replicate (Suc VMEM_FREELISTS) [], vm_freemap = 0,
          vm_hash_table = replicate VMEM_HASH_INITIAL [], vm_hash_mask = word_of_nat VMEM_HASH_INITIAL - 1,
          vm_hash_shift = highbit (word_of_nat VMEM_HASH_INITIAL - 1), vm_kstat = kstat_zero,
          vm_qcache_max = push_bit qshift nqcache\<rparr>)"

function return_segs :: "vmem \<Rightarrow> vmem \<Rightarrow> (vmem \<times> vmem) vres" where
  "return_segs v smp =
     (if vm_nsegfree v > 0
      then case vmem_getseg v of
             Inl e \<Rightarrow> Inl e
           | Inr (p, v) \<Rightarrow> return_segs v (vmem_putseg p smp)
      else Inr (v, smp))"
  by pat_completeness auto
termination
  by (relation "measure (\<lambda>(v, smp). length (vm_segfree v))")
    (auto simp: vmem_getseg_def split: list.splits)

declare return_segs.simps [simp del]

text \<open>\<open>vmem_destroy()\<close>: the bytes it reports as leaked, and the arena of segment structures.\<close>

definition vmem_destroy :: "vmem \<Rightarrow> vmem \<Rightarrow> (ulong \<times> vmem) vres" where
  "vmem_destroy v smp =
     (let leaked = vmem_size (type_code VMEM_ALLOC) v
      in vbind (return_segs v smp) (\<lambda>(_, smp). Inr (leaked, smp)))"

text \<open>\<open>avail\<close> is the outcome of the allocation of the \<open>vmem_t\<close>.\<close>

definition vmem_create :: "'w vm_env \<Rightarrow> bool \<Rightarrow> ulong \<Rightarrow> ulong \<Rightarrow> ulong \<Rightarrow> ulong \<Rightarrow> uint32 \<Rightarrow> 'w \<Rightarrow> (vmem option \<times> 'w) vres" where
  "vmem_create env avail base sz quantum qcache_max vmflag w =
     (let v = vmem_init_arena quantum qcache_max
      in if \<not> avail then Inr (None, w)
         else if base \<noteq> 0 \<or> sz \<noteq> 0
         then vbind (vmem_add env base sz vmflag w v) (\<lambda>(a, w, v).
                if a = 0 then vbind (vmem_destroy v (ve_smp env w)) (\<lambda>(_, smp). Inr (None, ve_set_smp env smp w))
                else Inr (Some v, w))
         else Inr (Some v, w))"

subsection \<open>Rescaling the hash table\<close>

text \<open>\<open>1 << n\<close> is a shift of an \<open>int\<close>: it is undefined from 31 on.\<close>

definition hash_new_size :: "vmem \<Rightarrow> ulong option" where
  "hash_new_size v =
     (let nseg = vk_alloc (vm_kstat v) - vk_free (vm_kstat v); n = highbit (3 * nseg + 4) - 2
      in if n < 31 then Some (max (word_of_nat VMEM_HASH_INITIAL) (push_bit n 1)) else None)"

definition rehash_one :: "vmem \<Rightarrow> segp \<Rightarrow> segp list list \<Rightarrow> segp list list" where
  "rehash_one v p tab = (let h = VMEM_HASH_INDEX v (vs_start (vm_seg v p)) in tab[h := p # tab ! h])"

definition vmem_hash_rescale :: "bool \<Rightarrow> vmem \<Rightarrow> vmem option" where
  "vmem_hash_rescale avail v =
     (case hash_new_size v of
        None \<Rightarrow> None
      | Some new_size \<Rightarrow>
          let old_size = vm_hash_mask v + 1
          in if drop_bit 1 old_size \<le> new_size \<and> new_size \<le> push_bit 1 old_size then Some v
             else if \<not> avail then Some v
             else let old_table = vm_hash_table v;
                      v = v\<lparr>vm_hash_mask := new_size - 1, vm_hash_shift := highbit (new_size - 1)\<rparr>
                  in Some (v\<lparr>vm_hash_table := fold (rehash_one v) (concat old_table) (replicate (unat new_size) [])\<rparr>))"

text \<open>Each arena of \<open>vmem_list\<close> comes with the outcome of the allocation of its new table.\<close>

fun vmem_update :: "(bool \<times> vmem) list \<Rightarrow> vmem list option" where
  "vmem_update [] = Some []"
| "vmem_update ((avail, v) # vs) =
     (case vmem_hash_rescale avail v of
        None \<Rightarrow> None
      | Some v \<Rightarrow> map_option ((#) v) (vmem_update vs))"

subsection \<open>Populating the pool of segment structures\<close>

text \<open>
  The loop of \<open>vmem_populate()\<close>. \<open>newpage\<close> stands for the path that turns a page of the heap into
  segment structures; it fails when no page can be had.
\<close>

fun vmem_populate :: "nat \<Rightarrow> ('w \<Rightarrow> vmem) \<Rightarrow> (vmem \<Rightarrow> 'w \<Rightarrow> 'w) \<Rightarrow> (uint32 \<Rightarrow> 'w \<Rightarrow> 'w option) \<Rightarrow>
    nat \<Rightarrow> uint32 \<Rightarrow> 'w \<Rightarrow> vmem \<Rightarrow> (bool \<times> 'w \<times> vmem) vres option" where
  "vmem_populate 0 smp set_smp newpage n vmflag w v = None"
| "vmem_populate (Suc fuel) smp set_smp newpage n vmflag w v =
     (if vm_nsegfree v < int n then
        (if vm_nsegfree (smp w) > 0 then
           (case vmem_getseg (smp w) of
              Inl e \<Rightarrow> Some (Inl e)
            | Inr (p, s) \<Rightarrow> vmem_populate fuel smp set_smp newpage n vmflag (set_smp s w) (vmem_putseg p v))
         else (case newpage vmflag w of
                 None \<Rightarrow> Some (Inr (False, w, upd_kstat (\<lambda>k. k\<lparr>vk_populate_fail := vk_populate_fail k + 1\<rparr>) v))
               | Some w \<Rightarrow> vmem_populate fuel smp set_smp newpage n vmflag w v))
      else Some (Inr (True, w, v)))"

end
