(* ===== verification/Vmem_Links.thy ===== *)
theory Vmem_Links
  imports Vmem_Model
begin

section \<open>Vmem: freelists, hash table and segment pool\<close>

text \<open>
  The link structure of an arena and the operations on it: \<open>links v L\<close> says that the freelists, the
  freelist bitmap, the hash table and the counters describe exactly the segments on the arena list,
  but for a set \<open>L\<close> of segments that an operation has taken off and not yet put back.
\<close>

subsection \<open>Lists\<close>

lemma insert_after_split: "p \<notin> set xs \<Longrightarrow> insert_after (Some p) q (xs @ p # ys) = xs @ p # q # ys"
  by (induction xs) auto

lemma insert_after_last:
  assumes "distinct xs"
  shows "insert_after (last_opt xs) q xs = xs @ [q]"
proof (cases xs rule: rev_cases)
  case (snoc ys y)
  with assms show ?thesis by (simp add: last_opt_def insert_after_split)
qed (simp add: last_opt_def)

lemma next_in_split:
  "p \<notin> set xs \<Longrightarrow> next_in p (xs @ p # ys) = (case ys of [] \<Rightarrow> None | z # _ \<Rightarrow> Some z)"
  by (induction xs) auto

lemma prev_in_split: "p \<notin> set xs \<Longrightarrow> prev_in p (xs @ p # ys) = last_opt xs"
proof (induction xs)
  case Nil
  then show ?case by (cases ys) (auto simp: last_opt_def)
next
  case (Cons x xs)
  then show ?case by (cases xs) (auto simp: last_opt_def)
qed

lemma remove1_split: "p \<notin> set xs \<Longrightarrow> remove1 p (xs @ p # ys) = xs @ ys"
  by (simp add: remove1_append)

lemma find_list_Some: "find_list x xss = Some n \<Longrightarrow> n < length xss \<and> x \<in> set (xss ! n)"
  by (induction xss arbitrary: n) (auto split: if_splits)

lemma find_list_None: "find_list x xss = None \<longleftrightarrow> (\<forall>xs \<in> set xss. x \<notin> set xs)"
  by (induction xss) auto

lemma next_prev_alone:
  assumes "p \<in> set xs" "distinct xs"
  shows "next_in p xs = None \<and> prev_in p xs = None \<longleftrightarrow> xs = [p]"
proof -
  from assms(1) obtain as bs where xs: "xs = as @ p # bs" by (auto simp: in_set_conv_decomp)
  with assms(2) have "p \<notin> set as" by auto
  then show ?thesis
    by (auto simp: xs next_in_split prev_in_split last_opt_def split: list.splits)
qed

lemma next_in_mem: "next_in p xs = Some q \<Longrightarrow> q \<in> set xs"
  by (induction p xs rule: next_in.induct) (auto split: if_splits list.splits)

lemma prev_in_mem: "prev_in p xs = Some q \<Longrightarrow> q \<in> set xs"
  by (induction p xs rule: prev_in.induct) (auto split: if_splits)

subsection \<open>The link structure\<close>

abbreviation ty :: "vmem \<Rightarrow> segp \<Rightarrow> seg_type" where
  "ty v p \<equiv> vs_type (vm_seg v p)"

definition live :: "vmem \<Rightarrow> segp set \<Rightarrow> seg_type \<Rightarrow> segp set" where
  "live v L t = {p \<in> set (vm_arena v). p \<notin> L \<and> ty v p = t}"

definition pool_ok :: "vmem \<Rightarrow> bool" where
  "pool_ok v \<longleftrightarrow> distinct (vm_arena v @ vm_segfree v) \<and> (\<forall>p \<in> set (vm_arena v). vs_start (vm_seg v p) \<noteq> 0)"

definition flist_ok :: "vmem \<Rightarrow> segp set \<Rightarrow> bool" where
  "flist_ok v L \<longleftrightarrow> length (vm_freelist v) = 65 \<and>
     (\<forall>p \<in> live v L VMEM_FREE. VS_SIZE v p \<noteq> 0) \<and>
     (\<forall>n < 65. distinct (vm_freelist v ! n) \<and>
        set (vm_freelist v ! n) = {p \<in> live v L VMEM_FREE. highbit (VS_SIZE v p) = Suc n})"

definition freemap_ok :: "vmem \<Rightarrow> bool" where
  "freemap_ok v \<longleftrightarrow> (\<forall>n < 64. bit (vm_freemap v) n \<longleftrightarrow> vm_freelist v ! n \<noteq> [])"

definition hash_ok :: "vmem \<Rightarrow> segp set \<Rightarrow> bool" where
  "hash_ok v L \<longleftrightarrow> length (vm_hash_table v) = Suc (unat (vm_hash_mask v)) \<and>
     (\<forall>h < length (vm_hash_table v). distinct (vm_hash_table v ! h) \<and>
        set (vm_hash_table v ! h) =
          {p \<in> live v L VMEM_ALLOC. VMEM_HASH_INDEX v (vs_start (vm_seg v p)) = h})"

definition inuse_ok :: "vmem \<Rightarrow> segp set \<Rightarrow> bool" where
  "inuse_ok v L \<longleftrightarrow> vk_mem_inuse (vm_kstat v) = (\<Sum>p \<in> live v L VMEM_ALLOC. VS_SIZE v p) \<and>
     vk_alloc (vm_kstat v) - vk_free (vm_kstat v) = word_of_nat (card (live v L VMEM_ALLOC))"

definition links :: "vmem \<Rightarrow> segp set \<Rightarrow> bool" where
  "links v L \<longleftrightarrow> pool_ok v \<and> flist_ok v L \<and> freemap_ok v \<and> hash_ok v L \<and> inuse_ok v L"

lemma hash_index_bound:
  assumes "hash_ok v L"
  shows "VMEM_HASH_INDEX v a < length (vm_hash_table v)"
proof -
  have "unat (x AND vm_hash_mask v) \<le> unat (vm_hash_mask v)" for x :: ulong
    using word_and_le1 by (metis and.commute word_le_nat_alt)
  with assms show ?thesis by (simp add: hash_ok_def VMEM_HASH_INDEX_def less_Suc_eq_le)
qed

lemma finite_live [simp]: "finite (live v L t)"
  by (simp add: live_def)

lemma bit_flist_size: "n < 64 \<Longrightarrow> bit (flist_size n) m \<longleftrightarrow> m = n"
  by (auto simp: flist_size_def bit_simps)

subsection \<open>Inserting and deleting\<close>

abbreviation set_type :: "segp \<Rightarrow> seg_type \<Rightarrow> vmem \<Rightarrow> vmem" where
  "set_type p t v \<equiv> upd_seg p (vs_type_update (\<lambda>_. t)) v"

lemma live_set_type:
  assumes "p \<in> set (vm_arena v)" "p \<in> L"
  shows "live (set_type p t v) (L - {p}) t' = (if t = t' then insert p (live v L t') else live v L t')"
  using assms by (auto simp: live_def)

lemma live_take: "live v (insert p L) t = live v L t - {p}"
  by (auto simp: live_def)

lemma VS_SIZE_set_type [simp]: "VS_SIZE (set_type p t v) q = VS_SIZE v q"
  by (simp add: VS_SIZE_def seg_size_def)

lemma not_live_L: "p \<in> L \<Longrightarrow> p \<notin> live v L t"
  by (simp add: live_def)

text \<open>The predicates read the fields of the arena that the operation at hand leaves alone.\<close>

lemma live_frame [simp]:
  "live (v\<lparr>vm_freemap := fm\<rparr>) L t = live v L t"
  "live (v\<lparr>vm_freelist := fl\<rparr>) L t = live v L t"
  "live (v\<lparr>vm_hash_table := ht\<rparr>) L t = live v L t"
  "live (v\<lparr>vm_kstat := ks\<rparr>) L t = live v L t"
  "live (v\<lparr>vm_spans := sp\<rparr>) L t = live v L t"
  "live (v\<lparr>vm_segfree := sf\<rparr>) L t = live v L t"
  "live (v\<lparr>vm_nsegfree := n\<rparr>) L t = live v L t"
  by (simp_all add: live_def)

lemma VS_SIZE_frame [simp]:
  "VS_SIZE (v\<lparr>vm_freemap := fm\<rparr>) p = VS_SIZE v p"
  "VS_SIZE (v\<lparr>vm_freelist := fl\<rparr>) p = VS_SIZE v p"
  "VS_SIZE (v\<lparr>vm_hash_table := ht\<rparr>) p = VS_SIZE v p"
  "VS_SIZE (v\<lparr>vm_kstat := ks\<rparr>) p = VS_SIZE v p"
  "VS_SIZE (v\<lparr>vm_spans := sp\<rparr>) p = VS_SIZE v p"
  "VS_SIZE (v\<lparr>vm_segfree := sf\<rparr>) p = VS_SIZE v p"
  "VS_SIZE (v\<lparr>vm_nsegfree := n\<rparr>) p = VS_SIZE v p"
  "VS_SIZE (v\<lparr>vm_arena := ar\<rparr>) p = VS_SIZE v p"
  by (simp_all add: VS_SIZE_def)

lemma HASH_frame [simp]:
  "VMEM_HASH_INDEX (v\<lparr>vm_freemap := fm\<rparr>) a = VMEM_HASH_INDEX v a"
  "VMEM_HASH_INDEX (v\<lparr>vm_freelist := fl\<rparr>) a = VMEM_HASH_INDEX v a"
  "VMEM_HASH_INDEX (v\<lparr>vm_hash_table := ht\<rparr>) a = VMEM_HASH_INDEX v a"
  "VMEM_HASH_INDEX (v\<lparr>vm_kstat := ks\<rparr>) a = VMEM_HASH_INDEX v a"
  "VMEM_HASH_INDEX (v\<lparr>vm_spans := sp\<rparr>) a = VMEM_HASH_INDEX v a"
  "VMEM_HASH_INDEX (v\<lparr>vm_segfree := sf\<rparr>) a = VMEM_HASH_INDEX v a"
  "VMEM_HASH_INDEX (v\<lparr>vm_nsegfree := n\<rparr>) a = VMEM_HASH_INDEX v a"
  "VMEM_HASH_INDEX (v\<lparr>vm_arena := ar\<rparr>) a = VMEM_HASH_INDEX v a"
  "VMEM_HASH_INDEX (v\<lparr>vm_seg := sg\<rparr>) a = VMEM_HASH_INDEX v a"
  by (simp_all add: VMEM_HASH_INDEX_def)

subsection \<open>Inserting and deleting\<close>

lemma flist_ok_insert:
  assumes fl: "flist_ok v L" and p: "p \<in> set (vm_arena v)" "p \<in> L" and sz: "VS_SIZE v p \<noteq> 0"
    and n: "n = highbit (VS_SIZE v p) - 1"
  shows "flist_ok ((set_type p VMEM_FREE v)\<lparr>vm_freemap := fm, vm_freelist := (vm_freelist v)[n := p # vm_freelist v ! n]\<rparr>) (L - {p})"
proof -
  have h: "highbit (VS_SIZE v p) = Suc n" "n < 64" using highbit_bounds(1,2) [OF sz] n by auto
  show ?thesis
    using fl h sz not_live_L [OF p(2), of v VMEM_FREE] unfolding flist_ok_def
    by (auto simp: live_set_type [OF p] nth_list_update)
qed

lemma freemap_ok_insert:
  assumes "freemap_ok v" "n < 64" "length (vm_freelist v) = 65"
  shows "freemap_ok (v\<lparr>vm_seg := sg, vm_freemap := vm_freemap v OR flist_size n, vm_freelist := (vm_freelist v)[n := p # vm_freelist v ! n]\<rparr>)"
  using assms by (auto simp: freemap_ok_def bit_or_iff bit_flist_size nth_list_update)

lemma hash_ok_free:
  assumes "hash_ok v L" and p: "p \<in> set (vm_arena v)" "p \<in> L"
  shows "hash_ok ((set_type p VMEM_FREE v)\<lparr>vm_freemap := fm, vm_freelist := fl\<rparr>) (L - {p})"
  using assms(1) not_live_L [OF p(2), of v VMEM_ALLOC]
  by (auto simp: hash_ok_def live_set_type [OF p])

lemma inuse_ok_free:
  assumes "inuse_ok v L" and p: "p \<in> set (vm_arena v)" "p \<in> L"
  shows "inuse_ok ((set_type p VMEM_FREE v)\<lparr>vm_freemap := fm, vm_freelist := fl\<rparr>) (L - {p})"
  using assms(1) by (simp add: inuse_ok_def live_set_type [OF p])

lemma vmem_freelist_insert_ok:
  assumes "links v L" and p: "p \<in> set (vm_arena v)" "p \<in> L" and sz: "VS_SIZE v p \<noteq> 0"
  obtains fm fl where
    "vmem_freelist_insert p v = Inr ((set_type p VMEM_FREE v)\<lparr>vm_freemap := fm, vm_freelist := fl\<rparr>)"
    "links ((set_type p VMEM_FREE v)\<lparr>vm_freemap := fm, vm_freelist := fl\<rparr>) (L - {p})"
proof
  let ?n = "highbit (VS_SIZE v p) - 1"
  let ?fm = "vm_freemap v OR flist_size ?n" and ?fl = "(vm_freelist v)[?n := p # vm_freelist v ! ?n]"
  show "vmem_freelist_insert p v = Inr ((set_type p VMEM_FREE v)\<lparr>vm_freemap := ?fm, vm_freelist := ?fl\<rparr>)"
    using sz by (simp add: vmem_freelist_insert_def Let_def)
  have "?n < 64" using highbit_bounds(1,2) [OF sz] by linarith
  moreover have "length (vm_freelist v) = 65" using assms(1) by (simp add: links_def flist_ok_def)
  moreover have "pool_ok ((set_type p VMEM_FREE v)\<lparr>vm_freemap := ?fm, vm_freelist := ?fl\<rparr>)"
    using assms(1) by (simp add: links_def pool_ok_def)
  ultimately show "links ((set_type p VMEM_FREE v)\<lparr>vm_freemap := ?fm, vm_freelist := ?fl\<rparr>) (L - {p})"
    using assms unfolding links_def
    by (intro conjI flist_ok_insert freemap_ok_insert hash_ok_free inuse_ok_free) simp_all
qed

lemma find_flist:
  assumes "flist_ok v L" "p \<in> live v L VMEM_FREE"
  obtains n where "find_list p (vm_freelist v) = Some n" "n < 64" "highbit (VS_SIZE v p) = Suc n"
    "p \<in> set (vm_freelist v ! n)"
proof -
  let ?n = "highbit (VS_SIZE v p) - 1"
  have "VS_SIZE v p \<noteq> 0" using assms by (auto simp: flist_ok_def)
  note b = highbit_bounds(1,2) [OF this]
  then have n: "?n < 64" "highbit (VS_SIZE v p) = Suc ?n" by linarith+
  with assms have mem: "p \<in> set (vm_freelist v ! ?n)" by (simp add: flist_ok_def)
  have len: "length (vm_freelist v) = 65" using assms by (simp add: flist_ok_def)
  from mem n len obtain m where m: "find_list p (vm_freelist v) = Some m"
    by (cases "find_list p (vm_freelist v)") (auto simp: find_list_None dest: nth_mem)
  from find_list_Some [OF m] assms(1) have "highbit (VS_SIZE v p) = Suc m" by (auto simp: flist_ok_def)
  with n m mem that show thesis by simp
qed

lemma flist_ok_delete:
  assumes fl: "flist_ok v L" and n: "n < 64" "highbit (VS_SIZE v p) = Suc n"
  shows "flist_ok (v\<lparr>vm_freemap := fm, vm_freelist := (vm_freelist v)[n := remove1 p (vm_freelist v ! n)]\<rparr>) (insert p L)"
  using fl n unfolding flist_ok_def by (auto simp: live_take nth_list_update)

lemma freemap_ok_delete:
  assumes "freemap_ok v" "n < 64" "length (vm_freelist v) = 65" "p \<in> set (vm_freelist v ! n)"
    "distinct (vm_freelist v ! n)"
    and fm: "fm = (if vm_freelist v ! n = [p] then vm_freemap v XOR flist_size n else vm_freemap v)"
  shows "freemap_ok (v\<lparr>vm_freemap := fm, vm_freelist := (vm_freelist v)[n := remove1 p (vm_freelist v ! n)]\<rparr>)"
proof -
  have "remove1 p (vm_freelist v ! n) = [] \<longleftrightarrow> vm_freelist v ! n = [p]"
    using assms(4) by (cases "vm_freelist v ! n") auto
  with assms show ?thesis
    by (auto simp: freemap_ok_def bit_xor_iff bit_flist_size nth_list_update)
qed

lemma links_take:
  assumes "inuse_ok v L" "p \<notin> live v L VMEM_ALLOC"
  shows "inuse_ok v (insert p L)"
  using assms by (simp add: inuse_ok_def live_take)

lemma vmem_freelist_delete_ok:
  assumes "links v L" and p: "p \<in> live v L VMEM_FREE"
  obtains fm fl where "vmem_freelist_delete p v = Inr (v\<lparr>vm_freemap := fm, vm_freelist := fl\<rparr>)"
    "links (v\<lparr>vm_freemap := fm, vm_freelist := fl\<rparr>) (insert p L)"
proof -
  have ok: "pool_ok v" "flist_ok v L" "freemap_ok v" "hash_ok v L" "inuse_ok v L"
    using assms(1) by (auto simp: links_def)
  from find_flist [OF ok(2) p] obtain n where n: "find_list p (vm_freelist v) = Some n" "n < 64"
    "highbit (VS_SIZE v p) = Suc n" "p \<in> set (vm_freelist v ! n)" .
  let ?l = "vm_freelist v ! n"
  have l: "distinct ?l" "length (vm_freelist v) = 65" "\<And>q. q \<in> set ?l \<Longrightarrow> vs_start (vm_seg v q) \<noteq> 0"
    using ok(1,2) n(2) by (auto simp: flist_ok_def pool_ok_def live_def)
  define fm where "fm = (if ?l = [p] then vm_freemap v XOR flist_size n else vm_freemap v)"
  define fl where "fl = (vm_freelist v)[n := remove1 p ?l]"
  have "vmem_freelist_delete p v = Inr (v\<lparr>vm_freemap := fm, vm_freelist := fl\<rparr>)"
    using l(3) next_in_mem [of p ?l] prev_in_mem [of p ?l] next_prev_alone [OF n(4) l(1)]
    by (auto simp: vmem_freelist_delete_def n(1) fm_def fl_def Let_def split: option.splits)
  moreover have "links (v\<lparr>vm_freemap := fm, vm_freelist := fl\<rparr>) (insert p L)"
  proof -
    have "flist_ok (v\<lparr>vm_freemap := fm, vm_freelist := fl\<rparr>) (insert p L)"
      unfolding fl_def by (rule flist_ok_delete [OF ok(2) n(2,3)])
    moreover have "freemap_ok (v\<lparr>vm_freemap := fm, vm_freelist := fl\<rparr>)"
      unfolding fl_def by (rule freemap_ok_delete [OF ok(3) n(2) l(2) n(4) l(1)]) (simp add: fm_def)
    moreover have "p \<notin> live v L VMEM_ALLOC" using p by (auto simp: live_def)
    then have "hash_ok (v\<lparr>vm_freemap := fm, vm_freelist := fl\<rparr>) (insert p L)"
      "inuse_ok (v\<lparr>vm_freemap := fm, vm_freelist := fl\<rparr>) (insert p L)"
      using ok(4,5) by (auto simp: hash_ok_def inuse_ok_def live_take)
    ultimately show ?thesis using ok(1) by (simp add: links_def pool_ok_def)
  qed
  ultimately show thesis by (rule that)
qed

abbreviation same_totals :: "vmem_kstat \<Rightarrow> vmem_kstat \<Rightarrow> bool" where
  "same_totals k k' \<equiv> vk_mem_total k' = vk_mem_total k \<and> vk_mem_import k' = vk_mem_import k"

lemma hash_ok_insert:
  assumes hok: "hash_ok v L" and p: "p \<in> set (vm_arena v)" "p \<in> L"
    and h: "h = VMEM_HASH_INDEX v (vs_start (vm_seg v p))"
  shows "hash_ok ((set_type p VMEM_ALLOC v)\<lparr>vm_hash_table := (vm_hash_table v)[h := p # vm_hash_table v ! h], vm_kstat := ks\<rparr>) (L - {p})"
  using hok hash_index_bound [OF hok, of "vs_start (vm_seg v p)"] not_live_L [OF p(2), of v VMEM_ALLOC] unfolding hash_ok_def h
  by (auto simp: live_set_type [OF p] nth_list_update)

lemma flist_ok_alloc:
  assumes "flist_ok v L" and p: "p \<in> set (vm_arena v)" "p \<in> L"
  shows "flist_ok ((set_type p VMEM_ALLOC v)\<lparr>vm_hash_table := ht, vm_kstat := ks\<rparr>) (L - {p})"
  using assms(1) by (simp add: flist_ok_def live_set_type [OF p])

lemma vmem_hash_insert_ok:
  assumes "links v L" and p: "p \<in> set (vm_arena v)" "p \<in> L"
  obtains ht ks where "vmem_hash_insert p v = (set_type p VMEM_ALLOC v)\<lparr>vm_hash_table := ht, vm_kstat := ks\<rparr>"
    "links ((set_type p VMEM_ALLOC v)\<lparr>vm_hash_table := ht, vm_kstat := ks\<rparr>) (L - {p})" "same_totals (vm_kstat v) ks"
proof -
  have ok: "pool_ok v" "flist_ok v L" "freemap_ok v" "hash_ok v L" "inuse_ok v L"
    using assms(1) by (auto simp: links_def)
  define h where "h = VMEM_HASH_INDEX v (vs_start (vm_seg v p))"
  define ht where "ht = (vm_hash_table v)[h := p # vm_hash_table v ! h]"
  define ks where "ks = (vm_kstat v)\<lparr>vk_alloc := vk_alloc (vm_kstat v) + 1, vk_mem_inuse := vk_mem_inuse (vm_kstat v) + VS_SIZE v p\<rparr>"
  have "vmem_hash_insert p v = (set_type p VMEM_ALLOC v)\<lparr>vm_hash_table := ht, vm_kstat := ks\<rparr>"
    by (simp add: vmem_hash_insert_def Let_def ht_def ks_def h_def)
  moreover have "inuse_ok ((set_type p VMEM_ALLOC v)\<lparr>vm_hash_table := ht, vm_kstat := ks\<rparr>) (L - {p})"
    using ok(5) not_live_L [OF p(2), of v VMEM_ALLOC]
    by (simp add: inuse_ok_def live_set_type [OF p] ks_def algebra_simps)
  then have "links ((set_type p VMEM_ALLOC v)\<lparr>vm_hash_table := ht, vm_kstat := ks\<rparr>) (L - {p})"
    using hash_ok_insert [OF ok(4) p h_def] flist_ok_alloc [OF ok(2) p] ok(1,3)
    by (simp add: links_def ht_def pool_ok_def freemap_ok_def)
  moreover have "same_totals (vm_kstat v) ks" by (simp add: ks_def)
  ultimately show thesis by (rule that)
qed

lemma hash_chain_find_eq: "fst (hash_chain_find v a b) = List.find (\<lambda>p. vs_start (vm_seg v p) = a) b"
  by (induction b) (auto split: prod.splits)

lemma find_unique:
  assumes "p \<in> set b" "P p" "\<And>q. q \<in> set b \<Longrightarrow> P q \<Longrightarrow> q = p"
  shows "List.find P b = Some p"
proof (cases "List.find P b")
  case None
  with assms(1,2) show ?thesis by (auto simp: find_None_iff)
next
  case (Some q)
  then have "q \<in> set b" "P q" by (auto simp: find_Some_iff)
  with assms(3) Some show ?thesis by blast
qed

lemma hash_ok_delete:
  assumes hok: "hash_ok v L" and h: "h = VMEM_HASH_INDEX v (vs_start (vm_seg v p))"
  shows "hash_ok (v\<lparr>vm_hash_table := (vm_hash_table v)[h := remove1 p (vm_hash_table v ! h)], vm_kstat := ks\<rparr>) (insert p L)"
  using hok hash_index_bound [OF hok, of "vs_start (vm_seg v p)"] unfolding hash_ok_def h
  by (auto simp: live_take nth_list_update)

lemma hash_bucket_mem:
  assumes "hash_ok v L"
  shows "q \<in> set (vm_hash_table v ! VMEM_HASH_INDEX v a) \<longleftrightarrow>
     q \<in> live v L VMEM_ALLOC \<and> VMEM_HASH_INDEX v (vs_start (vm_seg v q)) = VMEM_HASH_INDEX v a"
  using assms hash_index_bound [OF assms, of a] by (simp add: hash_ok_def)

lemma vmem_hash_delete_ok:
  assumes "links v L" and p: "p \<in> live v L VMEM_ALLOC" "vs_start (vm_seg v p) = addr" "VS_SIZE v p = sz"
    and uniq: "\<And>q. q \<in> live v L VMEM_ALLOC \<Longrightarrow> vs_start (vm_seg v q) = addr \<Longrightarrow> q = p"
  obtains ht ks where "vmem_hash_delete addr sz v = Inr (p, v\<lparr>vm_hash_table := ht, vm_kstat := ks\<rparr>)"
    "links (v\<lparr>vm_hash_table := ht, vm_kstat := ks\<rparr>) (insert p L)" "same_totals (vm_kstat v) ks"
proof -
  have ok: "pool_ok v" "flist_ok v L" "freemap_ok v" "hash_ok v L" "inuse_ok v L"
    using assms(1) by (auto simp: links_def)
  let ?h = "VMEM_HASH_INDEX v addr" and ?k = "vm_kstat v"
  have "List.find (\<lambda>q. vs_start (vm_seg v q) = addr) (vm_hash_table v ! ?h) = Some p"
  proof (rule find_unique)
    show "p \<in> set (vm_hash_table v ! ?h)" using hash_bucket_mem [OF ok(4)] p(1,2) by simp
    show "q = p" if "q \<in> set (vm_hash_table v ! ?h)" "vs_start (vm_seg v q) = addr" for q
      using that hash_bucket_mem [OF ok(4)] uniq by blast
  qed (rule p(2))
  then obtain n where n: "hash_chain_find v addr (vm_hash_table v ! ?h) = (Some p, n)"
    by (metis hash_chain_find_eq prod.collapse)
  define ht where "ht = (vm_hash_table v)[?h := remove1 p (vm_hash_table v ! ?h)]"
  define ks where "ks = ?k\<lparr>vk_lookup := vk_lookup ?k + word_of_nat n, vk_free := vk_free ?k + 1,
     vk_mem_inuse := vk_mem_inuse ?k - sz\<rparr>"
  have "vmem_hash_delete addr sz v = Inr (p, v\<lparr>vm_hash_table := ht, vm_kstat := ks\<rparr>)"
    by (simp add: vmem_hash_delete_def n Let_def ht_def ks_def p(3))
  moreover have "inuse_ok (v\<lparr>vm_hash_table := ht, vm_kstat := ks\<rparr>) (insert p L)"
  proof -
    let ?A = "live v L VMEM_ALLOC"
    have "card ?A > 0" using p(1) by (auto simp: card_gt_0_iff)
    then have c: "of_nat (card ?A - 1) = (of_nat (card ?A) :: ulong) - 1" by (simp add: of_nat_diff)
    have "sum (VS_SIZE v) ?A = sz + sum (VS_SIZE v) (?A - {p})"
      using sum.remove [OF finite_live p(1), of "VS_SIZE v"] p(3) by simp
    then show ?thesis
      using ok(5) p(1) c by (simp add: inuse_ok_def live_take ks_def)
  qed
  moreover have "flist_ok (v\<lparr>vm_hash_table := ht, vm_kstat := ks\<rparr>) (insert p L)"
  proof -
    have "p \<notin> live v L VMEM_FREE" using p(1) by (auto simp: live_def)
    with ok(2) show ?thesis by (simp add: flist_ok_def live_take)
  qed
  moreover have "hash_ok (v\<lparr>vm_hash_table := ht, vm_kstat := ks\<rparr>) (insert p L)"
    unfolding ht_def by (rule hash_ok_delete [OF ok(4)]) (simp add: p(2))
  moreover have "pool_ok (v\<lparr>vm_hash_table := ht, vm_kstat := ks\<rparr>)" "freemap_ok (v\<lparr>vm_hash_table := ht, vm_kstat := ks\<rparr>)"
    using ok(1,3) by (simp_all add: pool_ok_def freemap_ok_def)
  moreover have "same_totals (vm_kstat v) ks" by (simp add: ks_def)
  ultimately show thesis by (intro that) (simp_all add: links_def)
qed

text \<open>A free of an address that starts no allocated segment, or of the wrong size, panics.\<close>

lemma vmem_hash_delete_fault:
  assumes "hash_ok v L"
  shows "(\<And>q. q \<in> live v L VMEM_ALLOC \<Longrightarrow> vs_start (vm_seg v q) \<noteq> addr) \<Longrightarrow> vmem_hash_delete addr sz v = Inl VmBadFree"
    and "vmem_hash_delete addr sz v = Inl e \<Longrightarrow> e = VmBadFree \<or> e = VmWrongSize"
    and "vmem_hash_delete addr sz v = Inr (p, v') \<Longrightarrow> p \<in> live v L VMEM_ALLOC \<and> vs_start (vm_seg v p) = addr \<and> VS_SIZE v p = sz"
proof -
  let ?b = "vm_hash_table v ! VMEM_HASH_INDEX v addr"
  obtain r n where rn: "hash_chain_find v addr ?b = (r, n)" by (cases "hash_chain_find v addr ?b")
  then have r: "r = List.find (\<lambda>p. vs_start (vm_seg v p) = addr) ?b" by (metis fst_conv hash_chain_find_eq)
  show "vmem_hash_delete addr sz v = Inl VmBadFree"
    if "\<And>q. q \<in> live v L VMEM_ALLOC \<Longrightarrow> vs_start (vm_seg v q) \<noteq> addr"
  proof -
    have "r = None" unfolding r find_None_iff using that hash_bucket_mem [OF assms] by blast
    then show ?thesis by (simp add: vmem_hash_delete_def rn Let_def)
  qed
  show "vmem_hash_delete addr sz v = Inl e \<Longrightarrow> e = VmBadFree \<or> e = VmWrongSize"
    by (auto simp: vmem_hash_delete_def rn Let_def split: option.splits if_splits)
  show "p \<in> live v L VMEM_ALLOC \<and> vs_start (vm_seg v p) = addr \<and> VS_SIZE v p = sz"
    if del: "vmem_hash_delete addr sz v = Inr (p, v')"
  proof -
    from del have "r = Some p" "VS_SIZE v p = sz"
      by (auto simp: vmem_hash_delete_def rn Let_def split: option.splits if_splits)
    then have "List.find (\<lambda>p. vs_start (vm_seg v p) = addr) ?b = Some p" using r by simp
    then have "p \<in> set ?b" "vs_start (vm_seg v p) = addr" by (auto simp: find_Some_iff)
    with \<open>VS_SIZE v p = sz\<close> show ?thesis
      using hash_bucket_mem [OF assms, of p addr] by blast
  qed
qed

subsection \<open>Segment structures entering and leaving the arena\<close>

lemma links_limbo:
  assumes "p \<in> L" "vs_start (f (vm_seg v p)) = vs_start (vm_seg v p)"
  shows "links (upd_seg p f v) L \<longleftrightarrow> links v L"
proof -
  have l: "live (upd_seg p f v) L t = live v L t" for t using assms(1) by (auto simp: live_def)
  have s: "VS_SIZE (upd_seg p f v) q = VS_SIZE v q" if "q \<in> live v L t" for q t
    using that assms(1) by (auto simp: live_def VS_SIZE_def)
  have "pool_ok (upd_seg p f v) \<longleftrightarrow> pool_ok v" using assms(2) by (auto simp: pool_ok_def)
  moreover have "flist_ok (upd_seg p f v) L \<longleftrightarrow> flist_ok v L"
  proof -
    have "{q \<in> live v L VMEM_FREE. highbit (VS_SIZE (upd_seg p f v) q) = Suc n} =
      {q \<in> live v L VMEM_FREE. highbit (VS_SIZE v q) = Suc n}" for n using s by auto
    then show ?thesis using s by (auto simp: flist_ok_def l)
  qed
  moreover have "hash_ok (upd_seg p f v) L \<longleftrightarrow> hash_ok v L"
  proof -
    have "vs_start (vm_seg (upd_seg p f v) q) = vs_start (vm_seg v q)" for q using assms(2) by auto
    then show ?thesis unfolding hash_ok_def l by simp
  qed
  moreover have "inuse_ok (upd_seg p f v) L \<longleftrightarrow> inuse_ok v L"
  proof -
    have "(\<Sum>q \<in> live v L VMEM_ALLOC. VS_SIZE (upd_seg p f v) q) = (\<Sum>q \<in> live v L VMEM_ALLOC. VS_SIZE v q)"
      by (rule sum.cong) (auto dest: s)
    then show ?thesis by (simp add: inuse_ok_def l)
  qed
  ultimately show ?thesis by (simp add: links_def freemap_ok_def)
qed

lemma links_set_end: "links v L \<Longrightarrow> p \<in> L \<Longrightarrow> links (upd_seg p (vs_end_update f) v) L"
  by (simp add: links_limbo)

lemma links_frame [simp]:
  "links (v\<lparr>vm_spans := sp\<rparr>) L = links v L"
  "links (v\<lparr>vm_nsegfree := n\<rparr>) L = links v L"
  by (simp_all add: links_def pool_ok_def flist_ok_def freemap_ok_def hash_ok_def inuse_ok_def)

lemma links_frame_kstat:
  assumes "vk_mem_inuse ks = vk_mem_inuse (vm_kstat v)" "vk_alloc ks = vk_alloc (vm_kstat v)"
    "vk_free ks = vk_free (vm_kstat v)"
  shows "links (v\<lparr>vm_kstat := ks\<rparr>) L = links v L"
  using assms by (simp add: links_def pool_ok_def flist_ok_def freemap_ok_def hash_ok_def inuse_ok_def)

lemma links_cong_live:
  assumes "pool_ok v'" "vm_freelist v' = vm_freelist v" "vm_freemap v' = vm_freemap v"
    "vm_hash_table v' = vm_hash_table v" "vm_hash_mask v' = vm_hash_mask v" "vm_hash_shift v' = vm_hash_shift v"
    "vm_qshift v' = vm_qshift v" "vm_kstat v' = vm_kstat v"
    "\<And>t. live v' L' t = live v L t" "\<And>q t. q \<in> live v L t \<Longrightarrow> vm_seg v' q = vm_seg v q" "links v L"
  shows "links v' L'"
proof -
  have h: "VMEM_HASH_INDEX v' = VMEM_HASH_INDEX v" using assms(5-7) by (auto simp: VMEM_HASH_INDEX_def fun_eq_iff)
  have s: "VS_SIZE v' q = VS_SIZE v q" if "q \<in> live v L t" for q t using assms(10) [OF that] by (simp add: VS_SIZE_def)
  have "{q \<in> live v L VMEM_FREE. highbit (VS_SIZE v' q) = Suc n} =
      {q \<in> live v L VMEM_FREE. highbit (VS_SIZE v q) = Suc n}" for n using s by auto
  moreover have "{q \<in> live v L VMEM_ALLOC. VMEM_HASH_INDEX v (vs_start (vm_seg v' q)) = n} =
      {q \<in> live v L VMEM_ALLOC. VMEM_HASH_INDEX v (vs_start (vm_seg v q)) = n}" for n using assms(10) by auto
  moreover have "(\<Sum>q \<in> live v L VMEM_ALLOC. VS_SIZE v' q) = (\<Sum>q \<in> live v L VMEM_ALLOC. VS_SIZE v q)"
    by (rule sum.cong) (auto dest: s)
  ultimately show ?thesis
    using assms(1-4,5,8,11) s unfolding links_def flist_ok_def freemap_ok_def hash_ok_def inuse_ok_def assms(9) h
    by simp
qed

lemma links_add:
  assumes "links v L" "vm_segfree v = q # qs" "set ar = insert q (set (vm_arena v))" "distinct ar" "vs_start s \<noteq> 0"
  shows "links (v\<lparr>vm_segfree := qs, vm_nsegfree := n, vm_seg := (vm_seg v)(q := s), vm_arena := ar\<rparr>) (insert q L)"
proof (rule links_cong_live [OF _ _ _ _ _ _ _ _ _ _ assms(1)])
  have q: "q \<notin> set (vm_arena v)" and po: "pool_ok v" using assms(1,2) by (auto simp: links_def pool_ok_def)
  then show "pool_ok (v\<lparr>vm_segfree := qs, vm_nsegfree := n, vm_seg := (vm_seg v)(q := s), vm_arena := ar\<rparr>)"
    using assms(2-5) by (auto simp: pool_ok_def)
  show "live (v\<lparr>vm_segfree := qs, vm_nsegfree := n, vm_seg := (vm_seg v)(q := s), vm_arena := ar\<rparr>) (insert q L) t = live v L t" for t
    using q assms(3) by (auto simp: live_def)
  show "p \<in> live v L t \<Longrightarrow> vm_seg (v\<lparr>vm_segfree := qs, vm_nsegfree := n, vm_seg := (vm_seg v)(q := s), vm_arena := ar\<rparr>) p = vm_seg v p" for p t
    using q by (auto simp: live_def)
qed simp_all

lemma links_remove:
  assumes "links v L" "p \<in> L" "p \<in> set (vm_arena v)"
  shows "links (vmem_seg_destroy p v) (L - {p})"
proof (rule links_cong_live [OF _ _ _ _ _ _ _ _ _ _ assms(1)])
  have po: "pool_ok v" using assms(1) by (auto simp: links_def)
  then show "pool_ok (vmem_seg_destroy p v)"
    using assms(3) by (auto simp: pool_ok_def vmem_seg_destroy_def vmem_putseg_def)
  show "live (vmem_seg_destroy p v) (L - {p}) t = live v L t" for t
    using po assms(2,3) by (auto simp: live_def pool_ok_def vmem_seg_destroy_def vmem_putseg_def)
qed (simp_all add: vmem_seg_destroy_def vmem_putseg_def)

end
