(* ===== verification/Vmem_Tiling.thy ===== *)
theory Vmem_Tiling
  imports Vmem_Links
begin

section \<open>Vmem: spans tiled by segments\<close>

text \<open>
  The address space of an arena: the segments between two span markers follow one another without
  gap or overlap, free segments are maximal and end on a quantum boundary. The property is the
  run of a small automaton over the arena list, so that an operation that replaces some
  neighbouring segments is checked locally.
\<close>

subsection \<open>Address ranges\<close>

text \<open>
  A range that ends at the top of the address space has \<open>vs_end = 0\<close>; the code compares \<open>end - 1\<close>
  for that reason, and so does the reading of a segment as a range of natural numbers.
\<close>

definition hi_of :: "ulong \<Rightarrow> nat" where
  "hi_of e = Suc (unat (e - 1))"

abbreviation lo :: "vmem_seg \<Rightarrow> nat" where "lo s \<equiv> unat (vs_start s)"
abbreviation hi :: "vmem_seg \<Rightarrow> nat" where "hi s \<equiv> hi_of (vs_end s)"

definition rup :: "nat \<Rightarrow> nat \<Rightarrow> nat" where
  "rup q n = (n + q - 1) div q * q"

lemma unat_lt_64: "unat (x :: ulong) < 2 ^ 64"
  using unsigned_less [of x] by simp

lemma unat_uminus:
  assumes "(e :: ulong) \<noteq> 0"
  shows "unat (- e) = 2 ^ 64 - unat e"
proof -
  have "(unat e + unat (- e)) mod 2 ^ 64 = 0"
    using unat_word_ariths(1) [of e "- e"] by simp
  then have "2 ^ 64 dvd unat e + unat (- e)" by (simp only: dvd_eq_mod_eq_0)
  then obtain j where j: "unat e + unat (- e) = 2 ^ 64 * j" by (rule dvdE)
  have "0 < unat e" using assms by (simp add: unat_gt_0)
  moreover have "j < 2" using j unat_lt_64 [of e] unat_lt_64 [of "- e"] by simp
  ultimately have "j = 1" using j by (cases "j = 0") auto
  with j show ?thesis by simp
qed

lemma hi_of_alt: "hi_of e = (if e = 0 then 2 ^ 64 else unat e)"
proof (cases "e = 0")
  case False
  then have "0 < unat e" by (simp add: unat_gt_0)
  with False show ?thesis by (simp add: hi_of_def unat_minus_one)
qed (simp add: hi_of_def unsigned_minus_1_eq_mask mask_eq_exp_minus_1)

lemma hi_of_le: "hi_of e \<le> 2 ^ 64" and hi_of_pos: "0 < hi_of e"
  using unat_lt_64 [of e] by (auto simp: hi_of_alt unat_gt_0)

lemma hi_of_nz: "e \<noteq> 0 \<Longrightarrow> hi_of e = unat e"
  by (simp add: hi_of_alt)

lemma hi_of_inject: "hi_of a = hi_of b \<longleftrightarrow> a = b"
  using unat_lt_64 [of a] unat_lt_64 [of b] by (auto simp: hi_of_alt word_unat_eq_iff split: if_splits)

lemma hi_of_add:
  assumes "unat a + unat s \<le> 2 ^ 64" "s \<noteq> 0"
  shows "hi_of (a + s) = unat a + unat s"
proof (cases "unat a + unat s = 2 ^ 64")
  case True
  then have "unat (a + s) = 0" by (simp add: unat_word_ariths)
  then have "a + s = 0" by (simp add: unat_eq_0)
  with True show ?thesis by (simp add: hi_of_alt)
next
  case False
  with assms(1) have "unat (a + s) = unat a + unat s" by (simp add: unat_word_ariths)
  moreover have "0 < unat s" using assms(2) by (simp add: unat_gt_0)
  ultimately have "a + s \<noteq> 0" by (metis add_is_0 less_numeral_extra(3) unat_0)
  with \<open>unat (a + s) = unat a + unat s\<close> show ?thesis by (simp add: hi_of_alt)
qed

lemma dvd_rup [simp]: "q dvd rup q n"
  by (simp add: rup_def)

lemma rup_ge: "0 < q \<Longrightarrow> n \<le> rup q n"
  unfolding rup_def
  using mod_less_divisor [of q "n + q - 1"] div_mult_mod_eq [of "n + q - 1" q] by linarith

lemma rup_le:
  assumes "0 < q" "q dvd m" "n \<le> m"
  shows "rup q n \<le> m"
proof -
  obtain j where m: "m = q * j" using assms(2) by (rule dvdE)
  have "n + q - 1 < Suc j * q" using assms(1,3) m by (simp add: algebra_simps)
  then have "(n + q - 1) div q \<le> j" using assms(1) by (simp add: div_less_iff_less_mult flip: less_Suc_eq_le)
  then show ?thesis by (simp add: rup_def m mult.commute)
qed

lemma rup_dvd [simp]: "q dvd n \<Longrightarrow> 0 < q \<Longrightarrow> rup q n = n"
  using rup_ge rup_le by (simp add: order_antisym)

lemma rup_eqI:
  assumes "q dvd m" "n \<le> m" "m < n + q"
  shows "rup q n = m"
proof (rule antisym)
  have q: "0 < q" using assms by (cases q) auto
  show "rup q n \<le> m" by (rule rup_le [OF q assms(1,2)])
  show "m \<le> rup q n"
  proof (rule ccontr)
    assume lt: "\<not> m \<le> rup q n"
    have "q dvd m - rup q n" using assms(1) by simp
    moreover have "0 < m - rup q n" using lt by simp
    ultimately have "q \<le> m - rup q n" by (rule dvd_imp_le)
    with rup_ge [OF q, of n] assms(3) lt show False by linarith
  qed
qed

lemma hi_of_P2ROUNDUP:
  assumes k: "k < 64"
  shows "hi_of (P2ROUNDUP e (2 ^ k)) = rup (2 ^ k) (hi_of e)"
proof (cases "e = 0")
  case True
  have "(2::nat) ^ k dvd 2 ^ 64" using k by (intro le_imp_power_dvd) simp
  with True show ?thesis by (simp add: P2_exp hi_of_alt)
next
  case False
  let ?d = "take_bit k (- e)"
  have d: "unat ?d = (2 ^ 64 - unat e) mod 2 ^ k"
    using False by (simp add: unat_take_bit unat_uminus)
  have le: "unat e + unat ?d \<le> 2 ^ 64"
    using unat_lt_64 [of e] mod_less_eq_dividend [of "2 ^ 64 - unat e" "2 ^ k"] unfolding d by linarith
  have dvd: "2 ^ k dvd unat e + unat ?d"
  proof -
    have "(unat e + unat ?d) mod 2 ^ k = (unat e + (2 ^ 64 - unat e)) mod 2 ^ k"
      unfolding d by (simp only: mod_add_right_eq)
    also have "\<dots> = 2 ^ 64 mod 2 ^ k" using unat_lt_64 [of e] by simp
    also have "\<dots> = 0" using k le_imp_power_dvd [of k 64 "2::nat"] by (simp add: dvd_eq_mod_eq_0)
    finally show ?thesis by (simp only: dvd_eq_mod_eq_0)
  qed
  have "unat ?d < 2 ^ k" unfolding d by simp
  then have "rup (2 ^ k) (unat e) = unat e + unat ?d" by (intro rup_eqI [OF dvd]) simp_all
  moreover have "hi_of (e + ?d) = unat e + unat ?d"
    using hi_of_add [OF le] False by (cases "?d = 0") (simp_all add: hi_of_alt)
  ultimately show ?thesis using False by (simp add: P2_exp hi_of_nz)
qed

subsection \<open>Tiled spans\<close>

text \<open>
  Reading the arena list from left to right, the state is the address reached, the end of the span
  being read, whether the last segment is free, and whether the last entry is a span marker.
\<close>

type_synonym tstate = "nat \<times> nat \<times> bool \<times> bool"

abbreviation is_free :: "vmem_seg \<Rightarrow> bool" where "is_free s \<equiv> vs_type s = VMEM_FREE"
abbreviation is_span :: "vmem_seg \<Rightarrow> bool" where "is_span s \<equiv> vs_type s = VMEM_SPAN"
abbreviation is_alloc :: "vmem_seg \<Rightarrow> bool" where "is_alloc s \<equiv> vs_type s = VMEM_ALLOC"

fun tstep :: "nat \<Rightarrow> tstate \<Rightarrow> vmem_seg \<Rightarrow> tstate option" where
  "tstep q (c, e, pf, fs) s =
     (if is_span s then
        (if c = e \<and> 0 < lo s \<and> lo s < hi s \<and> q dvd lo s \<and> q dvd hi s \<and> \<not> vs_import s
         then Some (lo s, hi s, False, True) else None)
      else if c < e \<and> lo s = c \<and> c < hi s \<and> (is_free s \<longrightarrow> \<not> pf \<and> q dvd hi s) \<and> (vs_import s \<longrightarrow> fs)
      then Some (rup q (hi s), e, is_free s, False) else None)"

fun trun :: "nat \<Rightarrow> tstate \<Rightarrow> vmem_seg list \<Rightarrow> tstate option" where
  "trun q st [] = Some st"
| "trun q st (s # ss) = (case tstep q st s of None \<Rightarrow> None | Some st \<Rightarrow> trun q st ss)"

definition tiles_from :: "nat \<Rightarrow> tstate \<Rightarrow> vmem_seg list \<Rightarrow> bool" where
  "tiles_from q st ss = (case trun q st ss of None \<Rightarrow> False | Some (c, e, _) \<Rightarrow> c = e)"

abbreviation st0 :: tstate where "st0 \<equiv> (0, 0, False, False)"

definition tiles :: "nat \<Rightarrow> vmem_seg list \<Rightarrow> bool" where
  "tiles q ss = tiles_from q st0 ss"

lemma trun_append: "trun q st (xs @ ys) = (case trun q st xs of None \<Rightarrow> None | Some st \<Rightarrow> trun q st ys)"
  by (induction xs arbitrary: st) (auto split: option.splits)

lemma tiles_from_Nil [simp]: "tiles_from q (c, e, pf, fs) [] \<longleftrightarrow> c = e"
  by (simp add: tiles_from_def)

lemma tiles_from_Cons:
  "tiles_from q (c, e, pf, fs) (s # ss) \<longleftrightarrow>
     (if is_span s
      then c = e \<and> 0 < lo s \<and> lo s < hi s \<and> q dvd lo s \<and> q dvd hi s \<and> \<not> vs_import s \<and> tiles_from q (lo s, hi s, False, True) ss
      else c < e \<and> lo s = c \<and> c < hi s \<and> (is_free s \<longrightarrow> \<not> pf \<and> q dvd hi s) \<and> (vs_import s \<longrightarrow> fs) \<and>
           tiles_from q (rup q (hi s), e, is_free s, False) ss)"
  by (simp add: tiles_from_def) blast

lemma tiles_from_run: "trun q st xs = Some st' \<Longrightarrow> tiles_from q st (xs @ ys) = tiles_from q st' ys"
  by (simp add: tiles_from_def trun_append)

lemma tiles_from_append:
  "tiles_from q st (xs @ ys) \<longleftrightarrow> (\<exists>st'. trun q st xs = Some st' \<and> tiles_from q st' ys)"
  by (auto simp: tiles_from_def trun_append split: option.splits)

lemma tiles_relax:
  assumes "tiles_from q (c, e, pf, fs) ss" "pf' \<longrightarrow> pf" "fs \<longrightarrow> fs'"
  shows "tiles_from q (c, e, pf', fs') ss"
  using assms by (cases ss) (auto simp: tiles_from_Cons split: if_splits)

lemma tiles_strict:
  assumes "tiles_from q (c, e, pf, fs) ss" "ss = [] \<or> \<not> is_free (hd ss)"
  shows "tiles_from q (c, e, True, fs) ss"
  using assms by (cases ss) (auto simp: tiles_from_Cons split: if_splits)

lemma tiles_le:
  assumes "tiles_from q (c, e, pf, fs) ss" "0 < q"
  shows "c \<le> e"
  using assms by (cases ss) (auto simp: tiles_from_Cons split: if_splits)

text \<open>What the state remembers of the entry before.\<close>

lemma trun_last:
  assumes "trun q st0 xs = Some (c, e, pf, fs)"
  shows "pf \<longleftrightarrow> xs \<noteq> [] \<and> is_free (last xs)" "fs \<longleftrightarrow> xs \<noteq> [] \<and> is_span (last xs)"
proof -
  from assms show "pf \<longleftrightarrow> xs \<noteq> [] \<and> is_free (last xs)" "fs \<longleftrightarrow> xs \<noteq> [] \<and> is_span (last xs)"
    by (cases xs rule: rev_cases; auto simp: trun_append split: option.splits if_splits)+
qed

lemma trun_dvd:
  assumes "trun q (c, e, pf, fs) xs = Some (c', e', pf', fs')" "q dvd c" "q dvd e"
  shows "q dvd c'" "q dvd e'"
  using assms by (induction xs arbitrary: c e pf fs) (auto split: option.splits if_splits)

text \<open>The place of one segment in the list.\<close>

lemma tiles_at:
  assumes "\<not> is_span s"
  shows "tiles_from q st (xs @ s # ys) \<longleftrightarrow>
     (\<exists>c e pf fs. trun q st xs = Some (c, e, pf, fs) \<and> c < e \<and> lo s = c \<and> c < hi s \<and>
        (is_free s \<longrightarrow> \<not> pf \<and> q dvd hi s) \<and> (vs_import s \<longrightarrow> fs) \<and>
        tiles_from q (rup q (hi s), e, is_free s, False) ys)"
proof (cases "trun q st xs")
  case (Some st')
  obtain c e pf fs where "st' = (c, e, pf, fs)" by (cases st') auto
  with Some assms show ?thesis by (simp add: tiles_from_run tiles_from_Cons)
qed (simp add: tiles_from_append)

lemma tiles_resize:
  assumes "tiles_from q st (xs @ s # ys)" "is_alloc s" "is_alloc s'" "lo s' = lo s" "lo s < hi s'"
    "rup q (hi s') = rup q (hi s)" "vs_import s' = vs_import s"
  shows "tiles_from q st (xs @ s' # ys)"
  using assms by (auto simp: tiles_at)

lemma tiles_merge_next:
  assumes "tiles_from q st (xs @ s # n # ys)" "is_alloc s" "is_free n" "0 < q" "is_alloc s'"
    "vs_start s' = vs_start s" "vs_end s' = vs_end n" "vs_import s' = vs_import s"
  shows "tiles_from q st (xs @ s' # ys) \<and> (ys = [] \<or> \<not> is_free (hd ys))"
proof -
  from assms(1-3) obtain c e pf fs where st: "trun q st xs = Some (c, e, pf, fs)" "c < e" "lo s = c" "c < hi s" "vs_import s \<longrightarrow> fs"
      and t: "tiles_from q (rup q (hi s), e, False, False) (n # ys)" by (auto simp: tiles_at)
  from t assms(3,4) have n: "hi s \<le> lo n" "lo n < hi n" "q dvd hi n" "tiles_from q (hi n, e, True, False) ys"
    using rup_ge [of q "hi s"] by (auto simp: tiles_from_Cons split: if_splits)
  have "tiles_from q (hi n, e, False, False) ys" using tiles_relax [OF n(4)] by simp
  moreover have "ys = [] \<or> \<not> is_free (hd ys)" using n(4) by (cases ys) (auto simp: tiles_from_Cons split: if_splits)
  ultimately show ?thesis using st n(1-3) assms(4-8) by (auto simp: tiles_at)
qed

lemma tiles_merge_prev:
  assumes "tiles_from q st (xs @ p # s # ys)" "is_alloc s" "is_free p" "0 < q" "q dvd hi s" "is_free p'"
    "vs_start p' = vs_start p" "vs_end p' = vs_end s" "vs_import p' = vs_import p"
    "ys = [] \<or> \<not> is_free (hd ys)"
  shows "tiles_from q st (xs @ p' # ys)"
proof -
  from assms(1,3) obtain c e pf fs where st: "trun q st xs = Some (c, e, pf, fs)" "c < e" "lo p = c" "c < hi p" "vs_import p \<longrightarrow> fs" "\<not> pf" "q dvd hi p"
      and t: "tiles_from q (rup q (hi p), e, True, False) (s # ys)" by (auto simp: tiles_at)
  from t assms(2,4,5) have n: "hi p \<le> lo s" "lo s < hi s" "tiles_from q (hi s, e, False, False) ys"
    using rup_ge [of q "hi p"] by (auto simp: tiles_from_Cons split: if_splits)
  from tiles_strict [OF n(3) assms(10)] show ?thesis using st n(1,2) assms(4-9) by (auto simp: tiles_at)
qed

lemma tiles_set_free:
  assumes "tiles q (xs @ s # ys)" "is_alloc s" "0 < q" "q dvd hi s" "is_free s'"
    "vs_start s' = vs_start s" "vs_end s' = vs_end s" "vs_import s' = vs_import s"
    "ys = [] \<or> \<not> is_free (hd ys)" "xs = [] \<or> \<not> is_free (last xs)"
  shows "tiles q (xs @ s' # ys)"
proof -
  from assms(1,2) obtain c e pf fs where st: "trun q st0 xs = Some (c, e, pf, fs)" "c < e" "lo s = c" "c < hi s" "vs_import s \<longrightarrow> fs"
      and t: "tiles_from q (rup q (hi s), e, False, False) ys" by (auto simp: tiles_def tiles_at)
  have "\<not> pf" using trun_last(1) [OF st(1)] assms(10) by auto
  with tiles_strict [OF t assms(9)] show ?thesis using st assms(3-8) by (auto simp: tiles_def tiles_at)
qed

subsection \<open>Carving an allocation out of a free segment\<close>

definition carve :: "ulong \<Rightarrow> ulong \<Rightarrow> ulong \<Rightarrow> vmem_seg \<Rightarrow> vmem_seg list" where
  "carve q start end s =
     (if vs_start s = start then [s\<lparr>vs_end := end, vs_type := VMEM_ALLOC\<rparr>]
      else [s\<lparr>vs_end := start\<rparr>, \<lparr>vs_start = start, vs_end = end, vs_type = VMEM_ALLOC, vs_import = False\<rparr>]) @
     (if vs_end s = P2ROUNDUP end q then []
      else [\<lparr>vs_start = P2ROUNDUP end q, vs_end = vs_end s, vs_type = VMEM_FREE, vs_import = False\<rparr>])"

lemma tiles_carve:
  assumes t: "tiles_from (2 ^ k) st (xs @ s # ys)" and s: "is_free s" and k: "k < 64"
    and start: "lo s \<le> unat start" "2 ^ k dvd unat start" "start \<noteq> 0" and "end": "unat start < hi_of end" "hi_of end \<le> hi s"
  shows "tiles_from (2 ^ k) st (xs @ carve (2 ^ k) start end s @ ys)"
proof -
  let ?q = "2 ^ k :: nat" and ?pe = "P2ROUNDUP end (2 ^ k)"
  from t s obtain c e pf fs where st: "trun ?q st xs = Some (c, e, pf, fs)" "c < e" "lo s = c" "c < hi s"
      "vs_import s \<longrightarrow> fs" "\<not> pf" "?q dvd hi s" and r: "tiles_from ?q (hi s, e, True, False) ys"
    by (auto simp: tiles_at)
  have le: "hi s \<le> e" by (rule tiles_le [OF r]) simp
  have pe: "hi_of ?pe = rup ?q (hi_of end)" by (rule hi_of_P2ROUNDUP [OF k])
  have rle: "rup ?q (hi_of end) \<le> hi s" by (rule rup_le) (use st(7) "end"(2) in auto)
  have r': "tiles_from ?q (hi s, e, False, False) ys" using tiles_relax [OF r] by simp
  have tail: "tiles_from ?q (rup ?q (hi_of end), e, False, False)
      ((if vs_end s = ?pe then [] else [\<lparr>vs_start = ?pe, vs_end = vs_end s, vs_type = VMEM_FREE, vs_import = False\<rparr>]) @ ys)"
  proof (cases "vs_end s = ?pe")
    case True
    with r' pe show ?thesis by simp
  next
    case False
    then have "hi_of ?pe \<noteq> hi s" by (simp add: hi_of_inject)
    with rle pe have lt: "rup ?q (hi_of end) < hi s" by simp
    then have "?pe \<noteq> 0" using pe hi_of_le [of "vs_end s"] by (auto simp: hi_of_alt)
    then have "unat ?pe = rup ?q (hi_of end)" using pe by (simp add: hi_of_nz)
    with False lt le st(7) r show ?thesis by (simp add: tiles_from_Cons)
  qed
  have lt2: "unat start < e" using "end" le by linarith
  show ?thesis
  proof (cases "vs_start s = start")
    case True
    with tail st "end" show ?thesis by (simp add: carve_def tiles_from_run [OF st(1)] tiles_from_Cons)
  next
    case False
    then have "lo s < unat start" using start(1) by (simp add: word_unat_eq_iff)
    with False tail st "end" start lt2 s show ?thesis
      by (simp add: carve_def tiles_from_run [OF st(1)] tiles_from_Cons hi_of_nz)
  qed
qed

subsection \<open>Adding and removing a span\<close>

lemma tiles_add_span:
  assumes "tiles q ss" "is_span m" "\<not> vs_import m" "is_free s" "vs_start s = vs_start m" "vs_end s = vs_end m"
    "0 < lo m" "lo m < hi m" "q dvd lo m" "q dvd hi m" "0 < q"
  shows "tiles q (ss @ [m, s])"
proof -
  from assms(1) obtain c pf fs where "trun q st0 ss = Some (c, c, pf, fs)"
    by (auto simp: tiles_def tiles_from_def split: option.splits)
  with assms(2-) show ?thesis by (simp add: tiles_def tiles_from_run tiles_from_Cons)
qed

lemma tiles_remove_span:
  assumes "tiles q (xs @ m # s # ys)" "is_span m" "\<not> is_span s" "q dvd hi s" "0 < q" "ys = [] \<or> is_span (hd ys)"
  shows "tiles q (xs @ ys) \<and> vs_start s = vs_start m \<and> vs_end s = vs_end m"
proof -
  from assms(1,2,3,4,5) obtain c pf fs where st: "trun q st0 xs = Some (c, c, pf, fs)" "vs_start s = vs_start m"
      and t: "tiles_from q (hi s, hi m, is_free s, False) ys"
    by (auto simp: tiles_def tiles_from_append tiles_from_Cons word_unat_eq_iff split: if_splits)
  have "hi s = hi m \<and> tiles_from q (c, c, pf, fs) ys"
    using t assms(6) by (cases ys) (auto simp: tiles_from_Cons split: if_splits)
  with st show ?thesis by (auto simp: tiles_def tiles_from_append hi_of_inject)
qed

subsection \<open>Disjointness\<close>

definition rng :: "vmem_seg \<Rightarrow> nat set" where
  "rng s = {lo s ..< hi s}"

abbreviation apart :: "vmem_seg \<Rightarrow> vmem_seg \<Rightarrow> bool" where
  "apart a b \<equiv> rng a \<inter> rng b = {}"

definition spans_apart :: "vmem_seg list \<Rightarrow> bool" where
  "spans_apart ss = sorted_wrt apart (filter is_span ss)"

lemma tiles_inside:
  assumes "tiles_from q (c, e, pf, fs) ss" "s \<in> set ss" "\<not> is_span s" "0 < q"
  shows "rng s \<subseteq> {c ..< e} \<or> (\<exists>m \<in> set ss. is_span m \<and> rng s \<subseteq> rng m)"
  using assms
proof (induction ss arbitrary: c e pf fs)
  case (Cons a ss)
  show ?case
  proof (cases "is_span a")
    case True
    with Cons.prems have "tiles_from q (lo a, hi a, False, True) ss" "s \<in> set ss"
      by (auto simp: tiles_from_Cons split: if_splits)
    from Cons.IH [OF this Cons.prems(3,4)] True show ?thesis by (auto simp: rng_def)
  next
    case False
    with Cons.prems(1) have a: "lo a = c" "tiles_from q (rup q (hi a), e, is_free a, False) ss" "c < hi a"
      by (auto simp: tiles_from_Cons split: if_splits)
    have h: "hi a \<le> rup q (hi a)" "rup q (hi a) \<le> e" using rup_ge [OF Cons.prems(4)] tiles_le [OF a(2) Cons.prems(4)] by auto
    show ?thesis
    proof (cases "s = a")
      case True
      with a h show ?thesis by (auto simp: rng_def)
    next
      case False
      with Cons.prems have "s \<in> set ss" by simp
      from Cons.IH [OF a(2) this Cons.prems(3,4)] show ?thesis using a(1,3) h by (auto simp: subset_iff)
    qed
  qed
qed simp

lemma tiles_apart:
  assumes "tiles_from q (c, e, pf, fs) ss" "spans_apart ss" "\<forall>m \<in> set ss. is_span m \<longrightarrow> rng m \<inter> {c ..< e} = {}" "0 < q"
  shows "sorted_wrt (\<lambda>a b. \<not> is_span a \<longrightarrow> \<not> is_span b \<longrightarrow> apart a b) ss"
  using assms
proof (induction ss arbitrary: c e pf fs)
  case (Cons a ss)
  show ?case
  proof (cases "is_span a")
    case True
    with Cons.prems have "tiles_from q (lo a, hi a, False, True) ss" "spans_apart ss"
      "\<forall>m \<in> set ss. is_span m \<longrightarrow> rng m \<inter> {lo a ..< hi a} = {}"
      by (auto simp: tiles_from_Cons spans_apart_def rng_def split: if_splits)
    from Cons.IH [OF this Cons.prems(4)] True show ?thesis by simp
  next
    case False
    with Cons.prems(1) have a: "lo a = c" "tiles_from q (rup q (hi a), e, is_free a, False) ss" "c < hi a"
      by (auto simp: tiles_from_Cons split: if_splits)
    have h: "hi a \<le> rup q (hi a)" "rup q (hi a) \<le> e" using rup_ge [OF Cons.prems(4)] tiles_le [OF a(2) Cons.prems(4)] by auto
    have sp: "spans_apart ss" using Cons.prems(2) False by (simp add: spans_apart_def)
    have out: "rng m \<inter> {c ..< e} = {}" if "m \<in> set ss" "is_span m" for m using Cons.prems(3) that by auto
    then have "\<forall>m \<in> set ss. is_span m \<longrightarrow> rng m \<inter> {rup q (hi a) ..< e} = {}" using a h by fastforce
    from Cons.IH [OF a(2) sp this Cons.prems(4)] have "sorted_wrt (\<lambda>a b. \<not> is_span a \<longrightarrow> \<not> is_span b \<longrightarrow> apart a b) ss" .
    moreover have "apart a b" if b: "b \<in> set ss" "\<not> is_span b" for b
    proof -
      have ra: "rng a \<subseteq> {c ..< e}" "rng a \<inter> {rup q (hi a) ..< e} = {}" using a h by (auto simp: rng_def)
      from tiles_inside [OF a(2) b Cons.prems(4)] show ?thesis using ra out by blast
    qed
    ultimately show ?thesis by simp
  qed
qed simp

lemma tiles_nonspan:
  assumes "tiles_from q (c, e, pf, fs) ss" "s \<in> set ss" "0 < q"
  shows "lo s < hi s" "is_free s \<Longrightarrow> q dvd hi s"
  using assms by (induction ss arbitrary: c e pf fs) (auto simp: tiles_from_Cons split: if_splits)

lemma sorted_wrt_ids:
  assumes "sorted_wrt R (map f xs)" "p \<in> set xs" "q \<in> set xs" "p \<noteq> q" "\<And>a b. R a b \<Longrightarrow> R b a"
  shows "R (f p) (f q)"
  using assms by (induction xs) auto

subsection \<open>Imported memory\<close>

fun imp_sum :: "ulong \<Rightarrow> vmem_seg list \<Rightarrow> ulong" where
  "imp_sum z [] = 0"
| "imp_sum z (s # ss) =
     (if is_span s then imp_sum (seg_size s) ss else (if vs_import s then z else 0) + imp_sum z ss)"

fun span_sz :: "ulong \<Rightarrow> vmem_seg list \<Rightarrow> ulong" where
  "span_sz z [] = z"
| "span_sz z (s # ss) = span_sz (if is_span s then seg_size s else z) ss"

lemma imp_sum_append: "imp_sum z (xs @ ys) = imp_sum z xs + imp_sum (span_sz z xs) ys"
  by (induction xs arbitrary: z) auto

lemma imp_sum_replace:
  assumes "\<forall>s \<in> set A. \<not> is_span s" "\<forall>s \<in> set B. \<not> is_span s"
    and f: "length (filter vs_import A) = length (filter vs_import B)"
  shows "imp_sum z (xs @ A @ ys) = imp_sum z (xs @ B @ ys)"
proof -
  have s: "imp_sum y C = of_nat (length (filter vs_import C)) * y \<and> span_sz y C = y"
    if "\<forall>s \<in> set C. \<not> is_span s" for y C
    using that by (induction C) (auto simp: algebra_simps)
  show ?thesis using s [OF assms(1)] s [OF assms(2)] f by (simp add: imp_sum_append)
qed

end
