(* ===== verification/Vmem_Ops.thy ===== *)
theory Vmem_Ops
  imports Vmem_Tiling
begin

section \<open>Vmem: the operations keep the arena consistent\<close>

text \<open>
  The invariant of an arena, \<open>vmem_inv\<close>, the set of its allocated blocks, \<open>vm_allocs\<close>, and the proof
  that carving a block out of a free segment keeps the one and adds to the other.
\<close>

subsection \<open>The arena invariant\<close>

definition segs :: "vmem \<Rightarrow> vmem_seg list" where
  "segs v = map (vm_seg v) (vm_arena v)"

definition seg_reserve :: "vmem \<Rightarrow> int" where
  "seg_reserve v = int (length (vm_segfree v)) - vm_nsegfree v"

definition seg_ids :: "vmem \<Rightarrow> segp set" where
  "seg_ids v = set (vm_arena v) \<union> set (vm_segfree v)"

abbreviation span_ids :: "vmem \<Rightarrow> segp list" where
  "span_ids v \<equiv> filter (\<lambda>p. is_span (vm_seg v p)) (vm_arena v)"

definition quantum_ok :: "vmem \<Rightarrow> bool" where
  "quantum_ok v \<longleftrightarrow> vm_qshift v < 64 \<and> vm_quantum v = 2 ^ vm_qshift v"

definition layout_ok :: "vmem \<Rightarrow> bool" where
  "layout_ok v \<longleftrightarrow> tiles (2 ^ vm_qshift v) (segs v) \<and> spans_apart (segs v)"

definition totals_ok :: "vmem \<Rightarrow> bool" where
  "totals_ok v \<longleftrightarrow> vk_mem_total (vm_kstat v) = sum_list (map seg_size (filter is_span (segs v))) \<and>
     vk_mem_import (vm_kstat v) = imp_sum 0 (segs v)"

definition vmem_inv :: "vmem \<Rightarrow> bool" where
  "vmem_inv v \<longleftrightarrow> links v {} \<and> quantum_ok v \<and> layout_ok v \<and> vm_spans v = span_ids v \<and> totals_ok v"

definition keeps :: "vmem \<Rightarrow> vmem \<Rightarrow> bool" where
  "keeps v v' \<longleftrightarrow> vm_quantum v' = vm_quantum v \<and> vm_qshift v' = vm_qshift v \<and> vm_spans v' = vm_spans v \<and>
     same_totals (vm_kstat v) (vm_kstat v') \<and> seg_reserve v' = seg_reserve v \<and> seg_ids v' = seg_ids v"

lemma keeps_refl [simp]: "keeps v v" by (simp add: keeps_def)
lemma keeps_trans: "keeps u v \<Longrightarrow> keeps v w \<Longrightarrow> keeps u w" by (simp add: keeps_def)

lemma vbind_simps [simp]: "vbind (Inr x) f = f x" "vbind (Inl e) f = Inl e"
  by (simp_all add: vbind_def)

subsection \<open>vmem_seg_alloc()\<close>

lemma vmem_seg_create_ok:
  assumes "links v L" "vm_arena v = xs @ p # ys" "vm_segfree v = b # bs" "start \<noteq> 0"
  shows "\<exists>v'. vmem_seg_create (Some p) start end t v = Inr (b, v') \<and> links v' (insert b L) \<and>
     vm_arena v' = xs @ p # b # ys \<and>
     vm_seg v' = (vm_seg v)(b := \<lparr>vs_start = start, vs_end = end, vs_type = t, vs_import = False\<rparr>) \<and>
     vm_segfree v' = bs \<and> keeps v v'"
proof -
  have d: "distinct (vm_arena v @ vm_segfree v)" using assms(1) by (simp add: links_def pool_ok_def)
  let ?s = "\<lparr>vs_start = start, vs_end = end, vs_type = t, vs_import = False\<rparr>"
  let ?v = "v\<lparr>vm_segfree := bs, vm_nsegfree := vm_nsegfree v - 1, vm_seg := (vm_seg v)(b := ?s), vm_arena := xs @ p # b # ys\<rparr>"
  have "vmem_seg_create (Some p) start end t v = Inr (b, ?v)"
    using d assms(2,3) by (simp add: vmem_seg_create_def vmem_getseg_def insert_after_split)
  moreover have "links ?v (insert b L)"
    by (rule links_add [OF assms(1,3)]) (use d assms(2-4) in auto)
  moreover have "seg_ids ?v = seg_ids v" using assms(2,3) by (auto simp: seg_ids_def)
  ultimately show ?thesis using assms(3) by (simp add: keeps_def seg_reserve_def)
qed

lemma split_right:
  assumes l: "links v {p}" and a: "vm_arena v = xs @ p # ys" and b: "vm_segfree v = b # bs" and e: "e1 \<noteq> 0" "e0 \<noteq> e1"
  shows "\<exists>v'. vbind (vmem_seg_create (Some p) e1 e0 VMEM_FREE (upd_seg p (vs_end_update (\<lambda>_. e1)) v))
                (\<lambda>(newseg, v). vmem_freelist_insert newseg v) = Inr v' \<and> links v' {p} \<and>
     vm_arena v' = xs @ p # b # ys \<and>
     vm_seg v' = (vm_seg v)(p := (vm_seg v p)\<lparr>vs_end := e1\<rparr>, b := \<lparr>vs_start = e1, vs_end = e0, vs_type = VMEM_FREE, vs_import = False\<rparr>) \<and>
     vm_segfree v' = bs \<and> keeps v v'"
proof -
  let ?v = "upd_seg p (vs_end_update (\<lambda>_. e1)) v"
  have "links ?v {p}" using l by (simp add: links_limbo)
  from vmem_seg_create_ok [OF this, of xs p ys b bs e1 e0 VMEM_FREE] a b e(1) obtain v1 where
    v1: "vmem_seg_create (Some p) e1 e0 VMEM_FREE ?v = Inr (b, v1)" "links v1 {b, p}" "vm_arena v1 = xs @ p # b # ys"
      "vm_seg v1 = (vm_seg ?v)(b := \<lparr>vs_start = e1, vs_end = e0, vs_type = VMEM_FREE, vs_import = False\<rparr>)"
      "vm_segfree v1 = bs" "keeps ?v v1" by auto
  have bp: "b \<noteq> p" using l a b by (auto simp: links_def pool_ok_def)
  have m: "b \<in> set (vm_arena v1)" "b \<in> {b, p}" using v1(3) by auto
  have "VS_SIZE v1 b \<noteq> 0" using v1(4) e(2) by (simp add: VS_SIZE_def seg_size_def)
  then obtain fm fl where
    f: "vmem_freelist_insert b v1 = Inr ((set_type b VMEM_FREE v1)\<lparr>vm_freemap := fm, vm_freelist := fl\<rparr>)"
      "links ((set_type b VMEM_FREE v1)\<lparr>vm_freemap := fm, vm_freelist := fl\<rparr>) ({b, p} - {b})"
    by (rule vmem_freelist_insert_ok [OF v1(2) m])
  have "{b, p} - {b} = {p}" using bp by auto
  with f v1 show ?thesis by (simp add: keeps_def seg_reserve_def seg_ids_def)
qed

lemma split_left:
  assumes l: "links v {p}" and a: "vm_arena v = xs @ p # ys" and b: "vm_segfree v = b # bs"
    and s: "start \<noteq> 0" "vs_start (vm_seg v p) \<noteq> start" "is_free (vm_seg v p)"
  shows "\<exists>v'. vbind (vmem_seg_create (Some p) start end VMEM_ALLOC (upd_seg p (vs_end_update (\<lambda>_. start)) v))
                (\<lambda>(newseg, v). vbind (vmem_freelist_insert p v) (\<lambda>v. Inr (newseg, v))) = Inr (b, v') \<and> links v' {b} \<and>
     vm_arena v' = xs @ p # b # ys \<and>
     vm_seg v' = (vm_seg v)(p := (vm_seg v p)\<lparr>vs_end := start\<rparr>, b := \<lparr>vs_start = start, vs_end = end, vs_type = VMEM_ALLOC, vs_import = False\<rparr>) \<and>
     vm_segfree v' = bs \<and> keeps v v'"
proof -
  let ?v = "upd_seg p (vs_end_update (\<lambda>_. start)) v"
  have "links ?v {p}" using l by (simp add: links_limbo)
  from vmem_seg_create_ok [OF this, of xs p ys b bs start "end" VMEM_ALLOC] a b s(1) obtain v1 where
    v1: "vmem_seg_create (Some p) start end VMEM_ALLOC ?v = Inr (b, v1)" "links v1 {b, p}" "vm_arena v1 = xs @ p # b # ys"
      "vm_seg v1 = (vm_seg ?v)(b := \<lparr>vs_start = start, vs_end = end, vs_type = VMEM_ALLOC, vs_import = False\<rparr>)"
      "vm_segfree v1 = bs" "keeps ?v v1" by auto
  have bp: "b \<noteq> p" using l a b by (auto simp: links_def pool_ok_def)
  have m: "p \<in> set (vm_arena v1)" "p \<in> {b, p}" using v1(3) by auto
  have "VS_SIZE v1 p \<noteq> 0" using v1(4) s(2) bp by (simp add: VS_SIZE_def seg_size_def)
  then obtain fm fl where
    f: "vmem_freelist_insert p v1 = Inr ((set_type p VMEM_FREE v1)\<lparr>vm_freemap := fm, vm_freelist := fl\<rparr>)"
      "links ((set_type p VMEM_FREE v1)\<lparr>vm_freemap := fm, vm_freelist := fl\<rparr>) ({b, p} - {p})"
    by (rule vmem_freelist_insert_ok [OF v1(2) m])
  have "{b, p} - {p} = {b}" using bp by auto
  moreover have "vm_seg (set_type p VMEM_FREE v1) = vm_seg v1"
    using v1(4) bp s(3) by (auto simp: fun_eq_iff)
  ultimately show ?thesis using f v1 by (simp add: keeps_def seg_reserve_def seg_ids_def)
qed

text \<open>The last step of the allocation: the segment gets its end and enters the hash table.\<close>

lemma alloc_finish:
  assumes l: "links v {p}" and a: "p \<in> set (vm_arena v)"
  shows "\<exists>v'. vmem_hash_insert p (upd_seg p (vs_end_update (\<lambda>_. end)) v) = v' \<and> links v' {} \<and> vm_arena v' = vm_arena v \<and>
     vm_seg v' = (vm_seg v)(p := (vm_seg v p)\<lparr>vs_end := end, vs_type := VMEM_ALLOC\<rparr>) \<and> keeps v v' \<and> vm_segfree v' = vm_segfree v"
proof -
  let ?v = "upd_seg p (vs_end_update (\<lambda>_. end)) v"
  have l': "links ?v {p}" using l by (simp add: links_limbo)
  have m: "p \<in> set (vm_arena ?v)" "p \<in> {p}" using a by auto
  obtain ht ks where "vmem_hash_insert p ?v = (set_type p VMEM_ALLOC ?v)\<lparr>vm_hash_table := ht, vm_kstat := ks\<rparr>"
      "links ((set_type p VMEM_ALLOC ?v)\<lparr>vm_hash_table := ht, vm_kstat := ks\<rparr>) ({p} - {p})" "same_totals (vm_kstat ?v) ks"
    by (rule vmem_hash_insert_ok [OF l' m])
  then show ?thesis by (simp add: keeps_def seg_reserve_def seg_ids_def)
qed

lemma seg_alloc_guard:
  assumes "start \<noteq> 0"
  shows "start < s0 \<or> end - 1 > e0 - 1 \<or> start - 1 \<ge> end - 1 \<longleftrightarrow>
     \<not> (unat s0 \<le> unat start \<and> unat start < hi_of end \<and> hi_of end \<le> hi_of e0)"
proof -
  have "unat (start - 1) = unat start - 1" "0 < unat start" using assms by (simp_all add: unat_minus_one unat_gt_0)
  then show ?thesis by (auto simp: hi_of_def word_less_nat_alt word_le_nat_alt)
qed

lemma seg_alloc_right:
  assumes l: "links v {p}" and a: "vm_arena v = xs @ p # ys" and pe: "e0 = pe \<or> pe \<noteq> 0" "e0 = vs_end (vm_seg v p)"
    and b: "vm_segfree v = b # bs"
  shows "\<exists>v' bs'. (if e0 \<noteq> pe then
                    vbind (vmem_seg_create (Some p) pe e0 VMEM_FREE (upd_seg p (vs_end_update (\<lambda>_. pe)) v))
                      (\<lambda>(newseg, v). vmem_freelist_insert newseg v)
                  else Inr v) = Inr v' \<and> links v' {p} \<and> vm_arena v' = xs @ p # bs' @ ys \<and>
     vm_seg v' p = (vm_seg v p)\<lparr>vs_end := pe\<rparr> \<and>
     map (vm_seg v') bs' = (if e0 = pe then [] else [\<lparr>vs_start = pe, vs_end = e0, vs_type = VMEM_FREE, vs_import = False\<rparr>]) \<and>
     (\<forall>x \<in> set xs \<union> set ys. vm_seg v' x = vm_seg v x) \<and> (vm_segfree v' = b # bs \<or> vm_segfree v' = bs) \<and> keeps v v'"
proof (cases "e0 = pe")
  case True
  have "vm_seg v p = (vm_seg v p)\<lparr>vs_end := pe\<rparr>" using True pe(2) by simp
  with True l a b show ?thesis by (intro exI [of _ v] exI [of _ "[]"]) simp
next
  case False
  have d: "distinct (xs @ p # ys @ b # bs)" using l a b by (simp add: links_def pool_ok_def)
  from False pe(1) obtain v' where
    "vbind (vmem_seg_create (Some p) pe e0 VMEM_FREE (upd_seg p (vs_end_update (\<lambda>_. pe)) v))
       (\<lambda>(newseg, v). vmem_freelist_insert newseg v) = Inr v'" "links v' {p}" "vm_arena v' = xs @ p # b # ys"
     "vm_seg v' = (vm_seg v)(p := (vm_seg v p)\<lparr>vs_end := pe\<rparr>, b := \<lparr>vs_start = pe, vs_end = e0, vs_type = VMEM_FREE, vs_import = False\<rparr>)"
     "vm_segfree v' = bs" "keeps v v'"
    using split_right [OF l a b, of pe e0] by auto
  with False d show ?thesis by (intro exI [of _ v'] exI [of _ "[b]"]) auto
qed

lemma seg_alloc_left:
  assumes l: "links v {p}" and a: "vm_arena v = xs @ p # ys" and s: "start \<noteq> 0" "is_free (vm_seg v p)"
    and b: "vm_segfree v = b # bs" and s0: "s0 = vs_start (vm_seg v p)"
  shows "\<exists>v' p' as. (if s0 \<noteq> start then
                    vbind (vmem_seg_create (Some p) start end VMEM_ALLOC (upd_seg p (vs_end_update (\<lambda>_. start)) v))
                      (\<lambda>(newseg, v). vbind (vmem_freelist_insert p v) (\<lambda>v. Inr (newseg, v)))
                  else Inr (p, v)) = Inr (p', v') \<and> links v' {p'} \<and> vm_arena v' = xs @ as @ ys \<and> p' \<in> set as \<and>
     map ((vm_seg v')(p' := (vm_seg v' p')\<lparr>vs_end := end, vs_type := VMEM_ALLOC\<rparr>)) as =
       (if s0 = start then [(vm_seg v p)\<lparr>vs_end := end, vs_type := VMEM_ALLOC\<rparr>]
        else [(vm_seg v p)\<lparr>vs_end := start\<rparr>, \<lparr>vs_start = start, vs_end = end, vs_type = VMEM_ALLOC, vs_import = False\<rparr>]) \<and>
     (\<forall>x \<in> set xs \<union> set ys. x \<noteq> p' \<and> vm_seg v' x = vm_seg v x) \<and> (vm_segfree v' = b # bs \<or> vm_segfree v' = bs) \<and> keeps v v'"
proof (cases "s0 = start")
  case True
  have "distinct (xs @ p # ys)" using l a by (auto simp: links_def pool_ok_def)
  with True l a b show ?thesis by (intro exI [of _ v] exI [of _ p] exI [of _ "[p]"]) auto
next
  case False
  have d: "distinct (xs @ p # ys @ b # bs)" using l a b by (simp add: links_def pool_ok_def)
  from False s s0 obtain v' where
    "vbind (vmem_seg_create (Some p) start end VMEM_ALLOC (upd_seg p (vs_end_update (\<lambda>_. start)) v))
       (\<lambda>(newseg, v). vbind (vmem_freelist_insert p v) (\<lambda>v. Inr (newseg, v))) = Inr (b, v')" "links v' {b}" "vm_arena v' = xs @ p # b # ys"
     "vm_seg v' = (vm_seg v)(p := (vm_seg v p)\<lparr>vs_end := start\<rparr>, b := \<lparr>vs_start = start, vs_end = end, vs_type = VMEM_ALLOC, vs_import = False\<rparr>)"
     "vm_segfree v' = bs" "keeps v v'"
    using split_left [OF l a b, of start "end"] by auto
  with False d show ?thesis by (intro exI [of _ v'] exI [of _ b] exI [of _ "[p, b]"]) auto
qed

lemma span_ids_replace:
  assumes "vm_arena v = xs @ as @ ys" "vm_arena v' = xs @ bs @ ys" "\<forall>x \<in> set xs \<union> set ys. vm_seg v' x = vm_seg v x"
    "\<forall>s \<in> set (map (vm_seg v) as). \<not> is_span s" "\<forall>s \<in> set (map (vm_seg v') bs). \<not> is_span s"
  shows "span_ids v' = span_ids v"
proof -
  have "filter (\<lambda>p. is_span (vm_seg v' p)) xs = filter (\<lambda>p. is_span (vm_seg v p)) xs"
    "filter (\<lambda>p. is_span (vm_seg v' p)) ys = filter (\<lambda>p. is_span (vm_seg v p)) ys"
    using assms(3) by (auto intro: filter_cong)
  with assms show ?thesis by (simp add: filter_empty_conv)
qed

lemma carve_not_span: "is_free s \<Longrightarrow> x \<in> set (carve q start end s) \<Longrightarrow> \<not> is_span x"
  by (auto simp: carve_def split: if_splits)

lemma vmem_seg_alloc_ok:
  assumes l: "links v {p}" and a: "vm_arena v = xs @ p # ys" and q: "quantum_ok v" and s: "is_free (vm_seg v p)"
    and start: "start \<noteq> 0" "lo (vm_seg v p) \<le> unat start" and en: "unat start < hi_of end" "hi_of end \<le> hi (vm_seg v p)"
    and d: "2 ^ vm_qshift v dvd hi (vm_seg v p)" and b: "vm_segfree v = b1 # b2 # bs"
  shows "\<exists>v'. vmem_seg_alloc p start end v = Inr v' \<and> links v' {} \<and>
     segs v' = map (vm_seg v) xs @ carve (vm_quantum v) start end (vm_seg v p) @ map (vm_seg v) ys \<and>
     span_ids v' = span_ids v \<and> keeps v v' \<and> length (vm_segfree v) \<le> length (vm_segfree v') + 2"
proof -
  let ?s = "vm_seg v p" and ?pe = "P2ROUNDUP end (vm_quantum v)"
  have pe: "vs_end ?s = ?pe \<or> ?pe \<noteq> 0"
  proof -
    have "hi_of ?pe \<le> hi ?s" using q d en(2) by (simp add: quantum_ok_def hi_of_P2ROUNDUP rup_le)
    then show ?thesis using unat_lt_64 [of "vs_end ?s"] by (auto simp: hi_of_alt split: if_splits)
  qed
  from seg_alloc_right [OF l a pe refl b] obtain v1 rs where
    v1: "(if vs_end ?s \<noteq> ?pe then
            vbind (vmem_seg_create (Some p) ?pe (vs_end ?s) VMEM_FREE (upd_seg p (vs_end_update (\<lambda>_. ?pe)) v))
              (\<lambda>(newseg, v). vmem_freelist_insert newseg v) else Inr v) = Inr v1" "links v1 {p}"
      "vm_arena v1 = xs @ p # rs @ ys" "vm_seg v1 p = ?s\<lparr>vs_end := ?pe\<rparr>"
      "map (vm_seg v1) rs = (if vs_end ?s = ?pe then [] else [\<lparr>vs_start = ?pe, vs_end = vs_end ?s, vs_type = VMEM_FREE, vs_import = False\<rparr>])"
      "\<forall>x \<in> set xs \<union> set ys. vm_seg v1 x = vm_seg v x" "vm_segfree v1 = b1 # b2 # bs \<or> vm_segfree v1 = b2 # bs" "keeps v v1"
    by blast
  from v1(7) obtain c cs where c: "vm_segfree v1 = c # cs" by auto
  have s1: "is_free (vm_seg v1 p)" "vs_start ?s = vs_start (vm_seg v1 p)" using v1(4) s by auto
  from seg_alloc_left [OF v1(2,3) start(1) s1(1) c s1(2), of "end"] obtain v2 p' as where
    v2: "(if vs_start ?s \<noteq> start then
            vbind (vmem_seg_create (Some p) start end VMEM_ALLOC (upd_seg p (vs_end_update (\<lambda>_. start)) v1))
              (\<lambda>(newseg, v). vbind (vmem_freelist_insert p v) (\<lambda>v. Inr (newseg, v))) else Inr (p, v1)) = Inr (p', v2)"
      "links v2 {p'}" "vm_arena v2 = xs @ as @ rs @ ys" "p' \<in> set as"
      "map ((vm_seg v2)(p' := (vm_seg v2 p')\<lparr>vs_end := end, vs_type := VMEM_ALLOC\<rparr>)) as =
         (if vs_start ?s = start then [(vm_seg v1 p)\<lparr>vs_end := end, vs_type := VMEM_ALLOC\<rparr>]
          else [(vm_seg v1 p)\<lparr>vs_end := start\<rparr>, \<lparr>vs_start = start, vs_end = end, vs_type = VMEM_ALLOC, vs_import = False\<rparr>])"
      "\<forall>x \<in> set xs \<union> set (rs @ ys). x \<noteq> p' \<and> vm_seg v2 x = vm_seg v1 x"
      "vm_segfree v2 = c # cs \<or> vm_segfree v2 = cs" "keeps v1 v2"
    by blast
  have "p' \<in> set (vm_arena v2)" using v2(3,4) by simp
  from alloc_finish [OF v2(2) this, of "end"] obtain v3 where
    v3: "vmem_hash_insert p' (upd_seg p' (vs_end_update (\<lambda>_. end)) v2) = v3" "links v3 {}" "vm_arena v3 = vm_arena v2"
      "vm_seg v3 = (vm_seg v2)(p' := (vm_seg v2 p')\<lparr>vs_end := end, vs_type := VMEM_ALLOC\<rparr>)" "keeps v2 v3" "vm_segfree v3 = vm_segfree v2" by blast
  have run: "vmem_seg_alloc p start end v = Inr v3"
  proof -
    have "\<not> (start < vs_start ?s \<or> end - 1 > vs_end ?s - 1 \<or> start - 1 \<ge> end - 1 \<or> ty v p \<noteq> VMEM_FREE)"
      using s start en seg_alloc_guard [OF start(1), of "vs_start ?s" "vs_end ?s" "end"] by blast
    then show ?thesis by (simp only: vmem_seg_alloc_def Let_def if_False v1(1) v2(1) vbind_simps prod.case v3(1))
  qed
  have same: "\<forall>x \<in> set xs \<union> set ys. vm_seg v3 x = vm_seg v x" using v1(6) v2(6) v3(4) by auto
  have rs: "map (vm_seg v3) rs = map (vm_seg v1) rs" using v2(6) v3(4) by auto
  have mid: "map (vm_seg v3) (as @ rs) = carve (vm_quantum v) start end ?s"
    using v2(5) v1(4,5) rs unfolding v3(4) carve_def by auto
  have "segs v3 = map (vm_seg v) xs @ carve (vm_quantum v) start end ?s @ map (vm_seg v) ys"
    using same by (simp add: segs_def v3(3) v2(3) flip: mid)
  moreover have "span_ids v3 = span_ids v"
    by (rule span_ids_replace [of v xs "[p]" ys v3 "as @ rs"])
      (use a v3(3) v2(3) same s mid carve_not_span [OF s] in \<open>auto simp del: map_append\<close>)
  moreover have "length (vm_segfree v) \<le> length (vm_segfree v3) + 2" using v3(6) v2(7) c v1(7) b by auto
  ultimately show ?thesis using run v3(2,5) v1(8) v2(8) by (blast intro: keeps_trans)
qed

subsection \<open>Consequences of the invariant\<close>

lemma inv_parts:
  assumes "vmem_inv v"
  shows "links v {}" "quantum_ok v" "tiles (2 ^ vm_qshift v) (segs v)" "spans_apart (segs v)" "vm_spans v = span_ids v" "totals_ok v"
  using assms by (auto simp: vmem_inv_def layout_ok_def)

lemma inv_distinct: "links v L \<Longrightarrow> distinct (vm_arena v)"
  by (auto simp: links_def pool_ok_def)

lemma inv_apart:
  assumes "vmem_inv v" "p \<in> set (vm_arena v)" "q \<in> set (vm_arena v)" "p \<noteq> q" "ty v p \<noteq> VMEM_SPAN" "ty v q \<noteq> VMEM_SPAN"
  shows "apart (vm_seg v p) (vm_seg v q)"
proof -
  have "sorted_wrt (\<lambda>a b. \<not> is_span a \<longrightarrow> \<not> is_span b \<longrightarrow> apart a b) (segs v)"
    using inv_parts(3,4) [OF assms(1)] by (intro tiles_apart [where c = 0 and e = 0]) (auto simp: tiles_def)
  from sorted_wrt_ids [OF this [unfolded segs_def] assms(2,3,4)] show ?thesis using assms(5,6) by auto
qed

lemma inv_seg:
  assumes "vmem_inv v" "p \<in> set (vm_arena v)"
  shows "lo (vm_seg v p) < hi (vm_seg v p)" "vs_start (vm_seg v p) \<noteq> 0"
    "ty v p = VMEM_FREE \<Longrightarrow> 2 ^ vm_qshift v dvd hi (vm_seg v p)"
proof -
  have t: "tiles_from (2 ^ vm_qshift v) st0 (segs v)" using inv_parts(3) [OF assms(1)] by (simp add: tiles_def)
  have m: "vm_seg v p \<in> set (segs v)" using assms(2) by (simp add: segs_def)
  show "lo (vm_seg v p) < hi (vm_seg v p)" "ty v p = VMEM_FREE \<Longrightarrow> 2 ^ vm_qshift v dvd hi (vm_seg v p)"
    using tiles_nonspan [OF t m] by auto
  show "vs_start (vm_seg v p) \<noteq> 0" using inv_parts(1) [OF assms(1)] assms(2) by (auto simp: links_def pool_ok_def)
qed

lemma inv_start_inj:
  assumes "vmem_inv v" "p \<in> set (vm_arena v)" "q \<in> set (vm_arena v)" "ty v p \<noteq> VMEM_SPAN" "ty v q \<noteq> VMEM_SPAN"
    "vs_start (vm_seg v p) = vs_start (vm_seg v q)"
  shows "p = q"
proof (rule ccontr)
  assume "p \<noteq> q"
  from inv_apart [OF assms(1-3) this assms(4,5)] show False
    using inv_seg(1) [OF assms(1,2)] inv_seg(1) [OF assms(1,3)] assms(6) by (fastforce simp: rng_def disjoint_iff)
qed

lemma seg_size_unat:
  assumes "lo s < hi s" "vs_start s \<noteq> 0"
  shows "unat (seg_size s) = hi s - lo s"
proof (cases "vs_end s = 0")
  case True
  with assms(2) show ?thesis by (simp add: seg_size_def hi_of_alt unat_uminus)
next
  case False
  with assms show ?thesis by (simp add: seg_size_def hi_of_nz unat_sub word_le_nat_alt)
qed

subsection \<open>What an arena holds\<close>

definition seg_allocs :: "vmem_seg list \<Rightarrow> (ulong \<times> ulong) set" where
  "seg_allocs ss = set (map (\<lambda>s. (vs_start s, seg_size s)) (filter is_alloc ss))"

definition vm_allocs :: "vmem \<Rightarrow> (ulong \<times> ulong) set" where
  "vm_allocs v = seg_allocs (segs v)"

definition vm_span_set :: "vmem \<Rightarrow> (ulong \<times> ulong) set" where
  "vm_span_set v = (\<lambda>s. (vs_start s, seg_size s)) ` set (filter is_span (segs v))"

definition block :: "ulong \<times> ulong \<Rightarrow> nat set" where
  "block a = {unat (fst a) ..< unat (fst a) + unat (snd a)}"

lemma seg_allocs_simps [simp]:
  "seg_allocs [] = {}"
  "seg_allocs (s # ss) = (if is_alloc s then insert (vs_start s, seg_size s) (seg_allocs ss) else seg_allocs ss)"
  "seg_allocs (xs @ ys) = seg_allocs xs \<union> seg_allocs ys"
  by (simp_all add: seg_allocs_def image_Un)

lemma seg_allocs_carve:
  assumes "is_free s"
  shows "seg_allocs (carve q start end s) = {(start, end - start)}"
  using assms by (simp add: carve_def seg_size_def)

lemma carve_import: "length (filter vs_import (carve q start end s)) = length (filter vs_import [s])"
  by (simp add: carve_def)

lemma rng_block:
  assumes "lo s < hi s" "vs_start s \<noteq> 0"
  shows "rng s = block (vs_start s, seg_size s)"
  using seg_size_unat [OF assms] assms(1) by (simp add: rng_def block_def)

lemma filter_span_replace:
  "\<forall>s \<in> set A. \<not> is_span s \<Longrightarrow> \<forall>s \<in> set B. \<not> is_span s \<Longrightarrow>
   filter is_span (xs @ A @ ys) = filter is_span (xs @ B @ ys)"
  by (simp add: filter_empty_conv)

text \<open>An operation that replaces segments other than span markers keeps the invariant if it keeps the tiling.\<close>

lemma inv_replace:
  assumes inv: "vmem_inv v" and s: "segs v = xs @ A @ ys" "segs v' = xs @ B @ ys"
    and n: "\<forall>s \<in> set A. \<not> is_span s" "\<forall>s \<in> set B. \<not> is_span s" "length (filter vs_import A) = length (filter vs_import B)"
    and t: "tiles (2 ^ vm_qshift v) (xs @ B @ ys)" and l: "links v' {}" "span_ids v' = span_ids v" "keeps v v'"
  shows "vmem_inv v'"
proof -
  have f: "filter is_span (segs v') = filter is_span (segs v)" using filter_span_replace [OF n(2,1)] s by simp
  have "imp_sum 0 (segs v') = imp_sum 0 (segs v)" unfolding s by (rule imp_sum_replace [OF n(2,1) n(3) [symmetric]])
  with inv l t f show ?thesis
    by (simp add: vmem_inv_def quantum_ok_def layout_ok_def totals_ok_def keeps_def spans_apart_def s(2))
qed

lemma xalloc_take_ok:
  assumes inv: "vmem_inv v" and p: "p \<in> set (vm_arena v)" "is_free (vm_seg v p)" and r: "rq_size r \<noteq> 0"
    and a: "lo (vm_seg v p) \<le> unat addr" "unat addr + unat (rq_size r) \<le> hi (vm_seg v p)" "2 ^ vm_qshift v dvd unat addr"
    and b: "vm_segfree v = b1 # b2 # bs"
  shows "\<exists>v'. xalloc_take r p addr w v = Inr (addr, w, v') \<and> vmem_inv v' \<and> keeps v v' \<and>
     vm_allocs v' = insert (addr, rq_size r) (vm_allocs v) \<and> (addr, rq_size r) \<notin> vm_allocs v \<and>
     vm_span_set v' = vm_span_set v \<and> length (vm_segfree v) \<le> length (vm_segfree v') + 2"
proof -
  let ?s = "vm_seg v p" and ?e = "addr + rq_size r"
  note seg = inv_seg [OF inv p(1)]
  have nz: "addr \<noteq> 0" using a(1) seg(2) by (auto simp: unat_eq_0)
  have sp: "0 < unat (rq_size r)" using r by (simp add: unat_gt_0)
  have he: "hi_of ?e = unat addr + unat (rq_size r)" using hi_of_add r a(2) hi_of_le order_trans by blast
  obtain xs ys where ar: "vm_arena v = xs @ p # ys" using p(1) by (auto simp: in_set_conv_decomp)
  have "p \<in> live v {} VMEM_FREE" using p by (simp add: live_def)
  with inv_parts(1) [OF inv] obtain fm fl where
    del: "vmem_freelist_delete p v = Inr (v\<lparr>vm_freemap := fm, vm_freelist := fl\<rparr>)"
      "links (v\<lparr>vm_freemap := fm, vm_freelist := fl\<rparr>) {p}" by (rule vmem_freelist_delete_ok)
  let ?v = "v\<lparr>vm_freemap := fm, vm_freelist := fl\<rparr>"
  have "\<exists>v'. vmem_seg_alloc p addr ?e ?v = Inr v' \<and> links v' {} \<and>
     segs v' = map (vm_seg ?v) xs @ carve (vm_quantum ?v) addr ?e (vm_seg ?v p) @ map (vm_seg ?v) ys \<and>
     span_ids v' = span_ids ?v \<and> keeps ?v v' \<and> length (vm_segfree ?v) \<le> length (vm_segfree v') + 2"
    by (rule vmem_seg_alloc_ok [OF del(2)])
      (use ar inv_parts(2) [OF inv] p(2) nz a he sp seg(3) b in \<open>auto simp: quantum_ok_def\<close>)
  then obtain v' where v': "vmem_seg_alloc p addr ?e ?v = Inr v'" "links v' {}"
     "segs v' = map (vm_seg v) xs @ carve (vm_quantum v) addr ?e ?s @ map (vm_seg v) ys"
     "span_ids v' = span_ids v" "keeps ?v v'" "length (vm_segfree v) \<le> length (vm_segfree v') + 2" by auto
  have k: "keeps v v'" using v'(5) by (simp add: keeps_def seg_reserve_def seg_ids_def)
  have s: "segs v = map (vm_seg v) xs @ [?s] @ map (vm_seg v) ys" by (simp add: segs_def ar)
  have q: "vm_quantum v = 2 ^ vm_qshift v" "vm_qshift v < 64" using inv_parts(2) [OF inv] by (auto simp: quantum_ok_def)
  have t: "tiles (2 ^ vm_qshift v) (map (vm_seg v) xs @ carve (vm_quantum v) addr ?e ?s @ map (vm_seg v) ys)"
    using tiles_carve [of "vm_qshift v" st0 "map (vm_seg v) xs" ?s "map (vm_seg v) ys" addr ?e] inv_parts(3) [OF inv] s q p(2) a nz he sp
    by (simp add: tiles_def)
  have "vmem_inv v'"
    by (rule inv_replace [OF inv s v'(3) _ _ _ t v'(2,4) k]) (use p(2) carve_not_span carve_import in auto)
  moreover have al: "vm_allocs v' = insert (addr, rq_size r) (vm_allocs v)"
    using p(2) by (simp add: vm_allocs_def v'(3) s seg_allocs_carve)
  moreover have "(addr, rq_size r) \<notin> vm_allocs v"
  proof
    assume "(addr, rq_size r) \<in> vm_allocs v"
    then obtain x where x: "x \<in> set (vm_arena v)" "is_alloc (vm_seg v x)" "vs_start (vm_seg v x) = addr"
      by (auto simp: vm_allocs_def seg_allocs_def segs_def)
    with p(2) have "x \<noteq> p" by auto
    from inv_apart [OF inv x(1) p(1) this] x p(2) have "apart (vm_seg v x) ?s" by simp
    moreover have "unat addr \<in> rng (vm_seg v x)" "unat addr \<in> rng ?s"
      using inv_seg(1) [OF inv x(1)] x(3) a sp by (auto simp: rng_def)
    ultimately show False by blast
  qed
  moreover have "vm_span_set v' = vm_span_set v"
    using filter_span_replace [of "carve (vm_quantum v) addr ?e ?s" "[?s]"] carve_not_span [OF p(2)] p(2)
    by (simp add: vm_span_set_def v'(3) s)
  ultimately show ?thesis using k v'(1,6) del(1) by (simp add: xalloc_take_def)
qed

end
