(* ===== verification/Vmem_Free.thy ===== *)
theory Vmem_Free
  imports Vmem_Ops
begin

section \<open>Vmem: freeing\<close>

text \<open>
  \<open>vmem_xfree()\<close>: the freed segment leaves the hash table, is joined with its free neighbours, and
  either goes to a freelist or takes its span with it.
\<close>

lemma next_in_arena:
  assumes "links v L" "vm_arena v = xs @ p # ys"
  shows "next_in p (vm_arena v) = (case ys of [] \<Rightarrow> None | z # _ \<Rightarrow> Some z)" "prev_in p (vm_arena v) = last_opt xs" "p \<notin> set xs" "p \<notin> set ys"
proof -
  have d: "distinct (xs @ p # ys)" using inv_distinct [OF assms(1)] assms(2) by simp
  then show "p \<notin> set xs" "p \<notin> set ys" by auto
  then show "next_in p (vm_arena v) = (case ys of [] \<Rightarrow> None | z # _ \<Rightarrow> Some z)" "prev_in p (vm_arena v) = last_opt xs"
    using assms(2) by (simp_all add: next_in_split prev_in_split)
qed

lemma tiles_second_import:
  assumes "tiles q (xs @ a # b # ys)" "\<not> is_span a" "\<not> is_span b"
  shows "\<not> vs_import b"
  using assms by (auto simp: tiles_def tiles_at tiles_from_Cons split: if_splits)

lemma segs_split: "vm_arena v = xs @ ys \<Longrightarrow> segs v = map (vm_seg v) xs @ map (vm_seg v) ys"
  by (simp add: segs_def)

lemma coalesce_next_ok:
  assumes l: "links v {p}" and a: "vm_arena v = xs @ p # ys" and t: "tiles q (segs v)" and s: "is_alloc (vm_seg v p)"
    and q: "0 < q" "q dvd hi (vm_seg v p)"
  shows "\<exists>v' ns ys'. coalesce_next p v = Inr v' \<and> links v' {p} \<and> ys = ns @ ys' \<and> vm_arena v' = xs @ p # ys' \<and>
     tiles q (segs v') \<and> is_alloc (vm_seg v' p) \<and> vs_start (vm_seg v' p) = vs_start (vm_seg v p) \<and>
     vs_import (vm_seg v' p) = vs_import (vm_seg v p) \<and> q dvd hi (vm_seg v' p) \<and>
     (ys' = [] \<or> \<not> is_free (vm_seg v (hd ys'))) \<and> (\<forall>x \<in> set xs \<union> set ys'. vm_seg v' x = vm_seg v x) \<and>
     (\<forall>x \<in> set ns. is_free (vm_seg v x) \<and> \<not> vs_import (vm_seg v x)) \<and> keeps v v' \<and> length (vm_segfree v) \<le> length (vm_segfree v')"
proof (cases "\<exists>n ys'. ys = n # ys' \<and> is_free (vm_seg v n)")
  case False
  then have "coalesce_next p v = Inr v"
    by (auto simp: coalesce_next_def next_in_arena [OF l a] split: list.splits option.splits)
  with False l a t s q show ?thesis by (intro exI [of _ v] exI [of _ "[]"] exI [of _ ys]) (cases ys; auto)
next
  case True
  then obtain n ys' where ys: "ys = n # ys'" "is_free (vm_seg v n)" by blast
  have d: "distinct (xs @ p # n # ys')" using inv_distinct [OF l] a ys by simp
  have "n \<in> live v {p} VMEM_FREE" using d a ys by (auto simp: live_def)
  with l obtain fm fl where del: "vmem_freelist_delete n v = Inr (v\<lparr>vm_freemap := fm, vm_freelist := fl\<rparr>)"
      "links (v\<lparr>vm_freemap := fm, vm_freelist := fl\<rparr>) {n, p}" by (rule vmem_freelist_delete_ok)
  let ?v1 = "v\<lparr>vm_freemap := fm, vm_freelist := fl\<rparr>"
  let ?v2 = "upd_seg p (vs_end_update (\<lambda>_. vs_end (vm_seg v n))) ?v1"
  define v' where "v' = vmem_seg_destroy n ?v2"
  have run: "coalesce_next p v = Inr v'"
    using del(1) ys by (simp add: v'_def coalesce_next_def next_in_arena [OF l a])
  have "links ?v2 {n, p}" by (rule links_set_end [OF del(2)]) simp
  from links_remove [OF this, of n] a ys d have l': "links v' {p}" by (simp add: v'_def insert_Diff_if)
  have rm: "remove1 n (xs @ p # n # ys') = xs @ p # ys'" using d by (simp add: remove1_append)
  have ar: "vm_arena v' = xs @ p # ys'"
    using a ys(1) rm by (simp add: v'_def vmem_seg_destroy_def vmem_putseg_def)
  have sg: "vm_seg v' = (vm_seg v)(p := (vm_seg v p)\<lparr>vs_end := vs_end (vm_seg v n)\<rparr>)"
    by (simp add: v'_def vmem_seg_destroy_def vmem_putseg_def)
  have S: "segs v = map (vm_seg v) xs @ vm_seg v p # vm_seg v n # map (vm_seg v) ys'" by (simp add: segs_def a ys(1))
  have S': "segs v' = map (vm_seg v) xs @ (vm_seg v p)\<lparr>vs_end := vs_end (vm_seg v n)\<rparr> # map (vm_seg v) ys'"
    using d by (auto simp: segs_def ar sg)
  have T: "tiles q (segs v') \<and> (map (vm_seg v) ys' = [] \<or> \<not> is_free (hd (map (vm_seg v) ys')))"
    unfolding S' tiles_def by (rule tiles_merge_next [OF t [unfolded S tiles_def] s ys(2) q(1)]) (use s in auto)
  have im: "\<not> vs_import (vm_seg v n)" using tiles_second_import [OF t [unfolded S]] s ys(2) by simp
  have dv: "q dvd hi (vm_seg v n)"
    using tiles_nonspan(2) [of q 0 0 False False "segs v" "vm_seg v n"] t S q(1) ys(2) by (simp add: tiles_def)
  have "vm_segfree v' = n # vm_segfree v" by (simp add: v'_def vmem_seg_destroy_def vmem_putseg_def)
  then have "seg_ids v' = seg_ids v" unfolding seg_ids_def ar a ys(1) by auto
  then have k: "keeps v v'" "length (vm_segfree v) \<le> length (vm_segfree v')"
    by (simp_all add: v'_def keeps_def seg_reserve_def vmem_seg_destroy_def vmem_putseg_def)
  have hd: "ys' = [] \<or> \<not> is_free (vm_seg v (hd ys'))" using T by (cases ys') auto
  show ?thesis
    by (rule exI [of _ v'], rule exI [of _ "[n]"], rule exI [of _ ys'])
      (use run l' ys ar T s im dv k hd d in \<open>auto simp: sg\<close>)
qed

lemma coalesce_prev_ok:
  assumes l: "links v {p}" and a: "vm_arena v = xs @ p # ys" and t: "tiles q (segs v)" and s: "is_alloc (vm_seg v p)"
    and q: "0 < q" "q dvd hi (vm_seg v p)" and ys: "ys = [] \<or> \<not> is_free (vm_seg v (hd ys))"
  shows "\<exists>v' p' xs' ps. coalesce_prev p v = Inr (p', v') \<and> links v' {p'} \<and> xs @ [p] = xs' @ ps @ [p] \<and> vm_arena v' = xs' @ p' # ys \<and>
     tiles q (map (vm_seg v) xs' @ (vm_seg v' p')\<lparr>vs_type := VMEM_FREE\<rparr> # map (vm_seg v) ys) \<and> q dvd hi (vm_seg v' p') \<and>
     \<not> is_span (vm_seg v' p') \<and> (\<forall>x \<in> set xs' \<union> set ys. vm_seg v' x = vm_seg v x) \<and>
     vs_start (vm_seg v' p') = vs_start (vm_seg v (hd (ps @ [p]))) \<and>
     vs_import (vm_seg v' p') = vs_import (vm_seg v (hd (ps @ [p]))) \<and>
     (\<forall>x \<in> set ps. is_free (vm_seg v x)) \<and> (\<forall>x \<in> set (tl (ps @ [p])). \<not> vs_import (vm_seg v x)) \<and>
     p' \<notin> set xs' \<and> p' \<notin> set ys \<and> keeps v v' \<and> length (vm_segfree v) \<le> length (vm_segfree v')"
proof (cases "\<exists>xs' pp. xs = xs' @ [pp] \<and> is_free (vm_seg v pp)")
  case False
  have nf: "xs = [] \<or> \<not> is_free (vm_seg v (last xs))"
    using False by (cases xs rule: rev_cases) auto
  then have run: "coalesce_prev p v = Inr (p, v)"
    by (auto simp: coalesce_prev_def next_in_arena [OF l a] last_opt_def)
  have S: "segs v = map (vm_seg v) xs @ vm_seg v p # map (vm_seg v) ys" by (simp add: segs_def a)
  have n1: "map (vm_seg v) ys = [] \<or> \<not> is_free (hd (map (vm_seg v) ys))" using ys by (cases ys) auto
  have n2: "map (vm_seg v) xs = [] \<or> \<not> is_free (last (map (vm_seg v) xs))" using nf by (cases "xs = []") (auto simp: last_map)
  have "tiles q (map (vm_seg v) xs @ (vm_seg v p)\<lparr>vs_type := VMEM_FREE\<rparr> # map (vm_seg v) ys)"
    by (rule tiles_set_free [OF t [unfolded S] s q _ _ _ _ n1 n2]) auto
  with run l a q s next_in_arena(3,4) [OF l a] show ?thesis
    by (intro exI [of _ v] exI [of _ p] exI [of _ xs] exI [of _ "[]"]) auto
next
  case True
  then obtain xs' pp where xs: "xs = xs' @ [pp]" "is_free (vm_seg v pp)" by blast
  have d: "distinct (xs' @ pp # p # ys)" using inv_distinct [OF l] a xs by simp
  have "pp \<in> live v {p} VMEM_FREE" using d a xs by (auto simp: live_def)
  with l obtain fm fl where del: "vmem_freelist_delete pp v = Inr (v\<lparr>vm_freemap := fm, vm_freelist := fl\<rparr>)"
      "links (v\<lparr>vm_freemap := fm, vm_freelist := fl\<rparr>) {pp, p}" by (rule vmem_freelist_delete_ok)
  let ?v1 = "v\<lparr>vm_freemap := fm, vm_freelist := fl\<rparr>"
  let ?v2 = "upd_seg pp (vs_end_update (\<lambda>_. vs_end (vm_seg v p))) ?v1"
  define v' where "v' = vmem_seg_destroy p ?v2"
  have run: "coalesce_prev p v = Inr (pp, v')"
    using del(1) xs by (simp add: v'_def coalesce_prev_def next_in_arena [OF l a] last_opt_def)
  have "links ?v2 {pp, p}" by (rule links_set_end [OF del(2)]) simp
  from links_remove [OF this, of p] a xs d have l': "links v' {pp}" by (simp add: v'_def insert_Diff_if)
  have rm: "remove1 p (xs' @ pp # p # ys) = xs' @ pp # ys" using d by (simp add: remove1_append)
  have ar: "vm_arena v' = xs' @ pp # ys"
    using a xs(1) rm by (simp add: v'_def vmem_seg_destroy_def vmem_putseg_def)
  have sg: "vm_seg v' = (vm_seg v)(pp := (vm_seg v pp)\<lparr>vs_end := vs_end (vm_seg v p)\<rparr>)"
    by (simp add: v'_def vmem_seg_destroy_def vmem_putseg_def)
  have S: "segs v = map (vm_seg v) xs' @ vm_seg v pp # vm_seg v p # map (vm_seg v) ys" by (simp add: segs_def a xs(1))
  have n1: "map (vm_seg v) ys = [] \<or> \<not> is_free (hd (map (vm_seg v) ys))" using ys by (cases ys) auto
  have T: "tiles q (map (vm_seg v) xs' @ (vm_seg v' pp)\<lparr>vs_type := VMEM_FREE\<rparr> # map (vm_seg v) ys)"
    unfolding tiles_def by (rule tiles_merge_prev [OF t [unfolded S tiles_def] s xs(2) q]) (use n1 sg in auto)
  have im: "\<not> vs_import (vm_seg v p)" using tiles_second_import [OF t [unfolded S]] s xs(2) by simp
  have "vm_segfree v' = p # vm_segfree v" by (simp add: v'_def vmem_seg_destroy_def vmem_putseg_def)
  then have "seg_ids v' = seg_ids v" unfolding seg_ids_def ar a xs(1) by auto
  then have k: "keeps v v'" "length (vm_segfree v) \<le> length (vm_segfree v')"
    by (simp_all add: v'_def keeps_def seg_reserve_def vmem_seg_destroy_def vmem_putseg_def)
  show ?thesis
    by (rule exI [of _ v'], rule exI [of _ pp], rule exI [of _ xs'], rule exI [of _ "[pp]"])
      (use run l' xs ar T s q im k d in \<open>auto simp: sg\<close>)
qed

lemma alloc_segE:
  assumes "vmem_inv v" "(addr, sz) \<in> vm_allocs v"
  obtains p where "p \<in> live v {} VMEM_ALLOC" "vs_start (vm_seg v p) = addr" "VS_SIZE v p = sz"
    "\<And>q. q \<in> live v {} VMEM_ALLOC \<Longrightarrow> vs_start (vm_seg v q) = addr \<Longrightarrow> q = p"
proof -
  from assms(2) obtain p where p: "p \<in> set (vm_arena v)" "is_alloc (vm_seg v p)" "vs_start (vm_seg v p) = addr" "seg_size (vm_seg v p) = sz"
    by (auto simp: vm_allocs_def seg_allocs_def segs_def)
  show thesis
  proof (rule that [of p])
    show "q = p" if "q \<in> live v {} VMEM_ALLOC" "vs_start (vm_seg v q) = addr" for q
      using that p by (intro inv_start_inj [OF assms(1)]) (auto simp: live_def)
  qed (use p in \<open>auto simp: live_def VS_SIZE_def\<close>)
qed

lemma vs_end_update_eq: "vs_end_update f s = s\<lparr>vs_end := f (vs_end s)\<rparr>"
  by (cases s) simp

lemma import_count:
  assumes "hs \<noteq> []" "\<forall>x \<in> set (tl hs). \<not> vs_import x" "\<forall>x \<in> set ns. \<not> vs_import x" "vs_import m = vs_import (hd hs)"
  shows "length (filter vs_import (hs @ ns)) = length (filter vs_import [m])"
proof -
  have "filter vs_import (tl hs) = []" "filter vs_import ns = []" using assms(2,3) by (auto simp: filter_empty_conv)
  with assms(1,4) show ?thesis by (cases hs) auto
qed

lemma rup_rup: "0 < q \<Longrightarrow> rup q (rup q n) = rup q n"
  by simp

lemma xfree_coalesce_ok:
  assumes inv: "vmem_inv v" and al: "(addr, sz) \<in> vm_allocs v"
  shows "\<exists>p' v' is js A. xfree_coalesce addr sz v = Inr (p', v') \<and> links v' {p'} \<and> vm_arena v' = is @ p' # js \<and>
     segs v = map (vm_seg v') is @ A @ map (vm_seg v') js \<and>
     tiles (2 ^ vm_qshift v) (map (vm_seg v') is @ [(vm_seg v' p')\<lparr>vs_type := VMEM_FREE\<rparr>] @ map (vm_seg v') js) \<and>
     2 ^ vm_qshift v dvd hi (vm_seg v' p') \<and> \<not> is_span (vm_seg v' p') \<and> (\<forall>s \<in> set A. \<not> is_span s) \<and>
     length (filter vs_import A) = length (filter vs_import [vm_seg v' p']) \<and> seg_allocs A = {(addr, sz)} \<and>
     span_ids v' = span_ids v \<and> keeps v v' \<and> length (vm_segfree v) \<le> length (vm_segfree v')"
proof -
  let ?q = "2 ^ vm_qshift v :: nat"
  from alloc_segE [OF inv al] obtain p where p: "p \<in> live v {} VMEM_ALLOC" "vs_start (vm_seg v p) = addr" "VS_SIZE v p = sz"
    and u: "\<And>q. q \<in> live v {} VMEM_ALLOC \<Longrightarrow> vs_start (vm_seg v q) = addr \<Longrightarrow> q = p" by blast
  from vmem_hash_delete_ok [OF inv_parts(1) [OF inv] p u] obtain ht ks where
    h: "vmem_hash_delete addr sz v = Inr (p, v\<lparr>vm_hash_table := ht, vm_kstat := ks\<rparr>)"
      "links (v\<lparr>vm_hash_table := ht, vm_kstat := ks\<rparr>) {p}" "same_totals (vm_kstat v) ks" by blast
  define v2 where "v2 = upd_seg p (vs_end_update (\<lambda>e. P2ROUNDUP e (vm_quantum v))) (v\<lparr>vm_hash_table := ht, vm_kstat := ks\<rparr>)"
  have l2: "links v2 {p}" unfolding v2_def by (rule links_set_end [OF h(2)]) simp
  have pa: "p \<in> set (vm_arena v)" "is_alloc (vm_seg v p)" using p(1) by (auto simp: live_def)
  obtain xs ys where ar: "vm_arena v = xs @ p # ys" using pa(1) by (auto simp: in_set_conv_decomp)
  have np: "p \<notin> set xs" "p \<notin> set ys" using inv_distinct [OF inv_parts(1) [OF inv]] ar by auto
  have q: "vm_quantum v = 2 ^ vm_qshift v" "vm_qshift v < 64" using inv_parts(2) [OF inv] by (auto simp: quantum_ok_def)
  have s2: "vm_seg v2 = (vm_seg v)(p := (vm_seg v p)\<lparr>vs_end := P2ROUNDUP (vs_end (vm_seg v p)) (2 ^ vm_qshift v)\<rparr>)" "vm_arena v2 = xs @ p # ys"
    using q ar by (simp_all add: v2_def vs_end_update_eq [of "\<lambda>e. P2ROUNDUP e (2 ^ vm_qshift v)"])
  have h2: "hi (vm_seg v2 p) = rup ?q (hi (vm_seg v p))" using q(2) by (simp add: s2 hi_of_P2ROUNDUP)
  have S: "segs v = map (vm_seg v) xs @ vm_seg v p # map (vm_seg v) ys" by (simp add: segs_def ar)
  have t2: "tiles ?q (segs v2)"
  proof -
    have "0 < ?q" by simp
    from rup_ge [OF this] have lt: "lo (vm_seg v p) < hi (vm_seg v2 p)"
      unfolding h2 by (rule less_le_trans [OF inv_seg(1) [OF inv pa(1)]])
    have f: "is_alloc (vm_seg v2 p)" "lo (vm_seg v2 p) = lo (vm_seg v p)" "vs_import (vm_seg v2 p) = vs_import (vm_seg v p)"
      using pa(2) by (simp_all add: s2)
    have r: "rup ?q (hi (vm_seg v2 p)) = rup ?q (hi (vm_seg v p))" unfolding h2 by (rule rup_rup) simp
    have "tiles_from ?q st0 (map (vm_seg v) xs @ vm_seg v2 p # map (vm_seg v) ys)"
      by (rule tiles_resize [OF inv_parts(3) [OF inv, unfolded tiles_def S] pa(2) f(1,2) lt r f(3)])
    moreover have "segs v2 = map (vm_seg v) xs @ vm_seg v2 p # map (vm_seg v) ys" using np by (auto simp: segs_def s2)
    ultimately show ?thesis by (simp add: tiles_def)
  qed
  have k2: "keeps v v2" using h(3) by (simp add: v2_def keeps_def seg_reserve_def seg_ids_def)
  have a2: "is_alloc (vm_seg v2 p)" "?q dvd hi (vm_seg v2 p)" using pa(2) h2 by (simp_all add: s2)
  from coalesce_next_ok [OF l2 s2(2) t2 a2(1) _ a2(2)] obtain v3 ns ys' where
    v3: "coalesce_next p v2 = Inr v3" "links v3 {p}" "ys = ns @ ys'" "vm_arena v3 = xs @ p # ys'" "tiles ?q (segs v3)"
      "is_alloc (vm_seg v3 p)" "vs_import (vm_seg v3 p) = vs_import (vm_seg v2 p)" "?q dvd hi (vm_seg v3 p)"
      "ys' = [] \<or> \<not> is_free (vm_seg v2 (hd ys'))" "\<forall>x \<in> set xs \<union> set ys'. vm_seg v3 x = vm_seg v2 x"
      "\<forall>x \<in> set ns. is_free (vm_seg v2 x) \<and> \<not> vs_import (vm_seg v2 x)" "keeps v2 v3"
      "length (vm_segfree v2) \<le> length (vm_segfree v3)" by auto
  have "ys' = [] \<or> \<not> is_free (vm_seg v3 (hd ys'))" using v3(9,10) by (cases ys') auto
  from coalesce_prev_ok [OF v3(2,4,5,6) _ v3(8) this] obtain v4 p' xs' ps where
    v4: "coalesce_prev p v3 = Inr (p', v4)" "links v4 {p'}" "xs @ [p] = xs' @ ps @ [p]" "vm_arena v4 = xs' @ p' # ys'"
      "tiles ?q (map (vm_seg v3) xs' @ (vm_seg v4 p')\<lparr>vs_type := VMEM_FREE\<rparr> # map (vm_seg v3) ys')" "?q dvd hi (vm_seg v4 p')"
      "\<not> is_span (vm_seg v4 p')" "\<forall>x \<in> set xs' \<union> set ys'. vm_seg v4 x = vm_seg v3 x"
      "vs_import (vm_seg v4 p') = vs_import (vm_seg v3 (hd (ps @ [p])))"
      "\<forall>x \<in> set ps. is_free (vm_seg v3 x)" "\<forall>x \<in> set (tl (ps @ [p])). \<not> vs_import (vm_seg v3 x)" "keeps v3 v4"
      "length (vm_segfree v3) \<le> length (vm_segfree v4)" by auto
  have xs: "xs = xs' @ ps" using v4(3) by simp
  have same: "vm_seg v4 x = vm_seg v x" if "x \<in> set xs' \<union> set ys'" for x
    using that v4(8) v3(10) xs np v3(3) by (auto simp: s2)
  have hs: "vm_seg v3 x = vm_seg v x" if "x \<in> set ps" for x using that v3(10) xs np by (auto simp: s2)
  have imp3: "vs_import (vm_seg v3 x) = vs_import (vm_seg v x)" if "x \<in> set (ps @ [p])" for x
    using that hs v3(7) by (auto simp: s2)
  have ns: "is_free (vm_seg v x)" "\<not> vs_import (vm_seg v x)" if "x \<in> set ns" for x
  proof -
    have "x \<noteq> p" using that np(2) v3(3) by auto
    then have "vm_seg v2 x = vm_seg v x" by (simp add: s2)
    with v3(11) that show "is_free (vm_seg v x)" "\<not> vs_import (vm_seg v x)" by auto
  qed
  let ?A = "map (vm_seg v) (ps @ [p]) @ map (vm_seg v) ns"
  have S': "segs v = map (vm_seg v4) xs' @ ?A @ map (vm_seg v4) ys'" using same by (simp add: S xs v3(3))
  have nA: "\<forall>s \<in> set ?A. \<not> is_span s" using hs v4(10) pa(2) ns(1) by auto
  have fps: "filter is_alloc (map (vm_seg v) ps) = []" "filter is_alloc (map (vm_seg v) ns) = []"
    using hs v4(10) ns(1) by (auto simp: filter_empty_conv)
  have cA: "seg_allocs ?A = {(addr, sz)}"
    using fps pa(2) p(2,3) by (simp add: seg_allocs_def VS_SIZE_def)
  have iA: "length (filter vs_import ?A) = length (filter vs_import [vm_seg v4 p'])"
  proof (rule import_count)
    show "\<forall>x \<in> set (tl (map (vm_seg v) (ps @ [p]))). \<not> vs_import x"
    proof -
      have "\<not> vs_import (vm_seg v x)" if x: "x \<in> set (tl (ps @ [p]))" for x
        using v4(11) imp3 [of x] x list.set_sel(2) [of "ps @ [p]" x] by simp
      then show ?thesis by (simp only: map_tl [symmetric] set_map ball_simps) simp
    qed
    show "vs_import (vm_seg v4 p') = vs_import (hd (map (vm_seg v) (ps @ [p])))"
      using v4(9) imp3 by (cases ps) simp_all
  qed (use ns(2) in auto)
  have T: "tiles ?q (map (vm_seg v4) xs' @ [(vm_seg v4 p')\<lparr>vs_type := VMEM_FREE\<rparr>] @ map (vm_seg v4) ys')"
  proof -
    have "map (vm_seg v3) xs' = map (vm_seg v4) xs'" "map (vm_seg v3) ys' = map (vm_seg v4) ys'" using v4(8) by auto
    with v4(5) show ?thesis by simp
  qed
  have sp: "span_ids v4 = span_ids v"
    by (rule span_ids_replace [of v xs' "ps @ [p] @ ns" ys' v4 "[p']"])
      (use ar xs v3(3) v4(4,7) same nA in auto)
  have run: "xfree_coalesce addr sz v = Inr (p', v4)"
    using h(1) v3(1) v4(1) by (simp add: xfree_coalesce_def v2_def)
  have "keeps v v4" using k2 v3(12) v4(12) by (blast intro: keeps_trans)
  moreover have "length (vm_segfree v) \<le> length (vm_segfree v4)" using v3(13) v4(13) by (simp add: v2_def)
  ultimately show ?thesis using run v4(2,4,6,7) S' T nA iA cA sp
    by (intro exI [of _ p'] exI [of _ v4] exI [of _ xs'] exI [of _ ys'] exI [of _ ?A] conjI)
qed

lemma span_limbo:
  assumes "links v L" "ty v p = VMEM_SPAN"
  shows "links v (insert p L)"
proof -
  have "p \<notin> live v L VMEM_ALLOC" "p \<notin> live v L VMEM_FREE" using assms(2) by (auto simp: live_def)
  with assms(1) show ?thesis
    by (simp add: links_def flist_ok_def hash_ok_def inuse_ok_def live_take)
qed

lemma imp_sum_span_first:
  "ys = [] \<or> is_span (hd ys) \<Longrightarrow> imp_sum y ys = imp_sum z ys"
  by (cases ys) auto

lemma vmem_span_destroy_ok:
  assumes l: "links v {p}" and a: "vm_arena v = is @ sp # p # js" and sp: "ty v sp = VMEM_SPAN"
  shows "\<exists>v'. vmem_span_destroy p v = Inr v' \<and> links v' {} \<and> vm_arena v' = is @ js \<and> vm_seg v' = vm_seg v \<and>
     vm_spans v' = remove1 sp (vm_spans v) \<and> vm_quantum v' = vm_quantum v \<and> vm_qshift v' = vm_qshift v \<and>
     vk_mem_total (vm_kstat v') = vk_mem_total (vm_kstat v) - VS_SIZE v p \<and>
     vk_mem_import (vm_kstat v') = (if vs_import (vm_seg v p) then vk_mem_import (vm_kstat v) - VS_SIZE v p else vk_mem_import (vm_kstat v)) \<and>
     seg_reserve v' = seg_reserve v \<and> length (vm_segfree v) \<le> length (vm_segfree v') \<and> seg_ids v' = seg_ids v"
proof -
  have d: "distinct (is @ sp # p # js)" using inv_distinct [OF l] a by simp
  let ?k = "(vm_kstat v)\<lparr>vk_mem_import := (if vs_import (vm_seg v p) then vk_mem_import (vm_kstat v) - VS_SIZE v p else vk_mem_import (vm_kstat v)),
       vk_mem_total := vk_mem_total (vm_kstat v) - VS_SIZE v p\<rparr>"
  define v1 where "v1 = v\<lparr>vm_kstat := ?k, vm_spans := remove1 sp (vm_spans v)\<rparr>"
  have l1: "links v1 {p}" using l by (simp add: v1_def links_frame_kstat)
  have a1: "vm_arena v1 = is @ sp # p # js" using a by (simp add: v1_def)
  have l2: "links (vmem_seg_destroy p v1) {}" using links_remove [OF l1, of p] a1 by simp
  have a2: "vm_arena (vmem_seg_destroy p v1) = is @ sp # js"
    using d by (simp add: vmem_seg_destroy_def vmem_putseg_def a1 remove1_append)
  have "links (vmem_seg_destroy p v1) {sp}"
    using span_limbo [OF l2, of sp] sp by (simp add: vmem_seg_destroy_def vmem_putseg_def v1_def)
  from links_remove [OF this, of sp] a2 have l3: "links (vmem_seg_destroy sp (vmem_seg_destroy p v1)) {}" by simp
  have a3: "vm_arena (vmem_seg_destroy sp (vmem_seg_destroy p v1)) = is @ js"
    using d by (simp add: vmem_seg_destroy_def vmem_putseg_def a1 remove1_append)
  have pr: "prev_in p (vm_arena v) = Some sp"
    using d prev_in_split [of p "is @ [sp]" js] by (simp add: a last_opt_def)
  have run: "vmem_span_destroy p v = Inr (vmem_seg_destroy sp (vmem_seg_destroy p v1))"
    by (simp add: vmem_span_destroy_def pr Let_def v1_def)
  have "vm_segfree (vmem_seg_destroy sp (vmem_seg_destroy p v1)) = sp # p # vm_segfree v"
    by (simp add: vmem_seg_destroy_def vmem_putseg_def v1_def)
  then have ids: "seg_ids (vmem_seg_destroy sp (vmem_seg_destroy p v1)) = seg_ids v" unfolding seg_ids_def a3 a by auto
  show ?thesis
    by (rule exI, rule conjI [OF run]) (use l3 a3 ids in \<open>simp add: vmem_seg_destroy_def vmem_putseg_def v1_def seg_reserve_def\<close>)
qed

lemma sorted_wrt_mid:
  assumes "sorted_wrt R (xs @ A @ ys)" "z \<in> set A"
  shows "x \<in> set xs \<Longrightarrow> R x z" "x \<in> set ys \<Longrightarrow> R z x"
  using assms by (simp_all add: sorted_wrt_append)

lemma allocs_remove:
  assumes inv: "vmem_inv v" and s: "segs v = xs @ A @ ys" and A: "seg_allocs A = {(addr, sz)}"
  shows "seg_allocs xs \<union> seg_allocs ys = vm_allocs v - {(addr, sz)}"
proof -
  have srt: "sorted_wrt (\<lambda>a b. \<not> is_span a \<longrightarrow> \<not> is_span b \<longrightarrow> apart a b) (xs @ A @ ys)"
    using inv_parts(3,4) [OF inv] s by (intro tiles_apart [where c = 0 and e = 0]) (auto simp: tiles_def)
  have ne: "lo x < hi x" if "x \<in> set (xs @ A @ ys)" for x
    using tiles_nonspan(1) [of "2 ^ vm_qshift v" 0 0 False False "segs v" x] inv_parts(3) [OF inv] that s by (simp add: tiles_def)
  from A obtain z where z: "z \<in> set A" "is_alloc z" "vs_start z = addr"
    by (auto simp: seg_allocs_def dest!: equalityD2)
  have "vs_start x \<noteq> addr" if x: "x \<in> set xs \<union> set ys" "is_alloc x" for x
  proof
    assume "vs_start x = addr"
    then have eq: "lo x = lo z" using z(3) by simp
    have ns: "\<not> is_span x" "\<not> is_span z" using x(2) z(2) by simp_all
    have "apart x z"
      using x(1) sorted_wrt_mid [OF srt z(1), of x] ns by (auto simp: Int_commute)
    moreover have "lo x \<in> rng x" "lo x \<in> rng z" using ne [of x] ne [of z] x(1) z(1) eq by (auto simp: rng_def)
    ultimately show False by blast
  qed
  then have "(addr, sz) \<notin> seg_allocs xs \<union> seg_allocs ys" by (auto simp: seg_allocs_def)
  then show ?thesis using A by (auto simp: vm_allocs_def s)
qed

lemma free_insert_inv:
  assumes inv: "vmem_inv v" and l: "links v1 {p}" and a: "vm_arena v1 = is @ p # js"
    and s: "segs v = map (vm_seg v1) is @ A @ map (vm_seg v1) js"
    and t: "tiles (2 ^ vm_qshift v) (map (vm_seg v1) is @ [(vm_seg v1 p)\<lparr>vs_type := VMEM_FREE\<rparr>] @ map (vm_seg v1) js)"
    and ns: "\<not> is_span (vm_seg v1 p)" "\<forall>s \<in> set A. \<not> is_span s" "length (filter vs_import A) = length (filter vs_import [vm_seg v1 p])"
    and sp: "span_ids v1 = span_ids v" and k: "keeps v v1"
  shows "\<exists>v'. vmem_freelist_insert p v1 = Inr v' \<and> vmem_inv v' \<and> keeps v v' \<and> vm_segfree v' = vm_segfree v1 \<and>
     segs v' = map (vm_seg v1) is @ [(vm_seg v1 p)\<lparr>vs_type := VMEM_FREE\<rparr>] @ map (vm_seg v1) js"
proof -
  let ?m = "(vm_seg v1 p)\<lparr>vs_type := VMEM_FREE\<rparr>"
  have nz: "vs_start (vm_seg v1 p) \<noteq> 0" using l a by (auto simp: links_def pool_ok_def)
  have "lo ?m < hi ?m"
    using tiles_nonspan(1) [of "2 ^ vm_qshift v" 0 0 False False _ ?m] t by (simp add: tiles_def)
  then have "0 < unat (seg_size ?m)" using seg_size_unat [of ?m] nz by simp
  then have sz: "VS_SIZE v1 p \<noteq> 0" by (auto simp: VS_SIZE_def seg_size_def)
  have m: "p \<in> set (vm_arena v1)" "p \<in> {p}" using a by auto
  obtain fm fl where f: "vmem_freelist_insert p v1 = Inr ((set_type p VMEM_FREE v1)\<lparr>vm_freemap := fm, vm_freelist := fl\<rparr>)"
      "links ((set_type p VMEM_FREE v1)\<lparr>vm_freemap := fm, vm_freelist := fl\<rparr>) ({p} - {p})"
    by (rule vmem_freelist_insert_ok [OF l m sz])
  define v' where "v' = (set_type p VMEM_FREE v1)\<lparr>vm_freemap := fm, vm_freelist := fl\<rparr>"
  have d: "p \<notin> set is" "p \<notin> set js" using inv_distinct [OF l] a by auto
  have sg: "vm_seg v' = (vm_seg v1)(p := ?m)" "vm_arena v' = is @ p # js" by (simp_all add: v'_def a)
  have S: "segs v' = map (vm_seg v1) is @ [?m] @ map (vm_seg v1) js" using d by (simp add: segs_def sg)
  have sp': "span_ids v' = span_ids v1"
    by (rule span_ids_replace [of v1 "is" "[p]" js v' "[p]"]) (use a sg d ns(1) in auto)
  have "keeps v1 v'" by (simp add: v'_def keeps_def seg_reserve_def seg_ids_def)
  with k have k': "keeps v v'" by (rule keeps_trans)
  have "vmem_inv v'"
    by (rule inv_replace [OF inv s S ns(2) _ _ t _ _ k'])
      (use ns(3) f(2) sp sp' in \<open>simp_all add: v'_def\<close>)
  with f(1) S k' show ?thesis by (auto simp: v'_def)
qed

lemma tiles_span_before:
  assumes "tiles q (map f xs @ [m] @ ys)" "\<not> is_span m" "xs = [] \<or> is_span (f (last xs))"
  obtains xs' sp where "xs = xs' @ [sp]" "is_span (f sp)"
proof (cases xs rule: rev_cases)
  case Nil
  with assms(1,2) show ?thesis by (simp add: tiles_def tiles_from_Cons)
next
  case (snoc xs' sp)
  with assms(3) that show ?thesis by simp
qed

lemma totals_remove_span:
  assumes "vs_start s = vs_start m" "vs_end s = vs_end m" "is_span m" "\<forall>x \<in> set A. \<not> is_span x"
    "length (filter vs_import A) = length (filter vs_import [s])" "ys = [] \<or> is_span (hd ys)"
  shows "sum_list (map seg_size (filter is_span (xs @ ys))) = sum_list (map seg_size (filter is_span (xs @ [m] @ A @ ys))) - seg_size s"
    and "imp_sum z (xs @ ys) = (if vs_import s then imp_sum z (xs @ [m] @ A @ ys) - seg_size s else imp_sum z (xs @ [m] @ A @ ys))"
proof -
  have sz: "seg_size s = seg_size m" using assms(1,2) by (simp add: seg_size_def)
  have fA: "filter is_span A = []" using assms(4) by (simp add: filter_empty_conv)
  show "sum_list (map seg_size (filter is_span (xs @ ys))) = sum_list (map seg_size (filter is_span (xs @ [m] @ A @ ys))) - seg_size s"
    using assms(3) by (simp add: fA sz)
  have A: "imp_sum y C = of_nat (length (filter vs_import C)) * y \<and> span_sz y C = y"
    if "\<forall>s \<in> set C. \<not> is_span s" for y C
    using that by (induction C) (auto simp: algebra_simps)
  have "imp_sum z (xs @ [m] @ A @ ys) = imp_sum z xs + ((if vs_import s then seg_size s else 0) + imp_sum (seg_size m) ys)"
    using assms(3,5) A [OF assms(4), of "seg_size m"] by (simp add: imp_sum_append sz)
  moreover have "imp_sum (seg_size m) ys = imp_sum (span_sz z xs) ys" by (rule imp_sum_span_first [OF assms(6)])
  ultimately show "imp_sum z (xs @ ys) = (if vs_import s then imp_sum z (xs @ [m] @ A @ ys) - seg_size s else imp_sum z (xs @ [m] @ A @ ys))"
    by (simp add: imp_sum_append)
qed

lemma span_return_inv:
  assumes inv: "vmem_inv v" and l: "links v1 {p}" and a: "vm_arena v1 = is @ p # js"
    and s: "segs v = map (vm_seg v1) is @ A @ map (vm_seg v1) js"
    and t: "tiles (2 ^ vm_qshift v) (map (vm_seg v1) is @ [(vm_seg v1 p)\<lparr>vs_type := VMEM_FREE\<rparr>] @ map (vm_seg v1) js)"
    and dv: "2 ^ vm_qshift v dvd hi (vm_seg v1 p)"
    and ns: "\<not> is_span (vm_seg v1 p)" "\<forall>s \<in> set A. \<not> is_span s" "length (filter vs_import A) = length (filter vs_import [vm_seg v1 p])"
    and sp: "span_ids v1 = span_ids v" and k: "keeps v v1"
    and nb: "aprev_type p v1 = VMEM_SPAN" "anext_type p v1 = VMEM_SPAN"
  shows "\<exists>v' xs m. vmem_span_destroy p v1 = Inr v' \<and> vmem_inv v' \<and> seg_reserve v' = seg_reserve v \<and>
     vm_quantum v' = vm_quantum v \<and> vm_qshift v' = vm_qshift v \<and> is_span m \<and> map (vm_seg v1) is = xs @ [m] \<and>
     segs v' = xs @ map (vm_seg v1) js \<and> vs_start m = vs_start (vm_seg v1 p) \<and> seg_size m = seg_size (vm_seg v1 p) \<and>
     (map (vm_seg v1) js = [] \<or> is_span (hd (map (vm_seg v1) js))) \<and> length (vm_segfree v1) \<le> length (vm_segfree v') \<and> seg_ids v' = seg_ids v"
proof -
  let ?q = "2 ^ vm_qshift v :: nat" and ?m = "(vm_seg v1 p)\<lparr>vs_type := VMEM_FREE\<rparr>"
  have pr: "is = [] \<or> is_span (vm_seg v1 (last is))"
    using nb(1) by (cases "is = []") (simp_all add: aprev_type_def next_in_arena [OF l a] last_opt_def)
  have nx: "map (vm_seg v1) js = [] \<or> is_span (hd (map (vm_seg v1) js))"
    using nb(2) by (cases js) (auto simp: anext_type_def next_in_arena [OF l a])
  have "\<not> is_span ?m" by simp
  from tiles_span_before [OF t this pr] obtain is' sp where i: "is = is' @ [sp]" "is_span (vm_seg v1 sp)" .
  have a': "vm_arena v1 = is' @ sp # p # js" using a i(1) by simp
  have d: "distinct (is' @ sp # p # js)" using inv_distinct [OF l] a' by simp
  from vmem_span_destroy_ok [OF l a' i(2)] obtain v' where v': "vmem_span_destroy p v1 = Inr v'" "links v' {}"
    "vm_arena v' = is' @ js" "vm_seg v' = vm_seg v1" "vm_spans v' = remove1 sp (vm_spans v1)" "vm_quantum v' = vm_quantum v1"
    "vm_qshift v' = vm_qshift v1" "vk_mem_total (vm_kstat v') = vk_mem_total (vm_kstat v1) - VS_SIZE v1 p"
    "vk_mem_import (vm_kstat v') = (if vs_import (vm_seg v1 p) then vk_mem_import (vm_kstat v1) - VS_SIZE v1 p else vk_mem_import (vm_kstat v1))"
    "seg_reserve v' = seg_reserve v1" "length (vm_segfree v1) \<le> length (vm_segfree v')" "seg_ids v' = seg_ids v1" by blast
  let ?sp = "vm_seg v1 sp" and ?xs = "map (vm_seg v1) is'" and ?ys = "map (vm_seg v1) js"
  have t': "tiles ?q (?xs @ ?sp # ?m # ?ys)" using t i(1) by simp
  have q: "0 < ?q" by simp
  have dm: "?q dvd hi ?m" using dv by simp
  from tiles_remove_span [OF t' i(2) _ dm q nx]
  have T: "tiles ?q (?xs @ ?ys)" and e: "vs_start (vm_seg v1 p) = vs_start ?sp" "vs_end (vm_seg v1 p) = vs_end ?sp" by auto
  have S: "segs v = ?xs @ [?sp] @ A @ ?ys" "segs v' = ?xs @ ?ys" using s i(1) v'(3,4) by (simp_all add: segs_def)
  have tot: "totals_ok v'"
    using inv_parts(6) [OF inv] k v'(8,9) totals_remove_span [OF e i(2) ns(2,3) nx]
    unfolding totals_ok_def S keeps_def VS_SIZE_def by simp
  have ap: "spans_apart (segs v')"
    using inv_parts(4) [OF inv] unfolding spans_apart_def S by (auto simp: sorted_wrt_append split: if_splits)
  have sid: "vm_spans v' = span_ids v'"
  proof -
    have "vm_spans v1 = span_ids v1" using inv_parts(5) [OF inv] k sp by (simp add: keeps_def)
    then show ?thesis using d i(2) ns(1) by (simp add: v'(3,4,5) a' remove1_append)
  qed
  have "vmem_inv v'"
    using v'(2,6,7) sid tot T ap inv_parts(2) [OF inv] k S(2)
    by (simp add: vmem_inv_def quantum_ok_def layout_ok_def keeps_def)
  then show ?thesis
    using v'(1,6,7,10,11,12) k i S e nx
    by (intro exI [of _ v'] exI [of _ ?xs] exI [of _ ?sp]) (simp add: keeps_def seg_size_def)
qed

lemma tiles_prefix:
  assumes "tiles_from q st (A @ ys)" "ys = [] \<or> is_span (hd ys)"
  shows "tiles_from q st A"
proof -
  obtain c e pf fs where r: "trun q st A = Some (c, e, pf, fs)" "tiles_from q (c, e, pf, fs) ys"
    using assms(1) by (auto simp: tiles_from_append)
  then have "c = e" using assms(2) by (cases ys) (auto simp: tiles_from_Cons)
  with r(1) show ?thesis by (simp add: tiles_from_def)
qed

lemma inv_segs_nonempty:
  assumes "vmem_inv v" "x \<in> set (segs v)"
  shows "lo x < hi x" "vs_start x \<noteq> 0"
  using assms inv_seg by (auto simp: segs_def)

lemma block_in_span:
  assumes inv: "vmem_inv v" and s: "segs v = xs @ [m] @ A @ ys" and m: "is_span m" and A: "\<forall>x \<in> set A. \<not> is_span x"
    "seg_allocs A = {(addr, sz)}" and ys: "ys = [] \<or> is_span (hd ys)"
  shows "block (addr, sz) \<subseteq> block (vs_start m, seg_size m)"
proof -
  from A(2) obtain z where z: "z \<in> set A" "vs_start z = addr" "seg_size z = sz"
    by (auto simp: seg_allocs_def dest!: equalityD2)
  note ne = inv_segs_nonempty [OF inv, unfolded s]
  obtain c e pf fs where "tiles_from (2 ^ vm_qshift v) (c, e, pf, fs) (m # A @ ys)"
    using inv_parts(3) [OF inv] s by (auto simp: tiles_def tiles_from_append)
  then have "tiles_from (2 ^ vm_qshift v) (lo m, hi m, False, True) (A @ ys)" using m by (simp add: tiles_from_Cons)
  from tiles_inside [OF tiles_prefix [OF this ys] z(1)] A(1) z(1) have "rng z \<subseteq> rng m" by (auto simp: rng_def)
  then show ?thesis using ne [of z] ne [of m] z rng_block by auto
qed

lemma span_set_remove:
  assumes inv: "vmem_inv v" and s: "segs v = xs @ [m] @ A @ ys" and m: "is_span m" and A: "\<forall>x \<in> set A. \<not> is_span x"
  shows "(\<lambda>s. (vs_start s, seg_size s)) ` set (filter is_span (xs @ ys)) = vm_span_set v - {(vs_start m, seg_size m)}"
proof -
  have "filter is_span A = []" using A by (simp add: filter_empty_conv)
  then have f: "filter is_span (segs v) = filter is_span xs @ [m] @ filter is_span ys" using s m by simp
  have srt: "sorted_wrt apart (filter is_span xs @ [m] @ filter is_span ys)"
    using inv_parts(4) [OF inv] f by (simp add: spans_apart_def)
  have "vs_start x \<noteq> vs_start m" if x: "x \<in> set (filter is_span (xs @ ys))" for x
  proof
    assume e: "vs_start x = vs_start m"
    have "apart x m" using x sorted_wrt_mid [OF srt, of m x] by (auto simp: Int_commute)
    moreover have "lo x \<in> rng x" "lo x \<in> rng m"
      using inv_segs_nonempty(1) [OF inv, of x] inv_segs_nonempty(1) [OF inv, of m] x s e by (auto simp: rng_def)
    ultimately show False by blast
  qed
  then show ?thesis by (auto simp: vm_span_set_def f)
qed

lemma vmem_xfree_ok:
  assumes inv: "vmem_inv v" and al: "(addr, sz) \<in> vm_allocs v"
  shows "\<exists>v'. vmem_inv v' \<and> vm_allocs v' = vm_allocs v - {(addr, sz)} \<and> seg_reserve v' = seg_reserve v \<and>
     vm_quantum v' = vm_quantum v \<and> vm_qshift v' = vm_qshift v \<and> length (vm_segfree v) \<le> length (vm_segfree v') \<and> seg_ids v' = seg_ids v \<and>
     (vmem_xfree env addr sz w v = Inr (w, v') \<and> vm_span_set v' = vm_span_set v \<or>
      (\<exists>a z. ve_has_free env \<and> (a, z) \<in> vm_span_set v \<and> vm_span_set v' = vm_span_set v - {(a, z)} \<and>
         block (addr, sz) \<subseteq> block (a, z) \<and> vmem_xfree env addr sz w v = ve_source_free env a z w v'))"
proof -
  from xfree_coalesce_ok [OF inv al] obtain p v1 "is" js A where c: "xfree_coalesce addr sz v = Inr (p, v1)"
    and l: "links v1 {p}" and a: "vm_arena v1 = is @ p # js"
    and s: "segs v = map (vm_seg v1) is @ A @ map (vm_seg v1) js"
    and t: "tiles (2 ^ vm_qshift v) (map (vm_seg v1) is @ [(vm_seg v1 p)\<lparr>vs_type := VMEM_FREE\<rparr>] @ map (vm_seg v1) js)"
    and dv: "2 ^ vm_qshift v dvd hi (vm_seg v1 p)" and ns: "\<not> is_span (vm_seg v1 p)" "\<forall>s \<in> set A. \<not> is_span s"
      "length (filter vs_import A) = length (filter vs_import [vm_seg v1 p])"
    and A: "seg_allocs A = {(addr, sz)}" and sp: "span_ids v1 = span_ids v" and k: "keeps v v1"
    and len: "length (vm_segfree v) \<le> length (vm_segfree v1)" by blast
  note rm = allocs_remove [OF inv s A]
  show ?thesis
  proof (cases "vs_import (vm_seg v1 p) \<and> ve_has_free env \<and> aprev_type p v1 = VMEM_SPAN \<and> anext_type p v1 = VMEM_SPAN")
    case False
    from free_insert_inv [OF inv l a s t ns sp k] obtain v' where v': "vmem_freelist_insert p v1 = Inr v'" "vmem_inv v'" "keeps v v'" "vm_segfree v' = vm_segfree v1"
      "segs v' = map (vm_seg v1) is @ [(vm_seg v1 p)\<lparr>vs_type := VMEM_FREE\<rparr>] @ map (vm_seg v1) js" by blast
    have "vmem_xfree env addr sz w v = Inr (w, v')" using False c v'(1) by (auto simp: vmem_xfree_def)
    moreover have "vm_allocs v' = vm_allocs v - {(addr, sz)}" using rm by (simp add: vm_allocs_def v'(5))
    moreover have "vm_span_set v' = vm_span_set v"
      using filter_span_replace [of A "[(vm_seg v1 p)\<lparr>vs_type := VMEM_FREE\<rparr>]"] ns(2) by (simp add: vm_span_set_def v'(5) s)
    ultimately show ?thesis using v'(2,3,4) len by (auto simp: keeps_def)
  next
    case True
    then have nb: "aprev_type p v1 = VMEM_SPAN" "anext_type p v1 = VMEM_SPAN" by auto
    from span_return_inv [OF inv l a s t dv ns sp k nb] obtain v' xs m where v': "vmem_span_destroy p v1 = Inr v'" "vmem_inv v'"
      "seg_reserve v' = seg_reserve v" "vm_quantum v' = vm_quantum v" "vm_qshift v' = vm_qshift v" "is_span m"
      "map (vm_seg v1) is = xs @ [m]" "segs v' = xs @ map (vm_seg v1) js"
      "vs_start m = vs_start (vm_seg v1 p)" "seg_size m = seg_size (vm_seg v1 p)"
      "map (vm_seg v1) js = [] \<or> is_span (hd (map (vm_seg v1) js))" "length (vm_segfree v1) \<le> length (vm_segfree v')" "seg_ids v' = seg_ids v" by blast
    have s': "segs v = xs @ [m] @ A @ map (vm_seg v1) js" by (simp add: s v'(7))
    have "vmem_xfree env addr sz w v = ve_source_free env (vs_start m) (seg_size m) w v'"
      using True c v'(1,9,10) by (simp add: vmem_xfree_def Let_def VS_SIZE_def)
    moreover have "vm_allocs v' = vm_allocs v - {(addr, sz)}" using rm v'(6) by (simp add: vm_allocs_def v'(7,8))
    moreover have "(vs_start m, seg_size m) \<in> vm_span_set v" using v'(6) by (auto simp: vm_span_set_def s v'(7))
    moreover have "vm_span_set v' = vm_span_set v - {(vs_start m, seg_size m)}"
      using span_set_remove [OF inv s' v'(6) ns(2)] by (auto simp: vm_span_set_def v'(8))
    moreover have "block (addr, sz) \<subseteq> block (vs_start m, seg_size m)"
      by (rule block_in_span [OF inv s' v'(6) ns(2) A v'(11)])
    moreover have "length (vm_segfree v) \<le> length (vm_segfree v')" using len v'(12) by simp
    ultimately show ?thesis using v'(2-5,13) True by blast
  qed
qed

end
