(* ===== verification/Vmem_Fit.thy ===== *)
theory Vmem_Fit
  imports Vmem_Ops
begin

section \<open>Vmem: constraints of an allocation\<close>

text \<open>
  The address computation of \<open>vmem_xalloc()\<close> for one free segment: the candidate address, its phase,
  and the boundary it must not cross, in 64-bit arithmetic that does not wrap under \<open>req_ok\<close>.
\<close>

subsection \<open>Well-formed requests\<close>

definition req_ok :: "vmem_req \<Rightarrow> bool" where
  "req_ok r \<longleftrightarrow> rq_size r \<noteq> 0 \<and>
     (\<exists>j < 64. rq_align r = 2 ^ j \<and> unat (rq_phase r) < 2 ^ j) \<and>
     (rq_nocross r = 0 \<or> (\<exists>n < 64. rq_nocross r = 2 ^ n)) \<and>
     (rq_nocross r \<noteq> 0 \<longrightarrow> rq_align r \<le> rq_nocross r \<and> P2ROUNDUP (rq_phase r + rq_size r) (rq_align r) \<le> rq_nocross r) \<and>
     unat (rq_minaddr r) < hi_of (rq_maxaddr r) \<and>
     unat (rq_size r) + unat (rq_align r) + unat (rq_nocross r) \<le> 2 ^ 64"

definition meets :: "vmem_req \<Rightarrow> ulong \<Rightarrow> bool" where
  "meets r a \<longleftrightarrow> P2PHASE a (rq_align r) = rq_phase r \<and> \<not> P2CROSS a (a + rq_size r - 1) (rq_nocross r) \<and>
     unat (rq_minaddr r) \<le> unat a \<and> unat a + unat (rq_size r) \<le> hi_of (rq_maxaddr r)"

lemma unat_take_bit_add:
  assumes "j \<le> 64"
  shows "unat (take_bit j (x + y :: ulong)) = (unat x + unat y) mod 2 ^ j"
  using assms le_imp_power_dvd [of j 64 "2 :: nat"] by (simp add: unat_take_bit unat_word_ariths mod_mod_cancel)

lemma take_bit_add_right:
  assumes "j \<le> n" "j \<le> 64"
  shows "take_bit j (x + take_bit n y) = take_bit j (x + (y :: ulong))"
proof -
  have "(unat x + unat y mod 2 ^ n) mod 2 ^ j = (unat x + unat y mod 2 ^ n mod 2 ^ j) mod 2 ^ j"
    by (simp only: mod_add_right_eq)
  also have "unat y mod 2 ^ n mod 2 ^ j = unat y mod 2 ^ j"
    using assms(1) by (intro mod_mod_cancel) (simp add: le_imp_power_dvd)
  finally have "(unat x + unat y mod 2 ^ n) mod 2 ^ j = (unat x + unat y) mod 2 ^ j"
    by (simp only: mod_add_right_eq)
  then show ?thesis
    unfolding word_unat_eq_iff unat_take_bit_add [OF assms(2)] unfolding unat_take_bit .
qed

lemma take_bit_add_zero:
  assumes "take_bit j d = 0" "j \<le> 64"
  shows "take_bit j (x + d) = take_bit j (x :: ulong)"
  using take_bit_add_right [of j j x d] assms by simp

lemma unat_add_lt: "unat (a :: ulong) + unat b < 2 ^ 64 \<Longrightarrow> unat (a + b) = unat a + unat b"
  by (simp add: unat_word_ariths)

lemma unat_take_bit_lt: "unat (take_bit k (x :: ulong)) < 2 ^ k"
  by (simp add: unat_take_bit)

text \<open>The distance of the first candidate from the start of the range.\<close>

lemma phaseup:
  assumes "rq_align r = 2 ^ j" "unat (rq_phase r) < 2 ^ j" "j < 64"
  shows "P2PHASEUP start (rq_align r) (rq_phase r) = start + take_bit j (rq_phase r - start)"
    "take_bit j (P2PHASEUP start (rq_align r) (rq_phase r)) = rq_phase r"
proof -
  show 1: "P2PHASEUP start (rq_align r) (rq_phase r) = start + take_bit j (rq_phase r - start)"
    unfolding assms(1) by (rule P2_exp)
  have "take_bit j (rq_phase r) = rq_phase r"
    using assms(2) by (simp add: word_unat_eq_iff unat_take_bit)
  then show "take_bit j (P2PHASEUP start (rq_align r) (rq_phase r)) = rq_phase r"
    unfolding 1 using assms(3) by (simp add: take_bit_add_right del: take_bit_minus)
qed

text \<open>The step over a boundary that must not be crossed.\<close>

lemma cross_step:
  fixes t :: ulong
  assumes "j \<le> n" "n < 64"
  defines "d \<equiv> P2ROUNDUP (P2NPHASE t (2 ^ n)) (2 ^ j)"
  shows "unat d \<le> 2 ^ n" "take_bit j (t + d) = take_bit j t" "take_bit n (t + d) = take_bit j t"
proof -
  let ?p = "take_bit n (- t)"
  have d: "d = ?p + take_bit j (- ?p)" by (simp add: d_def P2_exp del: take_bit_minus)
  have "hi_of (P2ROUNDUP ?p (2 ^ j)) \<le> 2 ^ n" if "?p \<noteq> 0"
  proof -
    have "hi_of ?p \<le> 2 ^ n" using unat_take_bit_lt [of n "- t"] hi_of_nz [OF that] by linarith
    then have "rup (2 ^ j) (hi_of ?p) \<le> 2 ^ n" using assms(1) by (intro rup_le) (auto simp: le_imp_power_dvd)
    then show ?thesis using assms(1,2) by (simp add: hi_of_P2ROUNDUP)
  qed
  moreover have "unat d \<le> hi_of d" using unat_lt_64 [of d] by (auto simp: hi_of_alt)
  moreover have "d = P2ROUNDUP ?p (2 ^ j)" unfolding d by (simp add: P2_exp del: take_bit_minus)
  moreover have "?p = 0 \<Longrightarrow> d = 0" unfolding d by (simp del: take_bit_minus)
  ultimately show "unat d \<le> 2 ^ n" by (cases "?p = 0") auto
  have "take_bit j d = take_bit j (?p + (- ?p))" unfolding d by (rule take_bit_add_right) (use assms in simp_all)
  then have "take_bit j d = 0" by simp
  then show tj: "take_bit j (t + d) = take_bit j t" using assms by (intro take_bit_add_zero) simp_all
  let ?u = "take_bit j (- ?p)"
  have "take_bit j ?u = take_bit j (t + d)"
  proof -
    have z: "take_bit j (t + ?p) = 0" using take_bit_add_right [of j n t "- t"] assms by simp
    have "take_bit j (t + d) = take_bit j (?u + (t + ?p))" by (simp add: d ac_simps)
    also have "\<dots> = take_bit j ?u" by (rule take_bit_add_zero [OF z]) (use assms in simp)
    finally show ?thesis by simp
  qed
  then have u: "?u = take_bit j t" using tj by simp
  have zn: "take_bit n (t + ?p) = 0" using take_bit_add_right [of n n t "- t"] assms by simp
  have "take_bit n (t + d) = take_bit n (?u + (t + ?p))" by (simp add: d ac_simps)
  also have "\<dots> = take_bit n ?u" by (rule take_bit_add_zero [OF zn]) (use assms in simp)
  also have "\<dots> = take_bit j t" unfolding u using assms(1) by (simp add: min_def)
  finally show "take_bit n (t + d) = take_bit j t" .
qed

lemma div_add_small:
  assumes "(a :: nat) mod N + k < N"
  shows "(a + k) div N = a div N"
proof -
  have N: "N \<noteq> 0" using assms by auto
  have "a + k = (a mod N + k) + a div N * N" using div_mult_mod_eq [of a N] by linarith
  then have "(a + k) div N = ((a mod N + k) + a div N * N) div N" by (rule arg_cong)
  also have "\<dots> = a div N + (a mod N + k) div N" by (rule div_mult_self1 [OF N])
  finally show ?thesis using assms by simp
qed

lemma phase_size_fits:
  assumes r: "req_ok r" and j: "rq_align r = 2 ^ j" "unat (rq_phase r) < 2 ^ j" "j < 64" and n: "rq_nocross r = 2 ^ n" "n < 64"
  shows "unat (rq_phase r) + unat (rq_size r) \<le> 2 ^ n"
proof -
  let ?x = "rq_phase r + rq_size r"
  have c: "unat (rq_size r) + 2 ^ j + 2 ^ n \<le> 2 ^ 64" "(2::nat) ^ j \<le> 2 ^ n" "P2ROUNDUP ?x (2 ^ j) \<le> 2 ^ n"
    using r j n by (auto simp: req_ok_def word_le_nat_alt)
  have x: "unat ?x = unat (rq_phase r) + unat (rq_size r)" using c(1) j(2) by (intro unat_add_lt) linarith
  have "unat (P2ROUNDUP ?x (2 ^ j)) = unat ?x + unat (take_bit j (- ?x))"
    unfolding P2_exp using c(1,2) j(2) x unat_take_bit_lt [of j "- ?x"] by (intro unat_add_lt) linarith
  moreover have "unat (P2ROUNDUP ?x (2 ^ j)) \<le> 2 ^ n" using c(3) n(2) by (simp add: word_le_nat_alt)
  ultimately show ?thesis using x by linarith
qed

text \<open>The candidate address: its distance from the start does not wrap, and it meets phase and boundary.\<close>

lemma fit_taddr_ok:
  assumes r: "req_ok r"
  shows "\<exists>D. fit_taddr r start = start + of_nat D \<and> D + unat (rq_size r) < 2 ^ 64 \<and>
     P2PHASE (fit_taddr r start) (rq_align r) = rq_phase r \<and>
     (unat (fit_taddr r start) + unat (rq_size r) \<le> 2 ^ 64 \<longrightarrow>
        \<not> P2CROSS (fit_taddr r start) (fit_taddr r start + rq_size r - 1) (rq_nocross r))"
proof -
  let ?t = "P2PHASEUP start (rq_align r) (rq_phase r)" and ?sz = "unat (rq_size r)"
  from r obtain j where j: "rq_align r = 2 ^ j" "unat (rq_phase r) < 2 ^ j" "j < 64" by (auto simp: req_ok_def)
  have sum: "?sz + 2 ^ j + unat (rq_nocross r) \<le> 2 ^ 64" using r j(1,3) by (simp add: req_ok_def)
  let ?e = "unat (take_bit j (rq_phase r - start))"
  have d0: "?t = start + of_nat ?e" "?e < 2 ^ j" using phaseup(1) [OF j] unat_take_bit_lt by simp_all
  have ph: "P2PHASE ?t (rq_align r) = rq_phase r" using phaseup(2) [OF j] unfolding j(1) P2_exp .
  show ?thesis
  proof (cases "P2CROSS ?t (?t + rq_size r - 1) (rq_nocross r)")
    case False
    then have "fit_taddr r start = ?t" by (simp add: fit_taddr_def)
    with False d0 ph sum show ?thesis by (intro exI [of _ ?e]) simp
  next
    case True
    then have nz: "rq_nocross r \<noteq> 0" using P2CROSS_0 by auto
    with r obtain n where n: "rq_nocross r = 2 ^ n" "n < 64" by (auto simp: req_ok_def)
    have jn: "j \<le> n"
    proof -
      have "(2::nat) ^ j \<le> 2 ^ n" using r nz j n by (simp add: req_ok_def word_le_nat_alt)
      then show ?thesis by simp
    qed
    let ?d = "P2ROUNDUP (P2NPHASE ?t (2 ^ n)) (2 ^ j)"
    have t: "fit_taddr r start = ?t + ?d" using True by (simp add: fit_taddr_def Let_def n(1) j(1))
    note cs = cross_step [OF jn n(2), of ?t]
    have eq: "fit_taddr r start = start + of_nat (?e + unat ?d)" unfolding t d0(1) by simp
    have bound: "?e + unat ?d + ?sz < 2 ^ 64" using cs(1) d0(2) sum n by simp
    have phase: "P2PHASE (fit_taddr r start) (rq_align r) = rq_phase r"
      using cs(2) phaseup(2) [OF j, of start] unfolding t j(1) P2_exp by simp
    have "\<not> P2CROSS (fit_taddr r start) (fit_taddr r start + rq_size r - 1) (rq_nocross r)"
      if wr: "unat (fit_taddr r start) + ?sz \<le> 2 ^ 64"
    proof -
      let ?a = "fit_taddr r start"
      have "take_bit n ?a = rq_phase r" using cs(3) phaseup(2) [OF j, of start] unfolding t j(1) by simp
      then have m: "unat ?a mod 2 ^ n = unat (rq_phase r)" by (metis unat_take_bit)
      have sz: "rq_size r \<noteq> 0" "0 < ?sz" using r by (auto simp: req_ok_def unat_gt_0)
      have last: "unat (?a + rq_size r - 1) = unat ?a + (?sz - 1)"
        using hi_of_add [OF wr sz(1)] sz(2) by (simp add: hi_of_def)
      have "unat ?a mod 2 ^ n + (?sz - 1) < 2 ^ n" using phase_size_fits [OF r j n] m sz(2) by linarith
      then have "(unat ?a + (?sz - 1)) div 2 ^ n = unat ?a div 2 ^ n" by (rule div_add_small)
      then show ?thesis unfolding n(1) P2CROSS_exp [OF n(2)] drop_bit_eq_iff_div last by simp
    qed
    with eq bound phase show ?thesis by (intro exI [of _ "?e + unat ?d"]) simp
  qed
qed

lemma unat_diff_hi:
  assumes "unat s < hi_of e" "s \<noteq> 0"
  shows "unat (e - s) = hi_of e - unat s"
  using seg_size_unat [of "\<lparr>vs_start = s, vs_end = e, vs_type = VMEM_FREE, vs_import = False\<rparr>"] assms
  by (simp add: seg_size_def)

lemma vmem_fit_ok:
  assumes r: "req_ok r" and s: "lo s < hi s" "vs_start s \<noteq> 0" and f: "vmem_fit r s = Some a"
  shows "lo s \<le> unat a" "unat a + unat (rq_size r) \<le> hi s" "meets r a"
proof -
  let ?st = "fit_start r s" and ?en = "fit_end r s" and ?sz = "unat (rq_size r)"
  from f have a: "a = fit_taddr r ?st" and chk: "\<not> (a - ?st) + rq_size r > ?en - ?st"
    and out: "\<not> vs_end s - 1 < rq_minaddr r" "\<not> vs_start s > rq_maxaddr r - 1"
    by (auto simp: vmem_fit_def Let_def split: if_splits)
  have st: "unat ?st = max (lo s) (unat (rq_minaddr r))" by (simp add: fit_start_def max_def word_le_nat_alt)
  have en: "hi_of ?en = min (hi s) (hi_of (rq_maxaddr r))"
    by (simp add: fit_end_def hi_of_def min_def word_le_nat_alt)
  have lt: "unat ?st < hi_of ?en"
  proof -
    have "unat (rq_minaddr r) < hi s" "lo s < hi_of (rq_maxaddr r)"
      using out by (simp_all add: hi_of_def word_less_nat_alt)
    moreover have "unat (rq_minaddr r) < hi_of (rq_maxaddr r)" using r by (simp add: req_ok_def)
    ultimately show ?thesis using s(1) by (simp add: st en)
  qed
  have nz: "?st \<noteq> 0" using s(2) st by (metis max.bounded_iff max.cobounded1 le_zero_eq unat_0 unat_eq_0)
  from fit_taddr_ok [OF r, of ?st] obtain D where D: "a = ?st + of_nat D" "D + ?sz < 2 ^ 64"
    "P2PHASE a (rq_align r) = rq_phase r"
    "unat a + ?sz \<le> 2 ^ 64 \<longrightarrow> \<not> P2CROSS a (a + rq_size r - 1) (rq_nocross r)" unfolding a by blast
  have uD: "unat (of_nat D :: ulong) = D" using D(2) unfolding unat_of_nat by simp
  have "unat ((a - ?st) + rq_size r) = D + ?sz" unfolding D(1) using D(2) uD by (simp add: unat_add_lt)
  then have le: "D + ?sz \<le> hi_of ?en - unat ?st"
    using chk unat_diff_hi [OF lt nz] by (simp add: word_less_nat_alt)
  have le2: "unat ?st + D + ?sz \<le> hi_of ?en" using le lt by linarith
  have szp: "0 < ?sz" using r by (simp add: req_ok_def unat_gt_0)
  have ua: "unat a = unat ?st + D"
    unfolding D(1) using uD le2 szp hi_of_le [of ?en] by (subst unat_add_lt) linarith+
  show "lo s \<le> unat a" "unat a + ?sz \<le> hi s" using ua st le2 en by auto
  show "meets r a"
    using D(3,4) ua st le2 en hi_of_le [of ?en] by (auto simp: meets_def)
qed

end
