(* ===== verification/Vmem_Search.thy ===== *)
theory Vmem_Search
  imports Vmem_Fit
begin

section \<open>Vmem: the freelist search\<close>

text \<open>
  The walk of \<open>vmem_xalloc()\<close> over the freelists: what it returns is a free segment that fits, and it
  returns nothing only if no segment of the freelists it has to look at fits.
\<close>

subsection \<open>One freelist\<close>

abbreviation fits :: "vmem \<Rightarrow> vmem_req \<Rightarrow> segp \<times> ulong \<Rightarrow> bool" where
  "fits v r b \<equiv> vmem_fit r (vm_seg v (fst b)) = Some (snd b)"

definition walked :: "vmem \<Rightarrow> vmem_req \<Rightarrow> segp set \<Rightarrow> (segp \<times> ulong) option \<Rightarrow> vm_walk \<Rightarrow> bool" where
  "walked v r P best res \<longleftrightarrow> (\<exists>b. res = WalkStop (Some b) \<and> fst b \<in> P \<and> fits v r b) \<or>
     res = WalkEnd best \<or> (\<exists>b. res = WalkEnd (Some b) \<and> fst b \<in> P \<and> fits v r b)"

lemma walked_mono: "walked v r P best res \<Longrightarrow> P \<subseteq> Q \<Longrightarrow> walked v r Q best res"
  unfolding walked_def by blast

lemma walked_first: "walked v r P (Some b) res \<Longrightarrow> fst b \<in> P \<Longrightarrow> fits v r b \<Longrightarrow> walked v r P best res"
  unfolding walked_def by blast

lemma walk_flist_sound:
  assumes "\<forall>p \<in> set ps. vs_start (vm_seg v p) \<noteq> 0"
  shows "walked v r (set ps) best (fst (walk_flist v r ps best n))"
  using assms
proof (induction ps arbitrary: best n)
  case (Cons p ps)
  have IH: "walked v r (set (p # ps)) b (fst (walk_flist v r ps b m))" for b m
    using Cons.prems by (intro walked_mono [OF Cons.IH]) auto
  have nz: "vs_start (vm_seg v p) \<noteq> 0" using Cons.prems by simp
  show ?case
  proof (cases "vmem_fit r (vm_seg v p)")
    case None
    with nz IH [of best "Suc n"] show ?thesis by simp
  next
    case (Some t)
    have "walked v r (set (p # ps)) best (fst (walk_flist v r ps (Some (p, t)) (Suc n)))"
      by (rule walked_first [OF IH]) (simp_all add: Some)
    moreover have "walked v r (set (p # ps)) best (WalkStop (Some (p, t)))" using Some by (simp add: walked_def)
    ultimately show ?thesis using nz Some IH [of best "Suc n"] by simp
  qed
qed (simp add: walked_def)

lemma walk_flist_none:
  assumes "fst (walk_flist v r ps best n) = WalkEnd None"
  shows "best = None \<and> (\<forall>p \<in> set ps. vmem_fit r (vm_seg v p) = None)"
  using assms
proof (induction ps arbitrary: best n)
  case (Cons p ps)
  show ?case
  proof (cases "vmem_fit r (vm_seg v p)")
    case None
    with Cons.prems Cons.IH [of best "Suc n"] show ?thesis by (simp split: if_splits)
  next
    case (Some t)
    with Cons.prems Cons.IH [of best "Suc n"] Cons.IH [of "Some (p, t)" "Suc n"] show ?thesis
      by (cases best) (auto split: if_splits)
  qed
qed simp

subsection \<open>All freelists\<close>

lemma flist_mem:
  assumes "flist_ok v {}" "n < 65" "p \<in> set (vm_freelist v ! n)"
  shows "p \<in> live v {} VMEM_FREE" "highbit (VS_SIZE v p) = Suc n"
  using assms by (auto simp: flist_ok_def)

lemma next_flist_None:
  assumes "freemap_ok v" "next_flist v n = None" "n \<le> m" "m < 64"
  shows "vm_freelist v ! m = []"
proof -
  have z: "vm_freemap v AND - flist_size n = 0"
  proof (rule ccontr)
    assume "vm_freemap v AND - flist_size n \<noteq> 0"
    from lowbit_least(1) [OF this] assms(2) show False by (simp add: next_flist_def Let_def split: if_splits)
  qed
  then have "\<not> bit (vm_freemap v AND - flist_size n) m" by simp
  with assms show ?thesis by (simp add: bit_and_iff bit_minus_flist_size freemap_ok_def)
qed

lemma next_flist_Some:
  assumes "freemap_ok v" "next_flist v n = Some m" "n \<le> i" "i < m"
  shows "vm_freelist v ! i = []"
proof -
  let ?w = "vm_freemap v AND - flist_size n"
  have nz: "?w \<noteq> 0" and m: "m = lowbit ?w - 1" using assms(2) by (auto simp: next_flist_def Let_def split: if_splits)
  have i: "i < 64" using next_flist_ge [OF assms(2)] assms(4) by simp
  have "\<not> bit ?w i" using lowbit_least(4) [OF nz] assms(4) m by simp
  with assms(1,3) i show ?thesis by (simp add: bit_and_iff bit_minus_flist_size freemap_ok_def)
qed

definition search_ok :: "vmem \<Rightarrow> vmem_req \<Rightarrow> nat \<Rightarrow> (segp \<times> ulong) option vres \<Rightarrow> bool" where
  "search_ok v r f res \<longleftrightarrow> (case res of
     Inl _ \<Rightarrow> False
   | Inr None \<Rightarrow> (\<forall>p \<in> live v {} VMEM_FREE. f < highbit (VS_SIZE v p) \<longrightarrow> vmem_fit r (vm_seg v p) = None)
   | Inr (Some b) \<Rightarrow> fst b \<in> live v {} VMEM_FREE \<and> fits v r b)"

lemma vmem_search_ok:
  assumes "pool_ok v" "flist_ok v {}" "freemap_ok v" "flist < 64"
  shows "search_ok v r flist (fst (vmem_search v r flist n))"
  using assms
proof (induction v r flist n rule: vmem_search.induct)
  case (1 v r flist n)
  let ?l = "vm_freelist v ! flist"
  obtain res n1 where w: "walk_flist v r ?l None n = (res, n1)" by (cases "walk_flist v r ?l None n")
  have mem: "p \<in> live v {} VMEM_FREE" "highbit (VS_SIZE v p) = Suc flist" if "p \<in> set ?l" for p
    using flist_mem [OF "1.prems"(2) _ that] "1.prems"(4) by auto
  have "\<forall>p \<in> set ?l. vs_start (vm_seg v p) \<noteq> 0" using mem "1.prems"(1) by (auto simp: pool_ok_def live_def)
  from walk_flist_sound [OF this, of r None n] have wd: "walked v r (set ?l) None res" by (simp add: w)
  have lt: "flist < VMEM_FREELISTS" using "1.prems"(4) by (simp add: VMEM_FREELISTS_def)
  consider (stop) b where "res = WalkStop (Some b)" "fst b \<in> set ?l" "fits v r b"
    | (found) b where "res = WalkEnd (Some b)" "fst b \<in> set ?l" "fits v r b"
    | (none) "res = WalkEnd None" using wd by (auto simp: walked_def)
  then show ?case
  proof cases
    case stop
    then show ?thesis using w mem by (simp add: vmem_search.simps [of v r flist n] search_ok_def)
  next
    case found
    then show ?thesis using w mem lt by (simp add: vmem_search.simps [of v r flist n] search_ok_def)
  next
    case none
    have here: "\<forall>p \<in> set ?l. vmem_fit r (vm_seg v p) = None" using walk_flist_none [of v r ?l None n] w none by simp
    have at: "\<exists>i < 64. highbit (VS_SIZE v p) = Suc i \<and> p \<in> set (vm_freelist v ! i)" if "p \<in> live v {} VMEM_FREE" for p
      using find_flist [OF "1.prems"(2) that] by metis
    show ?thesis
    proof (cases "next_flist v (Suc flist)")
      case None
      have "vmem_fit r (vm_seg v p) = None" if p: "p \<in> live v {} VMEM_FREE" "flist < highbit (VS_SIZE v p)" for p
      proof -
        from at [OF p(1)] obtain i where i: "i < 64" "highbit (VS_SIZE v p) = Suc i" "p \<in> set (vm_freelist v ! i)" by blast
        have "i = flist" using next_flist_None [OF "1.prems"(3) None _ i(1)] i(2,3) p(2) by (cases "i = flist") auto
        with here i(3) show ?thesis by blast
      qed
      moreover have "fst (vmem_search v r flist n) = Inr None"
        using w none lt None by (simp add: vmem_search.simps [of v r flist n])
      ultimately show ?thesis by (simp add: search_ok_def)
    next
      case (Some m)
      have m: "Suc flist \<le> m" "m < 64" using next_flist_ge [OF Some] by auto
      have IH: "search_ok v r m (fst (vmem_search v r m (Suc n1)))"
        using "1.IH" [OF w [symmetric] none _ lt Some "1.prems"(1-3) m(2)] by simp
      have eq: "fst (vmem_search v r flist n) = fst (vmem_search v r m (Suc n1))"
        using w none lt Some by (simp add: vmem_search.simps [of v r flist n])
      have "vmem_fit r (vm_seg v p) = None"
        if p: "p \<in> live v {} VMEM_FREE" "flist < highbit (VS_SIZE v p)" and r: "fst (vmem_search v r m (Suc n1)) = Inr None" for p
      proof -
        from at [OF p(1)] obtain i where i: "i < 64" "highbit (VS_SIZE v p) = Suc i" "p \<in> set (vm_freelist v ! i)" by blast
        consider "i = flist" | "flist < i" "i < m" | "m \<le> i" using p(2) i(2) by linarith
        then show ?thesis
        proof cases
          case 1
          with here i(3) show ?thesis by blast
        next
          case 2
          then have "vm_freelist v ! i = []" using next_flist_Some [OF "1.prems"(3) Some] by simp
          with i(3) show ?thesis by simp
        next
          case 3
          with IH r p(1) i(2) show ?thesis by (simp add: search_ok_def)
        qed
      qed
      then show ?thesis using IH unfolding eq search_ok_def by (auto split: sum.splits option.splits)
    qed
  qed
qed

end
