(* ===== verification/Vmem_Span.thy ===== *)
theory Vmem_Span
  imports Vmem_Free Vmem_Search
begin

section \<open>Vmem: adding spans\<close>

text \<open>
  \<open>vmem_span_create()\<close> adds a span marker and one free segment, and keeps the invariant when the new
  block is quantum aligned and disjoint from the spans of the arena.
\<close>

lemma quantum_mask:
  assumes "k < 64"
  shows "(x :: ulong) AND (2 ^ k - 1) = 0 \<longleftrightarrow> 2 ^ k dvd unat x"
  by (simp add: and_exp_minus_1 word_unat_eq_iff unat_take_bit dvd_eq_mod_eq_0)

lemma quantum_mask_or:
  assumes "k < 64"
  shows "((x :: ulong) OR y) AND (2 ^ k - 1) = 0 \<longleftrightarrow> 2 ^ k dvd unat x \<and> 2 ^ k dvd unat y"
proof -
  have "(x OR y) AND m = 0 \<longleftrightarrow> x AND m = 0 \<and> y AND m = 0" for m :: ulong
    by (simp add: bit.conj_disj_distrib2 or_eq_0_iff)
  from this [of "2 ^ k - 1"] show ?thesis unfolding quantum_mask [OF assms] .
qed

lemma vmem_seg_create_last:
  assumes "links v L" "vm_segfree v = b # bs" "start \<noteq> 0"
  shows "\<exists>v'. vmem_seg_create (last_opt (vm_arena v)) start end t v = Inr (b, v') \<and> links v' (insert b L) \<and>
     vm_arena v' = vm_arena v @ [b] \<and>
     vm_seg v' = (vm_seg v)(b := \<lparr>vs_start = start, vs_end = end, vs_type = t, vs_import = False\<rparr>) \<and>
     vm_segfree v' = bs \<and> keeps v v'"
proof -
  have d: "distinct (vm_arena v @ vm_segfree v)" using assms(1) by (simp add: links_def pool_ok_def)
  let ?s = "\<lparr>vs_start = start, vs_end = end, vs_type = t, vs_import = False\<rparr>"
  let ?v = "v\<lparr>vm_segfree := bs, vm_nsegfree := vm_nsegfree v - 1, vm_seg := (vm_seg v)(b := ?s), vm_arena := vm_arena v @ [b]\<rparr>"
  have "vmem_seg_create (last_opt (vm_arena v)) start end t v = Inr (b, ?v)"
    using d assms(2) by (simp add: vmem_seg_create_def vmem_getseg_def insert_after_last)
  moreover have "links ?v (insert b L)"
    by (rule links_add [OF assms(1,2)]) (use d assms(2,3) in auto)
  moreover have "seg_ids ?v = seg_ids v" using assms(2) by (auto simp: seg_ids_def)
  ultimately show ?thesis using assms(2) by (simp add: keeps_def seg_reserve_def)
qed

lemma span_unlimbo:
  assumes "links v (insert p L)" "ty v p = VMEM_SPAN"
  shows "links v L"
proof -
  have "p \<notin> live v L VMEM_ALLOC" "p \<notin> live v L VMEM_FREE" using assms(2) by (auto simp: live_def)
  with assms(1) show ?thesis
    by (simp add: links_def flist_ok_def hash_ok_def inuse_ok_def live_take)
qed

lemma links_set_import:
  assumes "links v L"
  shows "links (upd_seg p (vs_import_update f) v) L"
proof -
  have l: "live (upd_seg p (vs_import_update f) v) L t = live v L t" for t by (auto simp: live_def)
  have s: "VS_SIZE (upd_seg p (vs_import_update f) v) q = VS_SIZE v q" for q by (simp add: VS_SIZE_def seg_size_def)
  have st: "vs_start (vm_seg (upd_seg p (vs_import_update f) v) q) = vs_start (vm_seg v q)" for q by simp
  show ?thesis
    using assms unfolding links_def pool_ok_def flist_ok_def freemap_ok_def hash_ok_def inuse_ok_def l s st by simp
qed

definition fresh_block :: "(ulong \<times> ulong) set \<Rightarrow> ulong \<times> ulong \<Rightarrow> bool" where
  "fresh_block S b \<longleftrightarrow> fst b \<noteq> 0 \<and> snd b \<noteq> 0 \<and> unat (fst b) + unat (snd b) \<le> 2 ^ 64 \<and> (\<forall>c \<in> S. block b \<inter> block c = {})"

lemma span_create_links:
  assumes inv: "links v {}" and b: "vm_segfree v = b1 # b2 # bs" and st: "start \<noteq> 0" "end \<noteq> start"
    and al: "(start OR end) AND (vm_quantum v - 1) = 0" and e: "end = start + sz"
  shows "\<exists>v'. vmem_span_create start sz import v = Inr (b2, v') \<and> links v' {} \<and>
     vm_arena v' = vm_arena v @ [b1, b2] \<and>
     vm_seg v' = (vm_seg v)(b1 := \<lparr>vs_start = start, vs_end = end, vs_type = VMEM_SPAN, vs_import = False\<rparr>,
        b2 := \<lparr>vs_start = start, vs_end = end, vs_type = VMEM_FREE, vs_import = import\<rparr>) \<and>
     vm_segfree v' = bs \<and> vm_spans v' = vm_spans v @ [b1] \<and> vm_quantum v' = vm_quantum v \<and> vm_qshift v' = vm_qshift v \<and>
     vk_mem_total (vm_kstat v') = vk_mem_total (vm_kstat v) + sz \<and>
     vk_mem_import (vm_kstat v') = (if import then vk_mem_import (vm_kstat v) + sz else vk_mem_import (vm_kstat v)) \<and>
     seg_reserve v' = seg_reserve v \<and> seg_ids v' = seg_ids v"
proof -
  let ?s1 = "\<lparr>vs_start = start, vs_end = end, vs_type = VMEM_SPAN, vs_import = False\<rparr>"
  let ?s2 = "\<lparr>vs_start = start, vs_end = end, vs_type = VMEM_FREE, vs_import = False\<rparr>"
  have d: "distinct (vm_arena v @ b1 # b2 # bs)" using inv b by (simp add: links_def pool_ok_def)
  from vmem_seg_create_last [OF inv b st(1), of "end" VMEM_SPAN] obtain v1 where
    v1: "vmem_seg_create (last_opt (vm_arena v)) start end VMEM_SPAN v = Inr (b1, v1)" "links v1 {b1}"
      "vm_arena v1 = vm_arena v @ [b1]" "vm_seg v1 = (vm_seg v)(b1 := ?s1)" "vm_segfree v1 = b2 # bs" "keeps v v1" by auto
  have l1: "links v1 {}" by (rule span_unlimbo [OF v1(2)]) (simp add: v1(4))
  from vmem_seg_create_ok [OF l1 _ v1(5) st(1), of "vm_arena v" b1 "[]" "end" VMEM_FREE] v1(3) obtain v2 where
    v2: "vmem_seg_create (Some b1) start end VMEM_FREE v1 = Inr (b2, v2)" "links v2 {b2}" "vm_arena v2 = vm_arena v @ [b1, b2]"
      "vm_seg v2 = (vm_seg v1)(b2 := ?s2)" "vm_segfree v2 = bs" "keeps v1 v2" by auto
  define v3 where "v3 = v2\<lparr>vm_spans := vm_spans v2 @ [b1]\<rparr>"
  have l3: "links v3 {b2}" using v2(2) by (simp add: v3_def)
  have m: "b2 \<in> set (vm_arena v3)" "b2 \<in> {b2}" using v2(3) by (simp_all add: v3_def)
  have sz: "VS_SIZE v3 b2 \<noteq> 0" using st(2) by (simp add: v3_def VS_SIZE_def seg_size_def v2(4))
  obtain fm fl where f: "vmem_freelist_insert b2 v3 = Inr ((set_type b2 VMEM_FREE v3)\<lparr>vm_freemap := fm, vm_freelist := fl\<rparr>)"
      "links ((set_type b2 VMEM_FREE v3)\<lparr>vm_freemap := fm, vm_freelist := fl\<rparr>) ({b2} - {b2})"
    by (rule vmem_freelist_insert_ok [OF l3 m sz])
  define v4 where "v4 = (set_type b2 VMEM_FREE v3)\<lparr>vm_freemap := fm, vm_freelist := fl\<rparr>"
  let ?k = "\<lambda>k. k\<lparr>vk_mem_import := (if import then vk_mem_import k + sz else vk_mem_import k), vk_mem_total := vk_mem_total k + sz\<rparr>"
  define v5 where "v5 = upd_kstat ?k (upd_seg b2 (vs_import_update (\<lambda>_. import)) v4)"
  have "links v5 {}"
    using links_set_import [of v4 "{}" b2 "\<lambda>_. import"] f(2) unfolding v5_def v4_def by (simp add: links_frame_kstat)
  moreover have "vmem_span_create start sz import v = Inr (b2, v5)"
    using al v1(1) v2(1) f(1) by (simp add: vmem_span_create_def Let_def v3_def [symmetric] v5_def v4_def [symmetric] flip: e)
  moreover have "vm_seg v5 = (vm_seg v)(b1 := ?s1, b2 := ?s2\<lparr>vs_import := import\<rparr>)"
    by (simp add: v5_def v4_def v3_def v2(4) v1(4))
  moreover have "seg_ids v5 = seg_ids v2" by (simp add: seg_ids_def v5_def v4_def v3_def)
  ultimately show ?thesis
    using v1(6) v2(3,5,6) by (simp add: v5_def v4_def v3_def keeps_def seg_reserve_def)
qed

lemma span_block_hi:
  assumes "fst b \<noteq> 0" "snd b \<noteq> 0" "unat (fst b) + unat (snd b) \<le> 2 ^ 64"
  shows "hi_of (fst b + snd b) = unat (fst b) + unat (snd b)" "unat (fst b) < hi_of (fst b + snd b)"
proof -
  show h: "hi_of (fst b + snd b) = unat (fst b) + unat (snd b)" by (rule hi_of_add [OF assms(3,2)])
  have "0 < unat (snd b)" using assms(2) by (simp add: unat_gt_0)
  then show "unat (fst b) < hi_of (fst b + snd b)" unfolding h by linarith
qed

lemma vmem_span_create_ok:
  assumes inv: "vmem_inv v" and b: "vm_segfree v = b1 # b2 # bs" and fr: "fresh_block (vm_span_set v) (start, sz)"
    and al: "2 ^ vm_qshift v dvd unat start" "2 ^ vm_qshift v dvd unat sz"
  shows "\<exists>v'. vmem_span_create start sz import v = Inr (b2, v') \<and> vmem_inv v' \<and> vm_allocs v' = vm_allocs v \<and>
     vm_span_set v' = insert (start, sz) (vm_span_set v) \<and> b2 \<in> live v' {} VMEM_FREE \<and>
     vm_seg v' b2 = \<lparr>vs_start = start, vs_end = start + sz, vs_type = VMEM_FREE, vs_import = import\<rparr> \<and>
     vm_segfree v' = bs \<and> vm_quantum v' = vm_quantum v \<and> vm_qshift v' = vm_qshift v \<and> seg_reserve v' = seg_reserve v \<and> seg_ids v' = seg_ids v"
proof -
  let ?e = "start + sz" and ?q = "2 ^ vm_qshift v :: nat"
  let ?s1 = "\<lparr>vs_start = start, vs_end = ?e, vs_type = VMEM_SPAN, vs_import = False\<rparr>"
  let ?s2 = "\<lparr>vs_start = start, vs_end = ?e, vs_type = VMEM_FREE, vs_import = import\<rparr>"
  have f: "start \<noteq> 0" "sz \<noteq> 0" "unat start + unat sz \<le> 2 ^ 64" using fr by (auto simp: fresh_block_def)
  have h: "hi_of ?e = unat start + unat sz" "unat start < hi_of ?e" using span_block_hi [of "(start, sz)"] f by auto
  have k: "vm_quantum v = 2 ^ vm_qshift v" "vm_qshift v < 64" using inv_parts(2) [OF inv] by (auto simp: quantum_ok_def)
  have de: "?q dvd hi_of ?e" unfolding h using al by simp
  have due: "?q dvd unat ?e" using de k(2) by (cases "?e = 0") (auto simp: hi_of_alt)
  have "(start OR ?e) AND (vm_quantum v - 1) = 0" unfolding k(1) using quantum_mask_or [OF k(2)] al(1) due by simp
  moreover have "?e \<noteq> start" using f(2) by simp
  ultimately obtain v' where v': "vmem_span_create start sz import v = Inr (b2, v')" "links v' {}" "vm_arena v' = vm_arena v @ [b1, b2]"
     "vm_seg v' = (vm_seg v)(b1 := ?s1, b2 := ?s2)" "vm_segfree v' = bs" "vm_spans v' = vm_spans v @ [b1]"
     "vm_quantum v' = vm_quantum v" "vm_qshift v' = vm_qshift v"
     "vk_mem_total (vm_kstat v') = vk_mem_total (vm_kstat v) + sz"
     "vk_mem_import (vm_kstat v') = (if import then vk_mem_import (vm_kstat v) + sz else vk_mem_import (vm_kstat v))"
     "seg_reserve v' = seg_reserve v" "seg_ids v' = seg_ids v"
    using span_create_links [OF inv_parts(1) [OF inv] b f(1) _ _ refl, of sz import] by blast
  have d: "distinct (vm_arena v @ b1 # b2 # bs)" using inv_parts(1) [OF inv] b by (simp add: links_def pool_ok_def)
  have S: "segs v' = segs v @ [?s1, ?s2]" using d by (auto simp: segs_def v'(3,4))
  have lo: "0 < unat start" using f(1) by (simp add: unat_gt_0)
  have t: "tiles ?q (segs v')" unfolding S
    by (rule tiles_add_span [OF inv_parts(3) [OF inv]]) (use al(1) de h lo in simp_all)
  have r1: "rng ?s1 = block (start, sz)" using h by (simp add: rng_def block_def)
  have ap: "spans_apart (segs v')"
  proof -
    have "apart x ?s1" if x: "x \<in> set (segs v)" "is_span x" for x
    proof -
      have "rng x = block (vs_start x, seg_size x)" using inv_segs_nonempty [OF inv x(1)] by (rule rng_block)
      moreover have "(vs_start x, seg_size x) \<in> vm_span_set v" using x by (auto simp: vm_span_set_def)
      ultimately show ?thesis using fr r1 by (auto simp: fresh_block_def)
    qed
    then show ?thesis using inv_parts(4) [OF inv] by (simp add: spans_apart_def S sorted_wrt_append)
  qed
  have sid: "vm_spans v' = span_ids v'"
  proof -
    have "span_ids v' = span_ids v @ [b1]" using d by (auto simp: v'(3,4) intro: filter_cong)
    then show ?thesis using inv_parts(5) [OF inv] v'(6) by simp
  qed
  have tot: "totals_ok v'"
    using inv_parts(6) [OF inv] v'(9,10) unfolding totals_ok_def S by (simp add: imp_sum_append seg_size_def)
  have "vmem_inv v'"
    using v'(2,7,8) t ap sid tot inv_parts(2) [OF inv] by (simp add: vmem_inv_def quantum_ok_def layout_ok_def)
  moreover have "vm_span_set v' = insert (start, sz) (vm_span_set v)"
    by (simp add: vm_span_set_def S seg_size_def)
  moreover have "b2 \<in> live v' {} VMEM_FREE" by (simp add: live_def v'(3,4))
  ultimately show ?thesis using v' S d by (simp add: vm_allocs_def)
qed

end
