(* ===== verification/Vmem_Alloc.thy ===== *)
theory Vmem_Alloc
  imports Vmem_Span
begin

section \<open>Vmem: allocation against any source\<close>

text \<open>
  \<open>vmem_xalloc()\<close> against any surroundings. The locale \<open>vmem_surroundings\<close> states what an arena relies
  on: populating the pool, the source functions, \<open>kmem_reap()\<close> and \<open>cv_wait()\<close> keep the arena
  consistent, relate the allocated blocks before and after by \<open>R\<close>, and the source hands out blocks
  that are aligned and disjoint from the spans the arena holds. The lemmas on allocation and freeing
  are proved once inside it.
\<close>

subsection \<open>The contract of the surroundings\<close>

type_synonym blocks = "(ulong \<times> ulong) set"

definition stepped :: "(blocks \<Rightarrow> blocks \<Rightarrow> bool) \<Rightarrow> vmem \<Rightarrow> vmem \<Rightarrow> bool" where
  "stepped R v v' \<longleftrightarrow> R (vm_allocs v) (vm_allocs v') \<and> vmem_inv v' \<and> 0 \<le> vm_nsegfree v' \<and> seg_reserve v' = seg_reserve v \<and>
     vm_quantum v' = vm_quantum v \<and> vm_qshift v' = vm_qshift v"

lemma inv_nsegfree [simp]:
  "vmem_inv (v\<lparr>vm_nsegfree := n\<rparr>) = vmem_inv v" "vm_span_set (v\<lparr>vm_nsegfree := n\<rparr>) = vm_span_set v"
  "vm_allocs (v\<lparr>vm_nsegfree := n\<rparr>) = vm_allocs v" "seg_ids (v\<lparr>vm_nsegfree := n\<rparr>) = seg_ids v"
  by (simp_all add: seg_ids_def vmem_inv_def quantum_ok_def layout_ok_def segs_def totals_ok_def vm_span_set_def vm_allocs_def)

lemma inv_kstat:
  assumes "vk_mem_inuse (f (vm_kstat v)) = vk_mem_inuse (vm_kstat v)" "vk_alloc (f (vm_kstat v)) = vk_alloc (vm_kstat v)"
    "vk_free (f (vm_kstat v)) = vk_free (vm_kstat v)" "same_totals (vm_kstat v) (f (vm_kstat v))"
  shows "vmem_inv (upd_kstat f v) = vmem_inv v" "vm_span_set (upd_kstat f v) = vm_span_set v"
    "vm_allocs (upd_kstat f v) = vm_allocs v" "seg_reserve (upd_kstat f v) = seg_reserve v"
    "live (upd_kstat f v) L t = live v L t" "seg_ids (upd_kstat f v) = seg_ids v"
  using assms
  by (simp_all add: seg_ids_def vmem_inv_def links_frame_kstat quantum_ok_def layout_ok_def segs_def totals_ok_def vm_span_set_def
      vm_allocs_def seg_reserve_def live_def)

abbreviation stepped0 :: "vmem \<Rightarrow> vmem \<Rightarrow> bool" where
  "stepped0 \<equiv> stepped (\<lambda>_ _. True)"

lemma stepped_weaken: "stepped R v v' \<Longrightarrow> stepped0 v v'"
  by (simp add: stepped_def)

lemma stepped0_trans: "stepped0 u v \<Longrightarrow> stepped0 v w \<Longrightarrow> stepped0 u w"
  by (simp add: stepped_def)

locale vmem_surroundings =
  fixes env :: "'w vm_env" and J :: "'w \<Rightarrow> (ulong \<times> ulong) set \<Rightarrow> segp set \<Rightarrow> bool" and R :: "blocks \<Rightarrow> blocks \<Rightarrow> bool" and m :: nat
  assumes R_refl: "R B B" and R_trans: "R A B \<Longrightarrow> R B C \<Longrightarrow> R A C"
    and quantum: "m < 64" "ve_source_quantum env = 2 ^ m"
    and populate: "vmem_inv v \<Longrightarrow> 0 \<le> vm_nsegfree v \<Longrightarrow> 0 \<le> seg_reserve v \<Longrightarrow> J w (vm_span_set v) (seg_ids v) \<Longrightarrow>
      \<exists>ok w' v'. ve_populate env n fl w v = Inr (ok, w', v') \<and> stepped R v v' \<and> J w' (vm_span_set v') (seg_ids v') \<and>
        (ok \<longrightarrow> int n \<le> vm_nsegfree v')"
    and source_alloc: "vmem_inv v \<Longrightarrow> 0 \<le> vm_nsegfree v \<Longrightarrow> 0 \<le> seg_reserve v \<Longrightarrow> J w (vm_span_set v) (seg_ids v) \<Longrightarrow> ve_has_alloc env \<Longrightarrow>
      fl AND VM_PANIC = 0 \<Longrightarrow> z \<noteq> 0 \<Longrightarrow> 2 ^ m dvd unat z \<Longrightarrow>
      \<exists>a w' v'. ve_source_alloc env z fl w v = Inr (a, w', v') \<and> stepped R v v' \<and>
        (if a = 0 then J w' (vm_span_set v') (seg_ids v')
         else J w' (insert (a, z) (vm_span_set v')) (seg_ids v') \<and> fresh_block (vm_span_set v') (a, z) \<and> 2 ^ m dvd unat a)"
    and source_free: "vmem_inv v \<Longrightarrow> 0 \<le> vm_nsegfree v \<Longrightarrow> 0 \<le> seg_reserve v \<Longrightarrow> J w (insert (a, z) (vm_span_set v)) (seg_ids v) \<Longrightarrow>
      (a, z) \<notin> vm_span_set v \<Longrightarrow> ve_has_free env \<Longrightarrow>
      \<exists>w' v'. ve_source_free env a z w v = Inr (w', v') \<and> stepped R v v' \<and> J w' (vm_span_set v') (seg_ids v')"
    and reap: "vmem_inv v \<Longrightarrow> 0 \<le> vm_nsegfree v \<Longrightarrow> 0 \<le> seg_reserve v \<Longrightarrow> J w (vm_span_set v) (seg_ids v) \<Longrightarrow>
      \<exists>w' v'. ve_reap env w v = (w', v') \<and> stepped R v v' \<and> J w' (vm_span_set v') (seg_ids v')"
    and wait: "vmem_inv v \<Longrightarrow> 0 \<le> vm_nsegfree v \<Longrightarrow> 0 \<le> seg_reserve v \<Longrightarrow> J w (vm_span_set v) (seg_ids v) \<Longrightarrow>
      \<exists>w' v'. ve_wait env w v = (w', v') \<and> stepped R v v' \<and> J w' (vm_span_set v') (seg_ids v')"
begin

definition good :: "'w \<Rightarrow> vmem \<Rightarrow> bool" where
  "good w v \<longleftrightarrow> vmem_inv v \<and> 0 \<le> vm_nsegfree v \<and> 0 \<le> seg_reserve v \<and> J w (vm_span_set v) (seg_ids v)"

lemma goodD: "good w v \<Longrightarrow> vmem_inv v" "good w v \<Longrightarrow> 0 \<le> vm_nsegfree v" "good w v \<Longrightarrow> 0 \<le> seg_reserve v"
  "good w v \<Longrightarrow> J w (vm_span_set v) (seg_ids v)"
  by (simp_all add: good_def)

lemma stepped_trans: "stepped R u v \<Longrightarrow> stepped R v w \<Longrightarrow> stepped R u w"
  by (auto simp: stepped_def intro: R_trans)

lemma good_stepped: "good w v \<Longrightarrow> stepped0 v v' \<Longrightarrow> J w' (vm_span_set v') (seg_ids v') \<Longrightarrow> good w' v'"
  by (simp add: good_def stepped_def)

end

subsection \<open>What a turn of the allocation loop finds\<close>

definition import_ok :: "'w vm_env \<Rightarrow> vmem_req \<Rightarrow> vmem \<Rightarrow> bool" where
  "import_ok env r v \<longleftrightarrow> (ve_has_alloc env \<and> rq_nocross r = 0 \<and> rq_minaddr r = 0 \<and> rq_maxaddr r = 0 \<longrightarrow>
     rq_flag r AND VM_PANIC = 0 \<and> vm_quantum v \<le> ve_source_quantum env \<and> rq_align r \<le> ve_source_quantum env \<and>
     unat (rq_size r) + 2 * unat (ve_source_quantum env) \<le> 2 ^ 64)"

definition candidate :: "vmem_req \<Rightarrow> vmem \<Rightarrow> segp \<Rightarrow> ulong \<Rightarrow> bool" where
  "candidate r v p a \<longleftrightarrow> p \<in> live v {} VMEM_FREE \<and> lo (vm_seg v p) \<le> unat a \<and>
     unat a + unat (rq_size r) \<le> hi (vm_seg v p) \<and> meets r a"

lemma vmem_flist_lt:
  assumes "rq_size r \<noteq> 0"
  shows "vmem_flist r v < 64"
  using highbit_bounds(1,2) [OF assms] by (auto simp: vmem_flist_def Let_def VMEM_FREELISTS_def)

lemma search_candidate:
  assumes inv: "vmem_inv v" and r: "req_ok r" and s: "fst (vmem_search v r (vmem_flist r v) n) = Inr (Some (p, a))"
  shows "candidate r v p a"
proof -
  have ok: "pool_ok v" "flist_ok v {}" "freemap_ok v" using inv_parts(1) [OF inv] by (auto simp: links_def)
  have "rq_size r \<noteq> 0" using r by (simp add: req_ok_def)
  from vmem_search_ok [OF ok vmem_flist_lt [OF this, of v], where r = r and n = n] s
  have p: "p \<in> live v {} VMEM_FREE" "vmem_fit r (vm_seg v p) = Some a" by (auto simp: search_ok_def)
  then have "p \<in> set (vm_arena v)" by (simp add: live_def)
  from vmem_fit_ok [OF r inv_seg(1,2) [OF inv this] p(2)] p(1) show ?thesis by (simp add: candidate_def)
qed

lemma search_no_fault:
  assumes "vmem_inv v" "req_ok r"
  shows "\<exists>b. fst (vmem_search v r (vmem_flist r v) n) = Inr b"
proof -
  have ok: "pool_ok v" "flist_ok v {}" "freemap_ok v" using inv_parts(1) [OF assms(1)] by (auto simp: links_def)
  have "rq_size r \<noteq> 0" using assms(2) by (simp add: req_ok_def)
  from vmem_search_ok [OF ok vmem_flist_lt [OF this, of v], where r = r and n = n] show ?thesis
    by (cases "fst (vmem_search v r (vmem_flist r v) n)") (auto simp: search_ok_def)
qed

lemma meets_quantum:
  assumes "meets r a" "req_ok r" "quantum_ok v" "xalloc_check r v = None"
  shows "2 ^ vm_qshift v dvd unat a"
proof -
  let ?k = "vm_qshift v"
  from assms(2) obtain j where j: "rq_align r = 2 ^ j" "j < 64" by (auto simp: req_ok_def)
  have k: "vm_quantum v = 2 ^ ?k" "?k < 64" using assms(3) by (auto simp: quantum_ok_def)
  have "((rq_align r OR rq_phase r) OR rq_nocross r) AND (2 ^ ?k - 1) = 0"
    using assms(4) k(1) by (auto simp: xalloc_check_def or.assoc split: if_splits)
  from quantum_mask_or [OF k(2), THEN iffD1, OF this] have "2 ^ ?k dvd unat (rq_align r OR rq_phase r)" ..
  then have "(rq_align r OR rq_phase r) AND (2 ^ ?k - 1) = 0" using quantum_mask [OF k(2)] by blast
  then have d: "2 ^ ?k dvd unat (rq_align r)" "2 ^ ?k dvd unat (rq_phase r)" using quantum_mask_or [OF k(2)] by auto
  have "unat a mod 2 ^ j = unat (rq_phase r)" using assms(1) unfolding meets_def j(1) P2_exp by (metis unat_take_bit)
  moreover have "(2::nat) ^ ?k dvd 2 ^ j" using d(1) j by simp
  ultimately show ?thesis using d(2) by (metis dvd_mod_iff)
qed

lemma import_size:
  assumes r: "req_ok r" and al: "rq_align r \<le> 2 ^ m" and sz: "unat (rq_size r) + 2 * 2 ^ m \<le> 2 ^ 64" and m: "m < 64"
  defines "asize \<equiv> P2ROUNDUP (rq_size r + rq_phase r) (max (rq_align r) (2 ^ m))"
  shows "asize \<noteq> 0" "2 ^ m dvd unat asize" "unat (rq_phase r) + unat (rq_size r) \<le> unat asize"
proof -
  from r obtain j where j: "rq_align r = 2 ^ j" "unat (rq_phase r) < 2 ^ j" "j < 64" by (auto simp: req_ok_def)
  let ?x = "rq_size r + rq_phase r"
  have le: "(2::nat) ^ j \<le> 2 ^ m" using al j m by (simp add: word_le_nat_alt)
  have x: "unat ?x = unat (rq_size r) + unat (rq_phase r)" using sz le j(2) by (intro unat_add_lt) linarith
  have a: "asize = P2ROUNDUP ?x (2 ^ m)" using al by (simp add: asize_def max_def)
  have u: "unat asize = unat ?x + unat (take_bit m (- ?x))"
    unfolding a P2_exp using sz le j(2) x unat_take_bit_lt [of m "- ?x"] by (intro unat_add_lt) linarith
  then show ge: "unat (rq_phase r) + unat (rq_size r) \<le> unat asize" using x by linarith
  have "0 < unat (rq_size r)" using r by (simp add: req_ok_def unat_gt_0)
  then show nz: "asize \<noteq> 0" using ge by auto
  have "?x \<noteq> 0" using x \<open>0 < unat (rq_size r)\<close> by (metis add_is_0 less_numeral_extra(3) unat_0)
  have "hi_of asize = rup (2 ^ m) (hi_of ?x)" unfolding a by (rule hi_of_P2ROUNDUP [OF m])
  then show "2 ^ m dvd unat asize" using hi_of_nz [OF nz] by (metis dvd_rup)
qed

lemma import_address:
  assumes r: "req_ok r" and al: "rq_align r \<le> 2 ^ m" "m < 64" "2 ^ m dvd unat a"
    and b: "unat a + unat z \<le> 2 ^ 64" "unat (rq_phase r) + unat (rq_size r) \<le> unat z"
  shows "unat (P2PHASEUP a (rq_align r) (rq_phase r)) = unat a + unat (rq_phase r)"
    "P2PHASE (P2PHASEUP a (rq_align r) (rq_phase r)) (rq_align r) = rq_phase r"
proof -
  from r obtain j where j: "rq_align r = 2 ^ j" "unat (rq_phase r) < 2 ^ j" "j < 64" by (auto simp: req_ok_def)
  have "(2::nat) ^ j \<le> 2 ^ m" using al(1,2) j by (simp add: word_le_nat_alt)
  then have jm: "j \<le> m" by simp
  then have "2 ^ j dvd unat a" using al(3) by (meson dvd_trans le_imp_power_dvd)
  then have za: "take_bit j a = 0" by (simp add: word_unat_eq_iff unat_take_bit dvd_eq_mod_eq_0)
  have "take_bit j (rq_phase r - a) = take_bit j (rq_phase r - a + a)" by (rule take_bit_add_zero [OF za, symmetric]) (use j(3) in simp)
  then have t: "take_bit j (rq_phase r - a) = rq_phase r" using j(2) by (simp add: word_unat_eq_iff unat_take_bit)
  have "0 < unat (rq_size r)" using r by (simp add: req_ok_def unat_gt_0)
  then show "unat (P2PHASEUP a (rq_align r) (rq_phase r)) = unat a + unat (rq_phase r)"
    unfolding phaseup(1) [OF j] t using b by (intro unat_add_lt) linarith
  show "P2PHASE (P2PHASEUP a (rq_align r) (rq_phase r)) (rq_align r) = rq_phase r"
    using phaseup(2) [OF j] unfolding j(1) P2_exp .
qed

context vmem_surroundings
begin

lemma segfree_two:
  assumes "seg_reserve v = rsv" "0 \<le> rsv" "2 \<le> vm_nsegfree v"
  obtains b1 b2 bs where "vm_segfree v = b1 # b2 # bs"
proof -
  have "2 \<le> length (vm_segfree v)" using assms by (simp add: seg_reserve_def)
  then show thesis using that by (cases "vm_segfree v"; cases "tl (vm_segfree v)") auto
qed

lemma xalloc_import_ok:
  assumes g: "good w v" and n: "4 \<le> vm_nsegfree v" and r: "req_ok r" and im: "import_ok env r v"
  shows "\<exists>imp w' v'. xalloc_import env r w v = Inr (imp, w', v') \<and> stepped R v v' \<and> J w' (vm_span_set v') (seg_ids v') \<and>
     (case imp of None \<Rightarrow> True | Some (p, a) \<Rightarrow> candidate r v' p a \<and> 2 \<le> vm_nsegfree v')"
proof (cases "ve_has_alloc env \<and> rq_nocross r = 0 \<and> rq_minaddr r = 0 \<and> rq_maxaddr r = 0")
  case False
  with g show ?thesis by (auto simp: xalloc_import_def good_def stepped_def R_refl)
next
  case True
  let ?z = "P2ROUNDUP (rq_size r + rq_phase r) (max (rq_align r) (2 ^ m))" and ?v = "v\<lparr>vm_nsegfree := vm_nsegfree v - 4\<rparr>"
  have al: "rq_align r \<le> 2 ^ m" "unat (rq_size r) + 2 * 2 ^ m \<le> 2 ^ 64" "vm_quantum v \<le> 2 ^ m" "rq_flag r AND VM_PANIC = 0"
    using im True quantum by (simp_all add: import_ok_def)
  note z = import_size [OF r al(1,2) quantum(1)]
  have k: "vm_quantum v = 2 ^ vm_qshift v" "vm_qshift v < 64" using inv_parts(2) [OF goodD(1) [OF g]] by (auto simp: quantum_ok_def)
  have "(2::nat) ^ vm_qshift v \<le> 2 ^ m" using al(3) k quantum(1) by (simp add: word_le_nat_alt)
  then have km: "(2::nat) ^ vm_qshift v dvd 2 ^ m" by (simp add: le_imp_power_dvd)
  have i: "vmem_inv ?v" "vm_span_set ?v = vm_span_set v" "seg_ids ?v = seg_ids v"
    using goodD(1) [OF g] by simp_all
  have "\<exists>a w' v'. ve_source_alloc env ?z (rq_flag r) w ?v = Inr (a, w', v') \<and> stepped R ?v v' \<and>
        (if a = 0 then J w' (vm_span_set v') (seg_ids v')
         else J w' (insert (a, ?z) (vm_span_set v')) (seg_ids v') \<and> fresh_block (vm_span_set v') (a, ?z) \<and> 2 ^ m dvd unat a)"
    by (rule source_alloc) (use True i n goodD [OF g] z al(4) in \<open>simp_all add: seg_reserve_def\<close>)
  then obtain a w' v' where sa: "ve_source_alloc env ?z (rq_flag r) w ?v = Inr (a, w', v')" "stepped R ?v v'"
    and ja: "if a = 0 then J w' (vm_span_set v') (seg_ids v')
         else J w' (insert (a, ?z) (vm_span_set v')) (seg_ids v') \<and> fresh_block (vm_span_set v') (a, ?z) \<and> 2 ^ m dvd unat a" by blast
  define v1 where "v1 = v'\<lparr>vm_nsegfree := vm_nsegfree v' + 4\<rparr>"
  have i1: "vmem_inv v1" "vm_span_set v1 = vm_span_set v'" "seg_reserve v1 = seg_reserve v" "4 \<le> vm_nsegfree v1"
      "vm_quantum v1 = vm_quantum v" "vm_qshift v1 = vm_qshift v" "seg_ids v1 = seg_ids v'"
      "R (vm_allocs v) (vm_allocs v1)"
    using sa(2) by (simp_all add: v1_def stepped_def seg_reserve_def)
  show ?thesis
  proof (cases "a = 0")
    case True
    with sa(1) \<open>ve_has_alloc env \<and> _\<close> have "xalloc_import env r w v = Inr (None, w', v1)"
      by (simp add: xalloc_import_def Let_def quantum(2) v1_def)
    with i1 ja True show ?thesis by (auto simp: stepped_def)
  next
    case False
    obtain b1 b2 bs where b: "vm_segfree v1 = b1 # b2 # bs"
      using segfree_two [OF i1(3) goodD(3) [OF g]] i1(4) by auto
    have fr: "fresh_block (vm_span_set v1) (a, ?z)" "2 ^ m dvd unat a" using ja False i1(2) by auto
    have d: "2 ^ vm_qshift v1 dvd unat a" "2 ^ vm_qshift v1 dvd unat ?z"
      unfolding i1(6) using km fr(2) z(2) by (blast intro: dvd_trans)+
    from vmem_span_create_ok [OF i1(1) b fr(1) d, of True] obtain v2 where
      v2: "vmem_span_create a ?z True v1 = Inr (b2, v2)" "vmem_inv v2" "vm_allocs v2 = vm_allocs v1" "vm_span_set v2 = insert (a, ?z) (vm_span_set v1)"
        "b2 \<in> live v2 {} VMEM_FREE" "vm_seg v2 b2 = \<lparr>vs_start = a, vs_end = a + ?z, vs_type = VMEM_FREE, vs_import = True\<rparr>"
        "vm_segfree v2 = bs" "vm_quantum v2 = vm_quantum v1" "vm_qshift v2 = vm_qshift v1" "seg_reserve v2 = seg_reserve v1" "seg_ids v2 = seg_ids v1" by blast
    let ?a = "P2PHASEUP a (rq_align r) (rq_phase r)"
    have run: "xalloc_import env r w v = Inr (Some (b2, ?a), w', v2)"
      using sa(1) \<open>ve_has_alloc env \<and> _\<close> False v2(1,6) by (simp add: xalloc_import_def Let_def quantum(2) v1_def [symmetric])
    have fb: "a \<noteq> 0" "?z \<noteq> 0" "unat a + unat ?z \<le> 2 ^ 64" using fr(1) by (auto simp: fresh_block_def)
    note ad = import_address [OF r al(1) quantum(1) fr(2) fb(3) z(3)]
    have hi: "hi (vm_seg v2 b2) = unat a + unat ?z" using span_block_hi(1) [of "(a, ?z)"] fb v2(6) by simp
    have c: "candidate r v2 b2 ?a"
      using v2(5,6) ad z(3) hi fb(3) \<open>ve_has_alloc env \<and> _\<close> P2CROSS_0 by (simp add: candidate_def meets_def hi_of_alt)
    have nf: "2 \<le> vm_nsegfree v2" using v2(7,10) b i1(4) by (simp add: seg_reserve_def)
    then have "stepped R v v2" using v2 i1 by (simp add: stepped_def)
    with run c nf v2(4,11) i1(2,7) ja False show ?thesis by auto
  qed
qed

definition turn_ok :: "vmem_req \<Rightarrow> vmem \<Rightarrow> 'w xturn \<Rightarrow> bool" where
  "turn_ok r v t \<longleftrightarrow> (case t of
     XFound p a w' v' \<Rightarrow> good w' v' \<and> stepped R v v' \<and> candidate r v' p a \<and> 2 \<le> vm_nsegfree v'
   | XFail w' v' \<Rightarrow> good w' v' \<and> stepped R v v'
   | XRetry w' v' \<Rightarrow> good w' v' \<and> stepped R v v' \<and> rq_flag r AND VM_NOSLEEP = 0)"

lemma stepped_good: "good w v \<Longrightarrow> stepped R v v"
  by (simp add: good_def stepped_def R_refl)

lemma import_ok_stepped: "stepped R v v' \<Longrightarrow> import_ok env r v \<Longrightarrow> import_ok env r v'"
  by (simp add: import_ok_def stepped_def)

lemma xalloc_turn_ok:
  assumes g: "good w v" and r: "req_ok r" and im: "import_ok env r v"
  shows "\<exists>t. xalloc_turn env r reaped w v = Inr t \<and> turn_ok r v t"
proof -
  from populate [OF goodD [OF g], of 4 "rq_flag r"] obtain ok w1 v1 where
    p: "ve_populate env 4 (rq_flag r) w v = Inr (ok, w1, v1)" "stepped R v v1" "J w1 (vm_span_set v1) (seg_ids v1)" "ok \<longrightarrow> 4 \<le> vm_nsegfree v1"
    by auto
  have g1: "good w1 v1" by (rule good_stepped [OF g stepped_weaken [OF p(2)] p(3)])
  show ?thesis
  proof (cases ok)
    case False
    with p g1 show ?thesis by (simp add: xalloc_turn_def turn_ok_def)
  next
    case True
    obtain res n where s: "vmem_search v1 r (vmem_flist r v1) 0 = (res, n)" by (cases "vmem_search v1 r (vmem_flist r v1) 0")
    define v2 where "v2 = upd_kstat (\<lambda>k. k\<lparr>vk_search := vk_search k + word_of_nat n\<rparr>) v1"
    have k: "vmem_inv v2 = vmem_inv v1" "vm_span_set v2 = vm_span_set v1" "seg_reserve v2 = seg_reserve v1"
        "live v2 L t = live v1 L t" "vm_seg v2 = vm_seg v1" "vm_nsegfree v2 = vm_nsegfree v1" "vm_allocs v2 = vm_allocs v1" "vm_quantum v2 = vm_quantum v1"
        "vm_qshift v2 = vm_qshift v1" "seg_ids v2 = seg_ids v1" for L t unfolding v2_def by (simp_all add: inv_kstat)
    have g2: "good w1 v2" using g1 by (simp add: good_def k)
    have st2: "stepped R v v2" using p(2) by (simp add: stepped_def k)
    obtain best where b: "res = Inr best" using search_no_fault [OF goodD(1) [OF g1] r, of 0] s by auto
    show ?thesis
    proof (cases best)
      case (Some pa)
      obtain q a where pa: "pa = (q, a)" by (cases pa)
      have "candidate r v1 q a" using search_candidate [OF goodD(1) [OF g1] r, of 0] s b Some pa by simp
      then have c: "candidate r v2 q a" by (simp add: candidate_def k)
      have "xalloc_turn env r reaped w v = Inr (XFound q a w1 v2)"
        using p(1) True s b Some pa by (simp add: xalloc_turn_def v2_def)
      then show ?thesis using g2 st2 c p(4) True by (simp add: turn_ok_def k)
    next
      case None
      have n2: "4 \<le> vm_nsegfree v2" using p(4) True by (simp add: k)
      from xalloc_import_ok [OF g2 n2 r import_ok_stepped [OF st2 im]] obtain imp w3 v3 where
        x: "xalloc_import env r w1 v2 = Inr (imp, w3, v3)" "stepped R v2 v3" "J w3 (vm_span_set v3) (seg_ids v3)"
          "case imp of None \<Rightarrow> True | Some (p, a) \<Rightarrow> candidate r v3 p a \<and> 2 \<le> vm_nsegfree v3" by blast
      have g3: "good w3 v3" by (rule good_stepped [OF g2 stepped_weaken [OF x(2)] x(3)])
      have st3: "stepped R v v3" by (rule stepped_trans [OF st2 x(2)])
      show ?thesis
      proof (cases imp)
        case (Some pa)
        obtain q a where pa: "pa = (q, a)" by (cases pa)
        have "xalloc_turn env r reaped w v = Inr (XFound q a w3 v3)"
          using p(1) True s b None x(1) Some pa by (simp add: xalloc_turn_def v2_def)
        then show ?thesis using g3 st3 x(4) Some pa by (simp add: turn_ok_def)
      next
        case imp: None
        obtain w4 v4 where r4: "(if reaped then (w3, v3) else ve_reap env w3 v3) = (w4, v4)" "good w4 v4" "stepped R v v4"
        proof (cases reaped)
          case True
          then show ?thesis using that g3 st3 by simp
        next
          case False
          from reap [OF goodD [OF g3]] obtain w4 v4 where "ve_reap env w3 v3 = (w4, v4)" "stepped R v3 v4" "J w4 (vm_span_set v4) (seg_ids v4)" by blast
          with False show ?thesis using that good_stepped [OF g3 stepped_weaken] stepped_trans [OF st3] by simp
        qed
        show ?thesis
        proof (cases "rq_flag r AND VM_NOSLEEP = 0")
          case False
          then have "xalloc_turn env r reaped w v = Inr (XFail w4 v4)"
            using p(1) True s b None x(1) imp r4(1) by (simp add: xalloc_turn_def v2_def)
          then show ?thesis using r4(2,3) by (simp add: turn_ok_def)
        next
          case sl: True
          define v5 where "v5 = upd_kstat (\<lambda>k. k\<lparr>vk_wait := vk_wait k + 1\<rparr>) v4"
          have k5: "vmem_inv v5 = vmem_inv v4" "vm_span_set v5 = vm_span_set v4" "seg_reserve v5 = seg_reserve v4"
            "vm_nsegfree v5 = vm_nsegfree v4" "vm_allocs v5 = vm_allocs v4" "vm_quantum v5 = vm_quantum v4" "vm_qshift v5 = vm_qshift v4" "seg_ids v5 = seg_ids v4"
            unfolding v5_def by (simp_all add: inv_kstat)
          have g5: "good w4 v5" using r4(2) by (simp add: good_def k5)
          have st5: "stepped R v v5" using r4(3) by (simp add: stepped_def k5)
          from wait [OF goodD [OF g5]] obtain w6 v6 where w6: "ve_wait env w4 v5 = (w6, v6)" "stepped R v5 v6" "J w6 (vm_span_set v6) (seg_ids v6)" by blast
          have "xalloc_turn env r reaped w v = Inr (XRetry w6 v6)"
            using p(1) True s b None x(1) imp r4(1) sl w6(1) by (simp add: xalloc_turn_def v2_def v5_def)
          then show ?thesis using good_stepped [OF g5 stepped_weaken [OF w6(2)] w6(3)] stepped_trans [OF st5 w6(2)] sl by (simp add: turn_ok_def)
        qed
      qed
    qed
  qed
qed

definition alloc_post :: "vmem_req \<Rightarrow> vmem \<Rightarrow> ulong \<Rightarrow> 'w \<Rightarrow> vmem \<Rightarrow> bool" where
  "alloc_post r v a w' v' \<longleftrightarrow> good w' v' \<and> stepped0 v v' \<and>
     (if a = 0 then R (vm_allocs v) (vm_allocs v')
      else meets r a \<and> (\<exists>B. R (vm_allocs v) B \<and> vm_allocs v' = insert (a, rq_size r) B \<and> (a, rq_size r) \<notin> B))"

lemma xalloc_take_post:
  assumes g: "good w v" and r: "req_ok r" "xalloc_check r v = None" and c: "candidate r v p a" and n: "2 \<le> vm_nsegfree v"
  shows "\<exists>v'. xalloc_take r p a w v = Inr (a, w, v') \<and> alloc_post r v a w v' \<and> a \<noteq> 0"
proof -
  note inv = goodD(1) [OF g]
  obtain b1 b2 bs where b: "vm_segfree v = b1 # b2 # bs" using segfree_two [OF refl goodD(3) [OF g] n] by blast
  have p: "p \<in> set (vm_arena v)" "is_free (vm_seg v p)" using c by (auto simp: candidate_def live_def)
  have q: "2 ^ vm_qshift v dvd unat a" using meets_quantum [OF _ r(1) inv_parts(2) [OF inv] r(2)] c by (simp add: candidate_def)
  have "rq_size r \<noteq> 0" using r(1) by (simp add: req_ok_def)
  from xalloc_take_ok [OF inv p this _ _ q b, of w] c obtain v' where
    v': "xalloc_take r p a w v = Inr (a, w, v')" "vmem_inv v'" "keeps v v'" "vm_allocs v' = insert (a, rq_size r) (vm_allocs v)"
      "(a, rq_size r) \<notin> vm_allocs v" "vm_span_set v' = vm_span_set v" "length (vm_segfree v) \<le> length (vm_segfree v') + 2"
    by (auto simp: candidate_def)
  have n': "0 \<le> vm_nsegfree v'" using v'(3,7) n by (simp add: keeps_def seg_reserve_def)
  have st: "stepped0 v v'" using v'(2,3) n' by (simp add: stepped_def keeps_def)
  have "good w v'" by (rule good_stepped [OF g st]) (use v'(3,6) goodD(4) [OF g] in \<open>simp add: keeps_def\<close>)
  moreover have "a \<noteq> 0" using c inv_seg(2) [OF inv p(1)] by (auto simp: candidate_def unat_eq_0)
  ultimately show ?thesis using v'(1,4,5) st c R_refl by (auto simp: alloc_post_def candidate_def)
qed

lemma alloc_post_stepped: "stepped R u v \<Longrightarrow> alloc_post r v a w' v' \<Longrightarrow> alloc_post r u a w' v'"
  unfolding alloc_post_def stepped_def by (auto intro: R_trans) (blast intro: R_trans)

lemma xalloc_check_stepped: "stepped R v v' \<Longrightarrow> xalloc_check r v' = xalloc_check r v"
  by (simp add: xalloc_check_def stepped_def)

lemma xalloc_loop_ok:
  assumes "good w v" "req_ok r" "xalloc_check r v = None" "import_ok env r v"
  shows "case xalloc_loop fuel env r reaped w v of
      None \<Rightarrow> fuel = 0 \<or> rq_flag r AND VM_NOSLEEP = 0
    | Some (Inl e) \<Rightarrow> e = VmMandatory \<and> rq_flag r AND VM_PANIC \<noteq> 0
    | Some (Inr (a, w', v')) \<Rightarrow> alloc_post r v a w' v'"
  using assms
proof (induction fuel arbitrary: reaped w v)
  case (Suc fuel)
  from xalloc_turn_ok [OF Suc.prems(1,2,4), of reaped] obtain t where
    t: "xalloc_turn env r reaped w v = Inr t" "turn_ok r v t" by blast
  show ?case
  proof (cases t)
    case (XFound p a w1 v1)
    then have f: "good w1 v1" "stepped R v v1" "candidate r v1 p a" "2 \<le> vm_nsegfree v1" using t(2) by (auto simp: turn_ok_def)
    have ck: "xalloc_check r v1 = None" using xalloc_check_stepped [OF f(2)] Suc.prems(3) by simp
    from xalloc_take_post [OF f(1) Suc.prems(2) ck f(3,4)] alloc_post_stepped [OF f(2)] show ?thesis
      using t(1) XFound by auto
  next
    case (XFail w1 v1)
    then have f: "good w1 v1" "stepped R v v1" using t(2) by (auto simp: turn_ok_def)
    have "alloc_post r v 0 w1 (upd_kstat (\<lambda>k. k\<lparr>vk_fail := vk_fail k + 1\<rparr>) v1)"
      using f by (simp add: alloc_post_def good_def stepped_def inv_kstat)
    then show ?thesis using t(1) XFail by (simp add: xalloc_fail_def Let_def)
  next
    case (XRetry w1 v1)
    then have f: "good w1 v1" "stepped R v v1" "rq_flag r AND VM_NOSLEEP = 0" using t(2) by (auto simp: turn_ok_def)
    have ck: "xalloc_check r v1 = None" using xalloc_check_stepped [OF f(2)] Suc.prems(3) by simp
    from Suc.IH [OF f(1) Suc.prems(2) ck import_ok_stepped [OF f(2) Suc.prems(4)], of True]
    show ?thesis using t(1) XRetry f(3) alloc_post_stepped [OF f(2)]
      by (auto split: option.splits sum.splits prod.splits)
  qed
qed simp

lemma vmem_xfree_post:
  assumes g: "good w v" and al: "(addr, sz) \<in> vm_allocs v"
  shows "\<exists>w' v' v1. vmem_xfree env addr sz w v = Inr (w', v') \<and> good w' v' \<and> stepped R v1 v' \<and> stepped0 v v1 \<and>
     vm_allocs v1 = vm_allocs v - {(addr, sz)} \<and> (\<not> ve_has_free env \<longrightarrow> v' = v1)"
proof -
  from vmem_xfree_ok [OF goodD(1) [OF g] al, of env w] obtain v1 where
    v1: "vmem_inv v1" "vm_allocs v1 = vm_allocs v - {(addr, sz)}" "seg_reserve v1 = seg_reserve v"
      "vm_quantum v1 = vm_quantum v" "vm_qshift v1 = vm_qshift v" "length (vm_segfree v) \<le> length (vm_segfree v1)" "seg_ids v1 = seg_ids v"
    and c: "vmem_xfree env addr sz w v = Inr (w, v1) \<and> vm_span_set v1 = vm_span_set v \<or>
      (\<exists>a z. ve_has_free env \<and> (a, z) \<in> vm_span_set v \<and> vm_span_set v1 = vm_span_set v - {(a, z)} \<and>
         block (addr, sz) \<subseteq> block (a, z) \<and> vmem_xfree env addr sz w v = ve_source_free env a z w v1)" by blast
  have n: "0 \<le> vm_nsegfree v1" using v1(3,6) goodD(2) [OF g] by (simp add: seg_reserve_def)
  have st: "stepped0 v v1" using v1 n by (simp add: stepped_def)
  from c show ?thesis
  proof
    assume s: "vmem_xfree env addr sz w v = Inr (w, v1) \<and> vm_span_set v1 = vm_span_set v"
    then have g1: "good w v1" by (intro good_stepped [OF g st]) (use goodD(4) [OF g] v1(7) in simp)
    with s st v1(2) stepped_good [OF g1] show ?thesis by blast
  next
    assume "\<exists>a z. ve_has_free env \<and> (a, z) \<in> vm_span_set v \<and> vm_span_set v1 = vm_span_set v - {(a, z)} \<and>
         block (addr, sz) \<subseteq> block (a, z) \<and> vmem_xfree env addr sz w v = ve_source_free env a z w v1"
    then obtain a z where s: "ve_has_free env" "(a, z) \<in> vm_span_set v" "vm_span_set v1 = vm_span_set v - {(a, z)}"
      "vmem_xfree env addr sz w v = ve_source_free env a z w v1" by blast
    have "insert (a, z) (vm_span_set v1) = vm_span_set v" using s(2,3) by auto
    then have j: "J w (insert (a, z) (vm_span_set v1)) (seg_ids v1)" using goodD(4) [OF g] v1(7) by simp
    have rsv: "0 \<le> seg_reserve v1" using goodD(3) [OF g] v1(3) by simp
    have nin: "(a, z) \<notin> vm_span_set v1" using s(3) by simp
    from source_free [OF v1(1) n rsv j nin s(1)] obtain w' v' where
      f: "ve_source_free env a z w v1 = Inr (w', v')" "stepped R v1 v'" "J w' (vm_span_set v') (seg_ids v')" by blast
    have "good w' v'" using good_stepped [OF g stepped0_trans [OF st stepped_weaken [OF f(2)]] f(3)] .
    with s(1,4) f(1,2) st v1(2) show ?thesis by auto
  qed
qed

end

end
