(* ===== verification/Vmem_Arenas.thy ===== *)
theory Vmem_Arenas
  imports Vmem_Alloc
begin

section \<open>Vmem: a root arena and an arena that imports from it\<close>

text \<open>
  The two interpretations of the contract of an arena's surroundings on the model itself: a root
  arena, fed by \<open>vmem_seg_arena\<close> only, and an arena whose source functions are \<open>vmem_xalloc()\<close> and
  \<open>vmem_xfree()\<close> of a root arena, so that the laws of the source are discharged by the lemmas on it.
\<close>

subsection \<open>Taking segment structures from vmem_seg_arena\<close>

lemma inv_putseg:
  assumes "vmem_inv v" "p \<notin> seg_ids v"
  shows "vmem_inv (vmem_putseg p v)" "vm_allocs (vmem_putseg p v) = vm_allocs v" "vm_span_set (vmem_putseg p v) = vm_span_set v"
    "seg_reserve (vmem_putseg p v) = seg_reserve v" "seg_ids (vmem_putseg p v) = insert p (seg_ids v)"
    "vm_nsegfree (vmem_putseg p v) = vm_nsegfree v + 1" "vm_quantum (vmem_putseg p v) = vm_quantum v" "vm_qshift (vmem_putseg p v) = vm_qshift v"
    "vm_arena (vmem_putseg p v) = vm_arena v" "vm_seg (vmem_putseg p v) = vm_seg v"
proof -
  have l: "links v {}" using inv_parts(1) [OF assms(1)] .
  have "links (vmem_putseg p v) {}"
    by (rule links_cong_live [OF _ _ _ _ _ _ _ _ _ _ l])
      (use l assms(2) in \<open>auto simp: vmem_putseg_def links_def pool_ok_def seg_ids_def\<close>)
  then show "vmem_inv (vmem_putseg p v)"
    using assms(1) by (simp add: vmem_inv_def quantum_ok_def layout_ok_def segs_def totals_ok_def vmem_putseg_def)
qed (simp_all add: vmem_putseg_def vm_allocs_def vm_span_set_def segs_def seg_reserve_def seg_ids_def)

definition pool_good :: "segp set \<Rightarrow> vmem \<Rightarrow> bool" where
  "pool_good X s \<longleftrightarrow> distinct (vm_segfree s) \<and> vm_nsegfree s \<le> int (length (vm_segfree s)) \<and> set (vm_segfree s) \<inter> X = {}"

lemma vmem_populate_ok:
  assumes lens: "\<And>s w. smp (set_smp s w) = s" "\<And>s w. rest (set_smp s w) = rest w" and "vmem_inv v" "pool_good (seg_ids v \<union> X) (smp w)"
    "int n < vm_nsegfree v + int fuel" "0 < fuel"
  shows "\<exists>ok w' v'. vmem_populate fuel smp set_smp (\<lambda>_ _. None) n fl w v = Some (Inr (ok, w', v')) \<and> vmem_inv v' \<and>
     pool_good (seg_ids v' \<union> X) (smp w') \<and> vm_allocs v' = vm_allocs v \<and> vm_span_set v' = vm_span_set v \<and>
     seg_reserve v' = seg_reserve v \<and> vm_nsegfree v \<le> vm_nsegfree v' \<and> vm_quantum v' = vm_quantum v \<and> vm_qshift v' = vm_qshift v \<and>
     (ok \<longrightarrow> int n \<le> vm_nsegfree v') \<and> rest w' = rest w \<and> (int n \<le> vm_nsegfree v + vm_nsegfree (smp w) \<longrightarrow> ok) \<and>
     vm_arena v' = vm_arena v \<and> vm_seg v' = vm_seg v"
  using assms(3-6)
proof (induction fuel arbitrary: w v)
  case (Suc fuel)
  show ?case
  proof (cases "vm_nsegfree v < int n")
    case False
    with Suc.prems show ?thesis by auto
  next
    case lt: True
    show ?thesis
    proof (cases "vm_nsegfree (smp w) > 0")
      case False
      with lt Suc.prems show ?thesis by (auto simp: inv_kstat)
    next
      case True
      with Suc.prems(2) obtain p ps where ps: "vm_segfree (smp w) = p # ps" by (cases "vm_segfree (smp w)") (auto simp: pool_good_def)
      define s' where "s' = (smp w)\<lparr>vm_segfree := ps, vm_nsegfree := vm_nsegfree (smp w) - 1\<rparr>"
      have g: "vmem_getseg (smp w) = Inr (p, s')" by (simp add: vmem_getseg_def ps s'_def)
      have np: "p \<notin> seg_ids v" using Suc.prems(2) ps by (auto simp: pool_good_def)
      note pu = inv_putseg [OF Suc.prems(1) np]
      have pg: "pool_good (seg_ids (vmem_putseg p v) \<union> X) (smp (set_smp s' w))"
        using Suc.prems(2) ps unfolding lens(1) pu(5) by (auto simp: pool_good_def s'_def)
      have "int n < vm_nsegfree (vmem_putseg p v) + int fuel" "0 < fuel" using Suc.prems(3) lt pu(6) by auto
      moreover have "vm_nsegfree (vmem_putseg p v) + vm_nsegfree (smp (set_smp s' w)) = vm_nsegfree v + vm_nsegfree (smp w)"
        unfolding lens(1) pu(6) by (simp add: s'_def)
      ultimately show ?thesis using Suc.IH [OF pu(1) pg] lt True g pu(2-10) by (auto simp: pu lens(2))
    qed
  qed
qed simp

subsection \<open>A root arena\<close>

text \<open>
  An arena without a source: the world is \<open>vmem_seg_arena\<close>, whose pool cannot grow; nothing else
  runs while the lock is dropped.
\<close>

definition root_env :: "vmem vm_env" where
  "root_env = \<lparr>ve_populate = (\<lambda>n fl w v. case vmem_populate (Suc n) (\<lambda>w. w) (\<lambda>s _. s) (\<lambda>_ _. None) n fl w v of
        Some r \<Rightarrow> r | None \<Rightarrow> Inr (False, w, v)),
     ve_has_alloc = False, ve_has_free = False, ve_source_quantum = 1,
     ve_source_alloc = (\<lambda>z fl w v. Inr (0, w, v)), ve_source_free = (\<lambda>a z w v. Inr (w, v)),
     ve_cache_alloc = (\<lambda>i fl w v. Inr (0, w, v)), ve_cache_free = (\<lambda>i a w v. Inr (w, v)),
     ve_smp = (\<lambda>w. w), ve_set_smp = (\<lambda>s _. s), ve_reap = (\<lambda>w v. (w, v)), ve_wait = (\<lambda>w v. (w, v))\<rparr>"

definition root_J :: "segp set \<Rightarrow> vmem \<Rightarrow> blocks \<Rightarrow> segp set \<Rightarrow> bool" where
  "root_J X s S I \<longleftrightarrow> pool_good (I \<union> X) s"

lemma stepped_refl: "vmem_inv v \<Longrightarrow> 0 \<le> vm_nsegfree v \<Longrightarrow> stepped (=) v v"
  by (simp add: stepped_def)

interpretation root: vmem_surroundings root_env "root_J X" "(=)" 0 for X
proof
  fix v :: vmem and w n fl
  assume v: "vmem_inv v" "0 \<le> vm_nsegfree v" "0 \<le> seg_reserve v" and j: "root_J X w (vm_span_set v) (seg_ids v)"
  from vmem_populate_ok [of "\<lambda>w. w" "\<lambda>s _. s" "\<lambda>_. ()" v X w n "Suc n" fl] v j
  show "\<exists>ok w' v'. ve_populate root_env n fl w v = Inr (ok, w', v') \<and> stepped (=) v v' \<and>
      root_J X w' (vm_span_set v') (seg_ids v') \<and> (ok \<longrightarrow> int n \<le> vm_nsegfree v')"
    by (fastforce simp: root_env_def root_J_def stepped_def)
qed (auto simp: root_env_def intro: stepped_refl)

lemma root_good: "root.good X w v \<longleftrightarrow> vmem_inv v \<and> 0 \<le> vm_nsegfree v \<and> 0 \<le> seg_reserve v \<and> pool_good (seg_ids v \<union> X) w"
  by (simp add: root.good_def root_J_def)

subsection \<open>An arena that imports from another\<close>

text \<open>
  The world of the importing arena is the pool of segment structures and the source arena. The
  source functions are \<open>vmem_xalloc()\<close>, called so that it does not sleep, and \<open>vmem_xfree()\<close>:
  \<open>vmem_alloc()\<close> and \<open>vmem_free()\<close> of a source without quantum caches.
\<close>

definition child_env :: "nat \<Rightarrow> (vmem \<times> vmem) vm_env" where
  "child_env m = \<lparr>ve_populate = (\<lambda>n fl w v. case vmem_populate (Suc n) fst (\<lambda>s w. (s, snd w)) (\<lambda>_ _. None) n fl w v of
        Some r \<Rightarrow> r | None \<Rightarrow> Inr (False, w, v)),
     ve_has_alloc = True, ve_has_free = True, ve_source_quantum = 2 ^ m,
     ve_source_alloc = (\<lambda>z fl w v. case vmem_xalloc 1 root_env (plain_req (snd w) z (fl OR VM_NOSLEEP)) (fst w) (snd w) of
        None \<Rightarrow> Inl VmMandatory | Some (Inl e) \<Rightarrow> Inl e | Some (Inr (a, s, u)) \<Rightarrow> Inr (a, (s, u), v)),
     ve_source_free = (\<lambda>a z w v. vbind (vmem_xfree root_env a z (fst w) (snd w)) (\<lambda>w. Inr (w, v))),
     ve_cache_alloc = (\<lambda>i fl w v. Inr (0, w, v)), ve_cache_free = (\<lambda>i a w v. Inr (w, v)),
     ve_smp = fst, ve_set_smp = (\<lambda>s w. (s, snd w)), ve_reap = (\<lambda>w v. (w, v)), ve_wait = (\<lambda>w v. (w, v))\<rparr>"

definition child_J :: "nat \<Rightarrow> vmem \<times> vmem \<Rightarrow> blocks \<Rightarrow> segp set \<Rightarrow> bool" where
  "child_J m w S I \<longleftrightarrow> vmem_inv (snd w) \<and> 0 \<le> vm_nsegfree (snd w) \<and> 0 \<le> seg_reserve (snd w) \<and>
     pool_good (seg_ids (snd w) \<union> I) (fst w) \<and> vm_qshift (snd w) = m \<and> S \<subseteq> vm_allocs (snd w)"

lemma allocs_apart:
  assumes inv: "vmem_inv v" and b: "b \<in> vm_allocs v" "c \<in> vm_allocs v" "b \<noteq> c"
  shows "block b \<inter> block c = {}"
proof -
  from b obtain p q where p: "p \<in> set (vm_arena v)" "is_alloc (vm_seg v p)" "b = (vs_start (vm_seg v p), seg_size (vm_seg v p))"
    and q: "q \<in> set (vm_arena v)" "is_alloc (vm_seg v q)" "c = (vs_start (vm_seg v q), seg_size (vm_seg v q))"
    by (auto simp: vm_allocs_def seg_allocs_def segs_def)
  have "p \<noteq> q" using b(3) p q by auto
  from inv_apart [OF inv p(1) q(1) this] p(2) q(2) have "apart (vm_seg v p) (vm_seg v q)" by simp
  then show ?thesis using rng_block [OF inv_seg(1,2) [OF inv p(1)]] rng_block [OF inv_seg(1,2) [OF inv q(1)]] p(3) q(3) by simp
qed

lemma quantum_multiple_room:
  assumes "k < 64" "2 ^ k dvd unat (z :: ulong)"
  shows "unat z + 2 ^ k \<le> 2 ^ 64"
proof -
  obtain i where i: "unat z = 2 ^ k * i" using assms(2) by (rule dvdE)
  obtain j where j: "(2::nat) ^ 64 = 2 ^ k * j" using assms(1) le_imp_power_dvd [of k 64 "2::nat"] by (auto elim: dvdE)
  have "2 ^ k * i < 2 ^ k * j" using unat_lt_64 [of z] i j by simp
  then have "i < j" by simp
  then have "2 ^ k * Suc i \<le> 2 ^ k * j" by (intro mult_le_mono2) simp
  then show ?thesis using i j by simp
qed

lemma plain_req_ok:
  assumes "quantum_ok v" "z \<noteq> 0" "unat z + unat (vm_quantum v) \<le> 2 ^ 64"
  shows "req_ok (plain_req v z fl)" "xalloc_check (plain_req v z fl) v = None"
proof -
  let ?k = "vm_qshift v"
  have k: "vm_quantum v = 2 ^ ?k" "?k < 64" using assms(1) by (auto simp: quantum_ok_def)
  then show "req_ok (plain_req v z fl)" using assms(2,3) by (auto simp: req_ok_def plain_req_def hi_of_alt)
  have "vm_quantum v AND (vm_quantum v - 1) = 0" unfolding k(1) by (simp add: quantum_mask [OF k(2)] k(2))
  then show "xalloc_check (plain_req v z fl) v = None" using assms(2) by (simp add: xalloc_check_def plain_req_def)
qed

lemma nosleep_flag: "(fl OR VM_NOSLEEP) AND VM_NOSLEEP \<noteq> 0" "(fl OR VM_NOSLEEP) AND VM_PANIC = fl AND VM_PANIC"
  by (simp_all add: VM_NOSLEEP_def VM_PANIC_def and.commute and.left_commute bit.conj_disj_distrib bit.conj_disj_distrib2)

lemma child_source_alloc:
  assumes j: "child_J m w S I" and z: "z \<noteq> 0" "2 ^ m dvd unat z" and fl: "fl AND VM_PANIC = 0"
  shows "\<exists>a s u. vmem_xalloc 1 root_env (plain_req (snd w) z (fl OR VM_NOSLEEP)) (fst w) (snd w) = Some (Inr (a, s, u)) \<and>
     (if a = 0 then child_J m (s, u) S I
      else child_J m (s, u) (insert (a, z) S) I \<and> fresh_block S (a, z) \<and> 2 ^ m dvd unat a)"
proof -
  let ?r = "plain_req (snd w) z (fl OR VM_NOSLEEP)"
  have w: "vmem_inv (snd w)" "vm_qshift (snd w) = m" "S \<subseteq> vm_allocs (snd w)" using j by (auto simp: child_J_def)
  have g: "root.good I (fst w) (snd w)" using j by (simp add: root_good child_J_def)
  note q = inv_parts(2) [OF w(1)]
  have k: "vm_quantum (snd w) = 2 ^ m" "m < 64" using q w(2) by (auto simp: quantum_ok_def)
  have "unat z + unat (vm_quantum (snd w)) \<le> 2 ^ 64" using quantum_multiple_room [OF k(2) z(2)] k by simp
  then have rr: "req_ok ?r" "xalloc_check ?r (snd w) = None" using plain_req_ok [OF q z(1)] by auto
  have im: "import_ok root_env ?r (snd w)" by (simp add: import_ok_def root_env_def)
  have f: "rq_flag ?r AND VM_NOSLEEP \<noteq> 0" "rq_flag ?r AND VM_PANIC = 0" using nosleep_flag fl by (auto simp: plain_req_def)
  have "\<exists>a s u. xalloc_loop 1 root_env ?r False (fst w) (snd w) = Some (Inr (a, s, u)) \<and> root.alloc_post I ?r (snd w) a s u"
    using root.xalloc_loop_ok [OF g rr im, of 1 False] f by (auto split: option.splits sum.splits)
  then obtain a s u where x: "xalloc_loop 1 root_env ?r False (fst w) (snd w) = Some (Inr (a, s, u))"
    and p: "root.alloc_post I ?r (snd w) a s u" by blast
  have run: "vmem_xalloc 1 root_env ?r (fst w) (snd w) = Some (Inr (a, s, u))" using x rr(2) by (simp add: vmem_xalloc_def)
  have gu: "root.good I s u" "stepped0 (snd w) u" using p by (auto simp: root.alloc_post_def)
  have ju: "child_J m (s, u) T I" if "T \<subseteq> vm_allocs u" for T
    using gu w(2) that by (simp add: child_J_def root_good stepped_def)
  show ?thesis
  proof (cases "a = 0")
    case True
    then show ?thesis using run p ju [of S] w(3) by (auto simp: root.alloc_post_def)
  next
    case False
    have sz: "rq_size ?r = z" by (simp add: plain_req_def)
    have al: "meets ?r a" "vm_allocs u = insert (a, z) (vm_allocs (snd w))" "(a, z) \<notin> vm_allocs (snd w)"
      using p False sz by (auto simp: root.alloc_post_def)
    have iu: "vmem_inv u" using gu(1) by (simp add: root_good)
    have "rq_maxaddr ?r = 0" by (simp add: plain_req_def)
    then have end_ok: "unat a + unat z \<le> 2 ^ 64" using al(1) sz by (simp add: meets_def hi_of_alt)
    have "block (a, z) \<inter> block c = {}" if "c \<in> S" for c
      using allocs_apart [OF iu, of "(a, z)" c] al w(3) that by auto
    then have "fresh_block S (a, z)" using False z(1) end_ok by (simp add: fresh_block_def)
    moreover have "2 ^ m dvd unat a" using meets_quantum [OF al(1) rr(1) q rr(2)] w(2) by simp
    ultimately show ?thesis using run False ju [of "insert (a, z) S"] al(2) w(3) by auto
  qed
qed

lemma child_source_free:
  assumes j: "child_J m w (insert (a, z) S) I" and n: "(a, z) \<notin> S"
  shows "\<exists>w'. vmem_xfree root_env a z (fst w) (snd w) = Inr w' \<and> child_J m w' S I"
proof -
  have w: "vm_qshift (snd w) = m" "S \<subseteq> vm_allocs (snd w)" "(a, z) \<in> vm_allocs (snd w)" using j by (auto simp: child_J_def)
  have g: "root.good I (fst w) (snd w)" using j by (simp add: root_good child_J_def)
  from root.vmem_xfree_post [OF g w(3)] obtain s u where
    "vmem_xfree root_env a z (fst w) (snd w) = Inr (s, u)" "root.good I s u" "stepped0 (snd w) u"
    "vm_allocs u = vm_allocs (snd w) - {(a, z)}" by (auto simp: root_env_def)
  then show ?thesis using w n by (auto simp: child_J_def root_good stepped_def)
qed

lemma child_populate:
  assumes v: "vmem_inv v" "0 \<le> vm_nsegfree v" "0 \<le> seg_reserve v" and j: "child_J m w S (seg_ids v)"
  shows "\<exists>ok w' v'. ve_populate (child_env m) n fl w v = Inr (ok, w', v') \<and> stepped (=) v v' \<and> vm_span_set v' = vm_span_set v \<and>
     child_J m w' S (seg_ids v') \<and> (ok \<longrightarrow> int n \<le> vm_nsegfree v')"
proof -
  have "pool_good (seg_ids v \<union> seg_ids (snd w)) (fst w)" using j by (simp add: child_J_def Un_commute)
  then obtain ok w' v' where p: "vmem_populate (Suc n) fst (\<lambda>s w. (s, snd w)) (\<lambda>_ _. None) n fl w v = Some (Inr (ok, w', v'))"
     "vmem_inv v'" "pool_good (seg_ids v' \<union> seg_ids (snd w)) (fst w')" "vm_allocs v' = vm_allocs v" "vm_span_set v' = vm_span_set v"
     "seg_reserve v' = seg_reserve v" "vm_nsegfree v \<le> vm_nsegfree v'" "vm_quantum v' = vm_quantum v" "vm_qshift v' = vm_qshift v"
     "ok \<longrightarrow> int n \<le> vm_nsegfree v'" "snd w' = snd w"
    using vmem_populate_ok [of fst "\<lambda>s w. (s, snd w)" snd v "seg_ids (snd w)" w n "Suc n" fl] v(1,2) by auto
  have "ve_populate (child_env m) n fl w v = Inr (ok, w', v')" using p(1) by (simp add: child_env_def)
  moreover have "stepped (=) v v'" using p v(2) by (simp add: stepped_def)
  moreover have "child_J m w' S (seg_ids v')" using j p(3,11) by (simp add: child_J_def Un_commute)
  ultimately show ?thesis using p(5,10) by blast
qed

lemma stepped_self: "vmem_inv v \<Longrightarrow> 0 \<le> vm_nsegfree v \<Longrightarrow> stepped (=) v v"
  by (simp add: stepped_def)

interpretation child: vmem_surroundings "child_env (m mod 64)" "child_J (m mod 64)" "(=)" "m mod 64" for m
proof
  fix v :: vmem and w n fl
  assume v: "vmem_inv v" "0 \<le> vm_nsegfree v" "0 \<le> seg_reserve v" and j: "child_J (m mod 64) w (vm_span_set v) (seg_ids v)"
  from child_populate [OF this] show "\<exists>ok w' v'. ve_populate (child_env (m mod 64)) n fl w v = Inr (ok, w', v') \<and> stepped (=) v v' \<and>
      child_J (m mod 64) w' (vm_span_set v') (seg_ids v') \<and> (ok \<longrightarrow> int n \<le> vm_nsegfree v')" by metis
next
  fix v :: vmem and w fl and z :: ulong
  assume v: "vmem_inv v" "0 \<le> vm_nsegfree v" "0 \<le> seg_reserve v" and j: "child_J (m mod 64) w (vm_span_set v) (seg_ids v)"
    and z: "fl AND VM_PANIC = 0" "z \<noteq> 0" "2 ^ (m mod 64) dvd unat z"
  from child_source_alloc [OF j z(2,3,1)] obtain a s u where
    x: "vmem_xalloc 1 root_env (plain_req (snd w) z (fl OR VM_NOSLEEP)) (fst w) (snd w) = Some (Inr (a, s, u))"
    and p: "if a = 0 then child_J (m mod 64) (s, u) (vm_span_set v) (seg_ids v)
      else child_J (m mod 64) (s, u) (insert (a, z) (vm_span_set v)) (seg_ids v) \<and> fresh_block (vm_span_set v) (a, z) \<and> 2 ^ (m mod 64) dvd unat a"
    by blast
  from x have "ve_source_alloc (child_env (m mod 64)) z fl w v = Inr (a, (s, u), v)" by (simp add: child_env_def)
  with p stepped_self [OF v(1,2)] show "\<exists>a w' v'. ve_source_alloc (child_env (m mod 64)) z fl w v = Inr (a, w', v') \<and> stepped (=) v v' \<and>
        (if a = 0 then child_J (m mod 64) w' (vm_span_set v') (seg_ids v')
         else child_J (m mod 64) w' (insert (a, z) (vm_span_set v')) (seg_ids v') \<and> fresh_block (vm_span_set v') (a, z) \<and> 2 ^ (m mod 64) dvd unat a)"
    by blast
next
  fix v :: vmem and w and a z :: ulong
  assume v: "vmem_inv v" "0 \<le> vm_nsegfree v" "0 \<le> seg_reserve v"
    and j: "child_J (m mod 64) w (insert (a, z) (vm_span_set v)) (seg_ids v)" "(a, z) \<notin> vm_span_set v"
  from child_source_free [OF j] obtain w' where x: "vmem_xfree root_env a z (fst w) (snd w) = Inr w'"
    and p: "child_J (m mod 64) w' (vm_span_set v) (seg_ids v)" by blast
  from x have "ve_source_free (child_env (m mod 64)) a z w v = Inr (w', v)" by (simp add: child_env_def)
  with p stepped_self [OF v(1,2)] show "\<exists>w' v'. ve_source_free (child_env (m mod 64)) a z w v = Inr (w', v') \<and> stepped (=) v v' \<and> child_J (m mod 64) w' (vm_span_set v') (seg_ids v')"
    by blast
qed (auto simp: child_env_def intro: stepped_self)

end
