(* ===== verification/Vmem_Complete.thy ===== *)
theory Vmem_Complete
  imports Vmem_Arenas
begin

section \<open>Vmem: a request that fits some free segment is served\<close>

text \<open>
  Completeness: a segment with room for an unconstrained request is found by the freelist walk, from
  whichever freelist the instant-fit policy starts.
\<close>

subsection \<open>A segment that has room for a request without a boundary is taken\<close>

lemma vmem_fit_complete:
  assumes r: "req_ok r" "rq_nocross r = 0" and s: "lo s < hi s" "vs_start s \<noteq> 0"
    and a: "meets r a" "lo s \<le> unat a" "unat a + unat (rq_size r) \<le> hi s"
  shows "vmem_fit r s \<noteq> None"
proof -
  let ?st = "fit_start r s" and ?en = "fit_end r s" and ?sz = "unat (rq_size r)"
  from r(1) obtain j where j: "rq_align r = 2 ^ j" "unat (rq_phase r) < 2 ^ j" "j < 64" by (auto simp: req_ok_def)
  have sz: "0 < ?sz" "?sz + 2 ^ j \<le> 2 ^ 64" using r j by (simp_all add: req_ok_def unat_gt_0)
  have b: "unat (rq_minaddr r) \<le> unat a" "unat a + ?sz \<le> hi_of (rq_maxaddr r)" using a(1) by (simp_all add: meets_def)
  have st: "unat ?st = max (lo s) (unat (rq_minaddr r))" by (simp add: fit_start_def max_def word_le_nat_alt)
  have en: "hi_of ?en = min (hi s) (hi_of (rq_maxaddr r))"
    by (simp add: fit_end_def hi_of_def min_def word_le_nat_alt)
  have sa: "unat ?st \<le> unat a" using st a(2) b(1) by simp
  have ae: "unat a + ?sz \<le> hi_of ?en" using en a(3) b(2) by simp
  have nz: "?st \<noteq> 0" using s(2) st by (metis max.bounded_iff max.cobounded1 le_zero_eq unat_0 unat_eq_0)
  have le: "unat ?st < hi_of ?en" using sa ae sz(1) by linarith
  have P2C: "\<not> P2CROSS x y 0" for x y using P2CROSS_0 by simp
  have t: "fit_taddr r ?st - ?st = take_bit j (rq_phase r - ?st)"
    using phaseup(1) [OF j, of ?st] by (simp add: fit_taddr_def r(2) P2C)
  have "take_bit j a = rq_phase r" using a(1) by (simp add: meets_def j(1) P2_exp)
  then have "take_bit j (rq_phase r - ?st) = take_bit j (a - ?st)"
    using take_bit_add_right [of j j "- ?st" a] j(3) by (simp add: add.commute)
  moreover have "unat (take_bit j (a - ?st)) \<le> unat (a - ?st)" by (simp add: unat_take_bit)
  moreover have "unat (a - ?st) = unat a - unat ?st" using sa by (simp add: unat_sub word_le_nat_alt)
  ultimately have d: "unat (fit_taddr r ?st - ?st) \<le> unat a - unat ?st" "unat (fit_taddr r ?st - ?st) < 2 ^ j"
    using t unat_take_bit_lt [of j "rq_phase r - ?st"] by (simp_all del: take_bit_minus)
  have "unat (fit_taddr r ?st - ?st + rq_size r) = unat (fit_taddr r ?st - ?st) + ?sz"
    using d(2) sz(2) by (intro unat_add_lt) linarith
  then have "\<not> fit_taddr r ?st - ?st + rq_size r > ?en - ?st"
    using d(1) unat_diff_hi [OF le nz] ae sa by (simp add: word_less_nat_alt)
  moreover have "\<not> vs_end s - 1 < rq_minaddr r" "\<not> vs_start s > rq_maxaddr r - 1"
    using a(2,3) b sz(1) by (simp_all add: word_less_nat_alt hi_of_def)
  ultimately show ?thesis by (simp add: vmem_fit_def Let_def)
qed

subsection \<open>Free segments start on a quantum boundary\<close>

lemma free_start_dvd:
  assumes inv: "vmem_inv v" and p: "p \<in> live v {} VMEM_FREE"
  shows "2 ^ vm_qshift v dvd lo (vm_seg v p)"
proof -
  let ?q = "2 ^ vm_qshift v"
  from p have m: "p \<in> set (vm_arena v)" "is_free (vm_seg v p)" by (auto simp: live_def)
  then obtain xs ys where "vm_arena v = xs @ p # ys" by (meson split_list)
  then have "tiles_from ?q st0 (map (vm_seg v) xs @ vm_seg v p # map (vm_seg v) ys)"
    using inv_parts(3) [OF inv] by (simp add: tiles_def segs_def)
  then obtain c e pf fs where "trun ?q st0 (map (vm_seg v) xs) = Some (c, e, pf, fs)" "lo (vm_seg v p) = c"
    using m(2) by (auto simp: tiles_at)
  then show ?thesis using trun_dvd(1) by force
qed

lemma plain_meets:
  assumes inv: "vmem_inv v" and z: "z \<noteq> 0" and p: "p \<in> live v {} VMEM_FREE" "z \<le> VS_SIZE v p"
  shows "meets (plain_req v z fl) (vs_start (vm_seg v p))" "unat (vs_start (vm_seg v p)) + unat z \<le> hi (vm_seg v p)"
proof -
  let ?s = "vm_seg v p" and ?k = "vm_qshift v"
  have m: "p \<in> set (vm_arena v)" using p(1) by (simp add: live_def)
  note s = inv_seg(1,2) [OF inv m]
  have q: "vm_quantum v = 2 ^ ?k" "?k < 64" using inv_parts(2) [OF inv] by (auto simp: quantum_ok_def)
  have "unat z \<le> hi ?s - lo ?s" using p(2) seg_size_unat [OF s] by (simp add: VS_SIZE_def word_le_nat_alt)
  then show le: "unat (vs_start ?s) + unat z \<le> hi ?s" using s(1) by linarith
  have "take_bit ?k (vs_start ?s) = 0"
    using free_start_dvd [OF inv p(1)] by (simp add: word_unat_eq_iff unat_take_bit)
  then show "meets (plain_req v z fl) (vs_start ?s)"
    using le hi_of_le [of "vs_end ?s"] P2CROSS_0 by (simp add: meets_def plain_req_def q(1) P2_exp hi_of_alt)
qed

subsection \<open>The search of the freelists\<close>

lemma highbit_mono:
  assumes "(a :: ulong) \<le> b" "a \<noteq> 0"
  shows "highbit a \<le> highbit b"
proof (rule ccontr)
  have b: "b \<noteq> 0" using assms by auto
  assume "\<not> highbit a \<le> highbit b"
  then have "(2::nat) ^ highbit b \<le> 2 ^ (highbit a - 1)" by simp
  moreover have "unat a \<le> unat b" using assms(1) by (simp add: word_le_nat_alt)
  ultimately show False using highbit_bounds(4) [OF b] highbit_bounds(3) [OF assms(2)] by linarith
qed

text \<open>
  The first freelist that is searched: either every segment that is large enough is on it or
  behind it, or some segment on it or behind it is large enough.
\<close>

lemma plain_search_complete:
  assumes inv: "vmem_inv v" and z: "z \<noteq> 0" "unat z + unat (vm_quantum v) \<le> 2 ^ 64" and p: "p \<in> live v {} VMEM_FREE" "z \<le> VS_SIZE v p"
  shows "fst (vmem_search v (plain_req v z fl) (vmem_flist (plain_req v z fl) v) n) \<noteq> Inr None"
proof
  let ?r = "plain_req v z fl"
  let ?f = "vmem_flist ?r v"
  assume none: "fst (vmem_search v ?r ?f n) = Inr None"
  have ok: "pool_ok v" "flist_ok v {}" "freemap_ok v" using inv_parts(1) [OF inv] by (auto simp: links_def)
  have r: "req_ok ?r" by (rule plain_req_ok(1) [OF inv_parts(2) [OF inv] z])
  have rs: "rq_size ?r = z" "rq_nocross ?r = 0" by (simp_all add: plain_req_def)
  have no: "vmem_fit ?r (vm_seg v x) = None" if "x \<in> live v {} VMEM_FREE" "?f < highbit (VS_SIZE v x)" for x
    using vmem_search_ok [OF ok vmem_flist_lt [of ?r v], where r = ?r and n = n] none that rs z(1) by (auto simp: search_ok_def)
  have fits: "vmem_fit ?r (vm_seg v x) \<noteq> None" if x: "x \<in> live v {} VMEM_FREE" "z \<le> VS_SIZE v x" for x
  proof -
    have m: "x \<in> set (vm_arena v)" using x by (simp add: live_def)
    show ?thesis
      using vmem_fit_complete [OF r rs(2) inv_seg(1,2) [OF inv m] plain_meets(1) [OF inv z(1) x]] plain_meets(2) [OF inv z(1) x] rs(1) by simp
  qed
  have hz: "1 \<le> highbit z" "highbit z \<le> highbit (VS_SIZE v p)" using highbit_bounds(1) [OF z(1)] highbit_mono [OF p(2) z(1)] by auto
  show False
  proof (cases "?f = highbit z - 1")
    case True
    with hz have "?f < highbit (VS_SIZE v p)" by linarith
    with no [OF p(1)] fits [OF p] show False by simp
  next
    case False
    then have f: "?f = highbit z" and d: "drop_bit (highbit z) (vm_freemap v) \<noteq> 0"
      using rs(1) by (auto simp: vmem_flist_def Let_def split: if_splits)
    from d obtain i where i: "bit (drop_bit (highbit z) (vm_freemap v)) i" by (auto simp: bit_eq_iff)
    let ?n = "highbit z + i"
    have b: "bit (vm_freemap v) ?n" using i by (simp add: bit_drop_bit_eq)
    then have n: "?n < 64" using bit_imp_le_length [OF b] by simp
    with b ok(3) obtain x where x: "x \<in> set (vm_freelist v ! ?n)" by (cases "vm_freelist v ! ?n") (auto simp: freemap_ok_def)
    have lx: "x \<in> live v {} VMEM_FREE" "highbit (VS_SIZE v x) = Suc ?n" using flist_mem [OF ok(2) _ x] n by auto
    then have nz: "VS_SIZE v x \<noteq> 0" using ok(2) by (simp add: flist_ok_def)
    have "(2::nat) ^ highbit z \<le> 2 ^ ?n" by simp
    moreover have "(2::nat) ^ ?n \<le> unat (VS_SIZE v x)" using highbit_bounds(3) [OF nz] lx(2) by simp
    ultimately have "z \<le> VS_SIZE v x"
      using highbit_bounds(4) [OF z(1)] unfolding word_le_nat_alt by linarith
    with fits [OF lx(1)] no [OF lx(1)] lx(2) f show False by simp
  qed
qed

subsection \<open>An unconstrained request of a root arena\<close>

lemma root_plain_served:
  assumes g: "root.good X w v" and n: "4 \<le> vm_nsegfree v + vm_nsegfree w" and z: "z \<noteq> 0" "unat z + unat (vm_quantum v) \<le> 2 ^ 64"
    and p: "p \<in> live v {} VMEM_FREE" "z \<le> VS_SIZE v p"
  shows "\<exists>a w' v'. vmem_xalloc 1 root_env (plain_req v z fl) w v = Some (Inr (a, w', v')) \<and> a \<noteq> 0 \<and>
     root.alloc_post X (plain_req v z fl) v a w' v'"
proof -
  let ?r = "plain_req v z fl"
  have gv: "vmem_inv v" "0 \<le> vm_nsegfree v" "0 \<le> seg_reserve v" "pool_good (seg_ids v \<union> X) w" using g by (simp_all add: root_good)
  note r = plain_req_ok [OF inv_parts(2) [OF gv(1)] z, of fl]
  from vmem_populate_ok [of "\<lambda>w. w" "\<lambda>s _. s" "\<lambda>_. ()" v X w 4 "Suc 4" fl] gv n obtain w1 v1 where
    p1: "vmem_populate (Suc 4) (\<lambda>w. w) (\<lambda>s _. s) (\<lambda>_ _. None) 4 fl w v = Some (Inr (True, w1, v1))" "vmem_inv v1"
      "pool_good (seg_ids v1 \<union> X) w1" "vm_allocs v1 = vm_allocs v" "seg_reserve v1 = seg_reserve v"
      "4 \<le> vm_nsegfree v1" "vm_quantum v1 = vm_quantum v" "vm_qshift v1 = vm_qshift v" "vm_arena v1 = vm_arena v" "vm_seg v1 = vm_seg v"
    by auto
  have pop: "ve_populate root_env 4 (rq_flag ?r) w v = Inr (True, w1, v1)"
    using p1(1) by (simp add: root_env_def plain_req_def del: vmem_populate.simps)
  have r1: "?r = plain_req v1 z fl" by (simp add: plain_req_def p1(7))
  have pl: "p \<in> live v1 {} VMEM_FREE" "z \<le> VS_SIZE v1 p" using p by (simp_all add: live_def VS_SIZE_def p1(9,10))
  obtain res m where s: "vmem_search v1 ?r (vmem_flist ?r v1) 0 = (res, m)" by (cases "vmem_search v1 ?r (vmem_flist ?r v1) 0")
  obtain q a where res: "res = Inr (Some (q, a))"
    using search_no_fault [OF p1(2) r(1), of 0] plain_search_complete [OF p1(2) z(1) _ pl, of fl 0] z(2) s
    unfolding r1 [symmetric] p1(7) by (cases res) auto
  define v2 where "v2 = upd_kstat (\<lambda>k. k\<lparr>vk_search := vk_search k + word_of_nat m\<rparr>) v1"
  have turn: "xalloc_turn root_env ?r False w v = Inr (XFound q a w1 v2)"
    using pop s res by (simp add: xalloc_turn_def v2_def)
  have c: "candidate ?r v1 q a" using search_candidate [OF p1(2) r(1), of 0] s res by simp
  then have a: "a \<noteq> 0" using inv_seg(2) [OF p1(2), of q] by (auto simp: candidate_def live_def unat_eq_0)
  have loop: "xalloc_loop 1 root_env ?r False w v = Some (xalloc_take ?r q a w1 v2)" using turn by simp
  have st: "stepped (=) v v2" using p1 by (simp add: v2_def stepped_def inv_kstat)
  have r2: "2 \<le> vm_nsegfree v2" "candidate ?r v2 q a" "root.good X w1 v2" "xalloc_check ?r v2 = None"
    using p1 c gv(3) root.xalloc_check_stepped [OF st] r(2) by (simp_all add: v2_def candidate_def root_good inv_kstat)
  from root.xalloc_take_post [OF r2(3) r(1) r2(4,2,1)] obtain v' where
    t: "xalloc_take ?r q a w1 v2 = Inr (a, w1, v')" "root.alloc_post X ?r v2 a w1 v'" by blast
  have "root.alloc_post X ?r v a w1 v'" by (rule root.alloc_post_stepped [OF st t(2)])
  then show ?thesis using loop t(1) a r(2) by (auto simp: vmem_xalloc_def)
qed

end
