(* ===== verification/Vmem_Arena_Ops.thy ===== *)
theory Vmem_Arena_Ops
  imports Vmem_Complete
begin

section \<open>Vmem: rescaling the hash table, and what an arena reports\<close>

text \<open>
  The operations on a whole arena: rescaling the hash table, the sizes it reports, containment,
  \<open>vmem_add()\<close>, \<open>vmem_create()\<close> and \<open>vmem_destroy()\<close>.
\<close>

subsection \<open>vmem_hash_rescale()\<close>

lemma rehash_length [simp]: "length (fold (rehash_one v) ps tab) = length tab"
  by (induction ps arbitrary: tab) (simp_all add: rehash_one_def Let_def)

lemma rehash_bucket:
  assumes "\<And>a. VMEM_HASH_INDEX v a < length tab" "h < length tab"
  shows "fold (rehash_one v) ps tab ! h = rev (filter (\<lambda>p. VMEM_HASH_INDEX v (vs_start (vm_seg v p)) = h) ps) @ tab ! h"
  using assms
proof (induction ps arbitrary: tab)
  case (Cons p ps)
  have "fold (rehash_one v) (p # ps) tab ! h = fold (rehash_one v) ps (rehash_one v p tab) ! h" by simp
  also have "\<dots> = rev (filter (\<lambda>p. VMEM_HASH_INDEX v (vs_start (vm_seg v p)) = h) ps) @ rehash_one v p tab ! h"
    using Cons.prems by (intro Cons.IH) (simp_all add: rehash_one_def Let_def)
  also have "rehash_one v p tab ! h = (if VMEM_HASH_INDEX v (vs_start (vm_seg v p)) = h then [p] else []) @ tab ! h"
    using Cons.prems by (simp add: rehash_one_def Let_def nth_list_update)
  finally show ?case by simp
qed simp

lemma distinct_concat_buckets:
  assumes "\<And>i. i < length t \<Longrightarrow> distinct (t ! i)" "\<And>i j. i < length t \<Longrightarrow> j < length t \<Longrightarrow> i \<noteq> j \<Longrightarrow> set (t ! i) \<inter> set (t ! j) = {}"
  shows "distinct (concat t)"
  using assms
proof (induction t)
  case (Cons x t)
  have "distinct (concat t)"
  proof (rule Cons.IH)
    show "distinct (t ! i)" if "i < length t" for i using Cons.prems(1) [of "Suc i"] that by simp
    show "set (t ! i) \<inter> set (t ! j) = {}" if "i < length t" "j < length t" "i \<noteq> j" for i j
      using Cons.prems(2) [of "Suc i" "Suc j"] that by simp
  qed
  moreover have "set x \<inter> set y = {}" if "y \<in> set t" for y
  proof -
    from that obtain j where "j < length t" "y = t ! j" by (auto simp: in_set_conv_nth)
    then show ?thesis using Cons.prems(2) [of 0 "Suc j"] by simp
  qed
  ultimately show ?case using Cons.prems(1) [of 0] by auto
qed simp

lemma hash_concat:
  assumes "hash_ok v L"
  shows "set (concat (vm_hash_table v)) = live v L VMEM_ALLOC" "distinct (concat (vm_hash_table v))"
proof -
  let ?t = "vm_hash_table v"
  have h: "distinct (?t ! h)" "set (?t ! h) = {p \<in> live v L VMEM_ALLOC. VMEM_HASH_INDEX v (vs_start (vm_seg v p)) = h}"
    if "h < length ?t" for h using assms that by (auto simp: hash_ok_def)
  show "set (concat ?t) = live v L VMEM_ALLOC"
  proof
    have "set b \<subseteq> live v L VMEM_ALLOC" if "b \<in> set ?t" for b
      using that h(2) unfolding in_set_conv_nth by blast
    then show "set (concat ?t) \<subseteq> live v L VMEM_ALLOC" by auto
    show "live v L VMEM_ALLOC \<subseteq> set (concat ?t)"
    proof
      fix p assume "p \<in> live v L VMEM_ALLOC"
      moreover have i: "VMEM_HASH_INDEX v (vs_start (vm_seg v p)) < length ?t" using hash_index_bound [OF assms] .
      ultimately have "p \<in> set (?t ! VMEM_HASH_INDEX v (vs_start (vm_seg v p)))" using h(2) by blast
      then show "p \<in> set (concat ?t)" using nth_mem [OF i] by auto
    qed
  qed
  have "set (?t ! i) \<inter> set (?t ! j) = {}" if "i < length ?t" "j < length ?t" "i \<noteq> j" for i j using h(2) that by auto
  then show "distinct (concat ?t)" by (intro distinct_concat_buckets h(1))
qed

lemma hash_new_size_ok:
  assumes l: "links v {}" and n: "card (live v {} VMEM_ALLOC) < 2 ^ 30"
  shows "\<exists>new. hash_new_size v = Some new \<and> new \<noteq> 0 \<and> 64 \<le> unat new \<and> 3 * card (live v {} VMEM_ALLOC) + 4 < 4 * unat new"
proof -
  let ?n = "card (live v {} VMEM_ALLOC)" and ?x = "3 * (vk_alloc (vm_kstat v) - vk_free (vm_kstat v)) + 4"
  have "vk_alloc (vm_kstat v) - vk_free (vm_kstat v) = word_of_nat ?n" using l by (simp add: links_def inuse_ok_def)
  then have "?x = word_of_nat (3 * ?n + 4)" by simp
  then have x: "unat ?x = 3 * ?n + 4" using n by (simp only: unat_of_nat) simp
  then have nz: "?x \<noteq> 0" by (metis add_is_0 unat_0 zero_neq_numeral)
  note hb = highbit_bounds [OF nz]
  have "3 * ?n + 4 < 2 ^ 32" using n by simp
  then have "(2::nat) ^ (highbit ?x - 1) < 2 ^ 32" using hb(3) x by linarith
  then have h32: "highbit ?x - 1 < 32" by (rule power_less_imp_less_exp [rotated]) simp
  have h2: "2 \<le> highbit ?x"
  proof (rule ccontr)
    assume "\<not> 2 \<le> highbit ?x"
    then have "(2::nat) ^ highbit ?x \<le> 2 ^ 1" by (intro power_increasing) simp_all
    then show False using hb(4) x by simp
  qed
  let ?m = "highbit ?x - 2"
  have m: "?m < 31" using h32 h2 by linarith
  have u: "unat (push_bit ?m (1 :: ulong)) = 2 ^ ?m" using m by (simp add: push_bit_eq_mult unat_word_ariths)
  let ?new = "max (word_of_nat VMEM_HASH_INITIAL) (push_bit ?m (1 :: ulong))"
  have new: "unat ?new = max 64 (2 ^ ?m)" using u by (simp add: max_def word_le_nat_alt VMEM_HASH_INITIAL_def)
  have "highbit ?x = ?m + 2" using h2 by simp
  then have "3 * ?n + 4 < 2 ^ (?m + 2)" using hb(4) x by metis
  then have "3 * ?n + 4 < 4 * 2 ^ ?m" by (simp add: power_add)
  also have "\<dots> \<le> 4 * unat ?new" using new by simp
  finally have "3 * ?n + 4 < 4 * unat ?new" .
  moreover have "hash_new_size v = Some ?new" using m by (simp add: hash_new_size_def Let_def)
  moreover have "64 \<le> unat ?new" "?new \<noteq> 0" using new by (auto simp: unat_gt_0 [symmetric])
  ultimately show ?thesis by blast
qed

lemma rescaled_links:
  assumes l: "links v {}" and new: "new \<noteq> 0"
  defines "v1 \<equiv> v\<lparr>vm_hash_mask := new - 1, vm_hash_shift := highbit (new - 1)\<rparr>"
  shows "links (v1\<lparr>vm_hash_table := fold (rehash_one v1) (concat (vm_hash_table v)) (replicate (unat new) [])\<rparr>) {}"
proof -
  let ?tab = "fold (rehash_one v1) (concat (vm_hash_table v)) (replicate (unat new) [])"
  let ?v = "v1\<lparr>vm_hash_table := ?tab\<rparr>"
  have h: "hash_ok v {}" using l by (simp add: links_def)
  have len: "Suc (unat (new - 1)) = unat new" using new by (simp add: unat_minus_one unat_gt_0)
  have ix: "VMEM_HASH_INDEX v1 a < unat new" for a
  proof -
    have "unat (x AND (new - 1)) \<le> unat (new - 1)" for x :: ulong by (metis word_and_le1 word_le_nat_alt)
    then show ?thesis using len by (simp add: VMEM_HASH_INDEX_def v1_def less_Suc_eq_le [symmetric])
  qed
  have b: "?tab ! h = rev (filter (\<lambda>p. VMEM_HASH_INDEX v1 (vs_start (vm_seg v p)) = h) (concat (vm_hash_table v)))"
    if "h < unat new" for h using rehash_bucket [of v1 "replicate (unat new) []" h] ix that by (simp add: v1_def)
  have "hash_ok ?v {}"
    unfolding hash_ok_def using b len hash_concat [OF h]
    by (auto simp: v1_def VMEM_HASH_INDEX_def live_def)
  then show ?thesis
    using l by (simp add: links_def pool_ok_def flist_ok_def freemap_ok_def inuse_ok_def v1_def live_def VS_SIZE_def)
qed

lemma unat_push_bit_1: "unat (push_bit 1 (x :: ulong)) \<le> 2 * unat x"
  by (simp add: push_bit_eq_mult unat_word_ariths)

lemma vmem_hash_rescale_ok:
  assumes inv: "vmem_inv v" and n: "card (live v {} VMEM_ALLOC) < 2 ^ 30"
  shows "\<exists>v'. vmem_hash_rescale avail v = Some v' \<and> vmem_inv v' \<and> segs v' = segs v \<and> vm_freelist v' = vm_freelist v \<and>
     (avail \<longrightarrow> 3 * card (vm_allocs v') < 8 * length (vm_hash_table v'))"
proof -
  have l: "links v {}" using inv_parts(1) [OF inv] .
  from hash_new_size_ok [OF l n] obtain new where new: "hash_new_size v = Some new" "new \<noteq> 0" "64 \<le> unat new"
    "3 * card (live v {} VMEM_ALLOC) + 4 < 4 * unat new" by blast
  have card: "card (vm_allocs v) \<le> card (live v {} VMEM_ALLOC)"
  proof -
    have "vm_allocs v = (\<lambda>p. (vs_start (vm_seg v p), VS_SIZE v p)) ` live v {} VMEM_ALLOC"
      by (auto simp: vm_allocs_def seg_allocs_def segs_def live_def VS_SIZE_def)
    then show ?thesis by (simp add: card_image_le live_def)
  qed
  let ?old = "vm_hash_mask v + 1"
  show ?thesis
  proof (cases "drop_bit 1 ?old \<le> new \<and> new \<le> push_bit 1 ?old")
    case True
    have "?old \<noteq> 0"
    proof
      assume "?old = 0"
      then have "push_bit 1 ?old = 0" by (simp only: push_bit_of_0)
      with True new(2) show False by (metis word_le_0_iff)
    qed
    then have "unat ?old = Suc (unat (vm_hash_mask v))" using unatSuc [of "vm_hash_mask v"] by (simp add: add.commute)
    then have "length (vm_hash_table v) = unat ?old" using l by (simp add: links_def hash_ok_def)
    moreover have "unat (push_bit 1 ?old) \<le> 2 * unat ?old" using unat_push_bit_1 by blast
    ultimately have "unat new \<le> 2 * length (vm_hash_table v)" using True by (simp add: word_le_nat_alt)
    then have "3 * card (vm_allocs v) < 8 * length (vm_hash_table v)" using new(4) card by linarith
    then show ?thesis using True new(1) inv by (auto simp: vmem_hash_rescale_def)
  next
    case False
    show ?thesis
    proof (cases avail)
      case True
      define v1 where "v1 = v\<lparr>vm_hash_mask := new - 1, vm_hash_shift := highbit (new - 1)\<rparr>"
      define v2 where "v2 = v1\<lparr>vm_hash_table := fold (rehash_one v1) (concat (vm_hash_table v)) (replicate (unat new) [])\<rparr>"
      have "links v2 {}" using rescaled_links [OF l new(2)] by (simp add: v1_def v2_def)
      then have "vmem_inv v2"
        using inv by (simp add: vmem_inv_def quantum_ok_def layout_ok_def segs_def totals_ok_def v2_def v1_def)
      moreover have "segs v2 = segs v" "vm_freelist v2 = vm_freelist v" by (simp_all add: segs_def v2_def v1_def)
      moreover have "3 * card (vm_allocs v2) < 8 * length (vm_hash_table v2)"
      proof -
        have "vm_allocs v2 = vm_allocs v" by (simp add: vm_allocs_def segs_def v2_def v1_def)
        moreover have "length (vm_hash_table v2) = unat new" by (simp add: v2_def)
        ultimately show ?thesis using new(4) card by simp
      qed
      moreover have "vmem_hash_rescale avail v = Some v2"
        using False True new(1) by (auto simp: vmem_hash_rescale_def v2_def v1_def Let_def)
      ultimately show ?thesis by blast
    next
      case na: False
      with False new(1) inv show ?thesis by (auto simp: vmem_hash_rescale_def)
    qed
  qed
qed

subsection \<open>vmem_size() and vmem_walk()\<close>

lemma sum_list_unat:
  "sum_list (map unat (xs :: ulong list)) < 2 ^ 64 \<Longrightarrow> unat (sum_list xs) = sum_list (map unat xs)"
  by (induction xs) (auto simp: unat_word_ariths)

lemma span_blocks_apart:
  assumes "sorted_wrt apart ss" "\<forall>s \<in> set ss. lo s < hi s \<and> vs_start s \<noteq> 0"
  shows "sum_list (map (\<lambda>s. unat (seg_size s)) ss) = card (\<Union> (rng ` set ss))"
  using assms
proof (induction ss)
  case (Cons s ss)
  have f: "finite (rng t)" for t by (simp add: rng_def)
  have "rng s \<inter> \<Union> (rng ` set ss) = {}" using Cons.prems(1) by auto
  then have "card (rng s \<union> \<Union> (rng ` set ss)) = card (rng s) + card (\<Union> (rng ` set ss))"
    by (intro card_Un_disjoint) (auto simp: f)
  moreover have "card (rng s) = unat (seg_size s)" using seg_size_unat [of s] Cons.prems(2) by (simp add: rng_def)
  ultimately show ?case using Cons by simp
qed simp

lemma rng_bounded:
  assumes "\<forall>s \<in> S. vs_start s \<noteq> 0" "finite S"
  shows "card (\<Union> (rng ` S)) < 2 ^ 64"
proof -
  have "\<Union> (rng ` S) \<subseteq> {1 ..< 2 ^ 64}"
  proof
    fix x assume "x \<in> \<Union> (rng ` S)"
    then obtain s where s: "s \<in> S" "lo s \<le> x" "x < hi s" by (auto simp: rng_def)
    then have "0 < lo s" using assms(1) by (simp add: unat_gt_0)
    then show "x \<in> {1 ..< 2 ^ 64}" using s hi_of_le [of "vs_end s"] by auto
  qed
  then have "card (\<Union> (rng ` S)) \<le> card {1 ..< (2::nat) ^ 64}" by (intro card_mono) simp_all
  then show ?thesis by simp
qed

lemma sorted_wrt_filter_imp:
  assumes "sorted_wrt (\<lambda>a b. P a \<longrightarrow> P b \<longrightarrow> R a b) ss"
  shows "sorted_wrt R (filter P ss)"
  using assms by (induction ss) auto

lemma segs_apart:
  assumes "vmem_inv v"
  shows "sorted_wrt apart (filter is_alloc (segs v))" "sorted_wrt apart (filter is_span (segs v))"
    "\<Union> (rng ` set (filter is_alloc (segs v))) \<subseteq> \<Union> (rng ` set (filter is_span (segs v)))"
proof -
  have t: "tiles_from (2 ^ vm_qshift v) (0, 0, False, False) (segs v)" using inv_parts(3) [OF assms] by (simp add: tiles_def)
  have "sorted_wrt (\<lambda>a b. \<not> is_span a \<longrightarrow> \<not> is_span b \<longrightarrow> apart a b) (segs v)"
    using t inv_parts(4) [OF assms] by (intro tiles_apart [where c = 0 and e = 0]) auto
  then have "sorted_wrt (\<lambda>a b. is_alloc a \<longrightarrow> is_alloc b \<longrightarrow> apart a b) (segs v)"
    by (rule sorted_wrt_mono_rel [rotated]) auto
  then show "sorted_wrt apart (filter is_alloc (segs v))" by (rule sorted_wrt_filter_imp)
  show "sorted_wrt apart (filter is_span (segs v))" using inv_parts(4) [OF assms] by (simp add: spans_apart_def)
  show "\<Union> (rng ` set (filter is_alloc (segs v))) \<subseteq> \<Union> (rng ` set (filter is_span (segs v)))"
    using tiles_inside [OF t] by fastforce
qed

lemma inuse_list:
  assumes "vmem_inv v"
  shows "vk_mem_inuse (vm_kstat v) = sum_list (map seg_size (filter is_alloc (segs v)))"
proof -
  have d: "distinct (vm_arena v)" using inv_distinct [OF inv_parts(1) [OF assms]] .
  have "live v {} VMEM_ALLOC = set (filter (\<lambda>p. is_alloc (vm_seg v p)) (vm_arena v))" by (auto simp: live_def)
  then have "(\<Sum>p \<in> live v {} VMEM_ALLOC. VS_SIZE v p) = sum_list (map (VS_SIZE v) (filter (\<lambda>p. is_alloc (vm_seg v p)) (vm_arena v)))"
    using d by (simp add: sum_list_distinct_conv_sum_set)
  moreover have "map (VS_SIZE v) (filter (\<lambda>p. is_alloc (vm_seg v p)) (vm_arena v)) = map seg_size (filter is_alloc (segs v))"
    by (simp add: segs_def filter_map comp_def VS_SIZE_def)
  ultimately show ?thesis using inv_parts(1) [OF assms] by (simp add: links_def inuse_ok_def)
qed

text \<open>The accounts, as numbers: nothing wraps, since the segments are disjoint.\<close>

lemma vmem_accounts:
  assumes inv: "vmem_inv v"
  shows "unat (vk_mem_inuse (vm_kstat v)) = sum_list (map (\<lambda>s. unat (seg_size s)) (filter is_alloc (segs v)))"
    "unat (vk_mem_total (vm_kstat v)) = sum_list (map (\<lambda>s. unat (seg_size s)) (filter is_span (segs v)))"
    "vk_mem_inuse (vm_kstat v) \<le> vk_mem_total (vm_kstat v)"
proof -
  have ne: "lo s < hi s \<and> vs_start s \<noteq> 0" if "s \<in> set (segs v)" for s
    using that inv_seg(1,2) [OF inv] by (auto simp: segs_def)
  have a: "sum_list (map (\<lambda>s. unat (seg_size s)) (filter is_alloc (segs v))) = card (\<Union> (rng ` set (filter is_alloc (segs v))))"
    by (rule span_blocks_apart [OF segs_apart(1) [OF inv]]) (use ne in auto)
  have s: "sum_list (map (\<lambda>s. unat (seg_size s)) (filter is_span (segs v))) = card (\<Union> (rng ` set (filter is_span (segs v))))"
    by (rule span_blocks_apart [OF segs_apart(2) [OF inv]]) (use ne in auto)
  have lt: "card (\<Union> (rng ` set (filter P (segs v)))) < 2 ^ 64" for P by (rule rng_bounded) (use ne in auto)
  show i: "unat (vk_mem_inuse (vm_kstat v)) = sum_list (map (\<lambda>s. unat (seg_size s)) (filter is_alloc (segs v)))"
    unfolding inuse_list [OF inv] using sum_list_unat [of "map seg_size (filter is_alloc (segs v))"] a lt by (simp add: comp_def)
  show t: "unat (vk_mem_total (vm_kstat v)) = sum_list (map (\<lambda>s. unat (seg_size s)) (filter is_span (segs v)))"
    using inv_parts(6) [OF inv] sum_list_unat [of "map seg_size (filter is_span (segs v))"] s lt by (simp add: comp_def totals_ok_def)
  have "card (\<Union> (rng ` set (filter is_alloc (segs v)))) \<le> card (\<Union> (rng ` set (filter is_span (segs v))))"
    by (rule card_mono [OF _ segs_apart(3) [OF inv]]) (auto simp: rng_def)
  then show "vk_mem_inuse (vm_kstat v) \<le> vk_mem_total (vm_kstat v)" using i t a s by (simp add: word_le_nat_alt)
qed

subsection \<open>vmem_contains()\<close>

lemma contains_loop_iff:
  "fst (contains_loop v start end ps n) \<longleftrightarrow>
     (\<exists>p \<in> set ps. vs_start (vm_seg v p) \<le> start \<and> end - 1 \<le> vs_end (vm_seg v p) - 1)"
  by (induction ps arbitrary: n) auto

lemma in_span_iff:
  assumes s: "lo s < hi s" and b: "sz \<noteq> 0" "unat a + unat sz \<le> 2 ^ 64"
  shows "vs_start s \<le> a \<and> a + sz - 1 \<le> vs_end s - 1 \<longleftrightarrow> block (a, sz) \<subseteq> rng s"
proof -
  have "unat (a + sz - 1) = unat a + unat sz - 1" using hi_of_add [OF b(2,1)] by (simp add: hi_of_def)
  then have "vs_start s \<le> a \<and> a + sz - 1 \<le> vs_end s - 1 \<longleftrightarrow> lo s \<le> unat a \<and> unat a + unat sz \<le> hi s"
    using b(1) by (auto simp: word_le_nat_alt hi_of_def unat_gt_0)
  moreover have "\<not> unat sz \<le> 0" using b(1) by (simp add: unat_eq_0)
  ultimately show ?thesis by (simp add: block_def rng_def ivl_subset)
qed

subsection \<open>vmem_add() and vmem_create()\<close>

lemma highbit_exp:
  assumes "k < 64"
  shows "highbit (2 ^ k) = Suc k"
proof -
  have u: "unat (2 ^ k :: ulong) = 2 ^ k" using assms by simp
  then have nz: "(2 ^ k :: ulong) \<noteq> 0" by (metis power_not_zero unat_0 zero_neq_numeral)
  note h = highbit_bounds [OF nz]
  have "highbit (2 ^ k) - 1 \<le> k" using h(3) u by simp
  moreover have "k < highbit (2 ^ k)" using h(4) u by simp
  ultimately show ?thesis using h(1) by linarith
qed

lemma init_arena_inv:
  fixes k qc
  defines "v \<equiv> vmem_init_arena (2 ^ k) qc"
  assumes k: "k < 64"
  shows "vmem_inv v" "vm_allocs v = {}" "vm_span_set v = {}" "vm_qshift v = k" "vm_quantum v = 2 ^ k" "seg_ids v = {}" "seg_reserve v = 0" "vm_nsegfree v = 0"
proof -
  have e: "vm_arena v = []" "vm_segfree v = []" "vm_spans v = []" "vm_freemap v = 0" "vm_hash_mask v = 63" "vm_kstat v = kstat_zero"
      "vm_freelist v = replicate 65 []" "vm_hash_table v = replicate 64 []" "vm_nsegfree v = 0"
    by (simp_all add: v_def vmem_init_arena_def Let_def VMEM_FREELISTS_def VMEM_HASH_INITIAL_def del: replicate_Suc)
  have q: "vm_quantum v = 2 ^ k" "vm_qshift v = k" using k by (simp_all add: v_def vmem_init_arena_def Let_def highbit_exp)
  have lv: "live v L t = {}" for L t by (simp add: live_def e)
  have "links v {}"
    by (simp add: links_def pool_ok_def flist_ok_def freemap_ok_def hash_ok_def inuse_ok_def lv e kstat_zero_def)
  then show "vmem_inv v"
    using k by (simp add: vmem_inv_def quantum_ok_def layout_ok_def totals_ok_def segs_def e q tiles_def spans_apart_def kstat_zero_def)
  show "vm_allocs v = {}" "vm_span_set v = {}" "vm_qshift v = k" "vm_quantum v = 2 ^ k" "seg_ids v = {}" "seg_reserve v = 0" "vm_nsegfree v = 0"
    by (simp_all add: q e vm_allocs_def vm_span_set_def segs_def seg_ids_def seg_reserve_def)
qed

lemma vmem_add_root:
  assumes g: "root.good X w v" and n: "2 \<le> vm_nsegfree v + vm_nsegfree w"
    and b: "fresh_block (vm_span_set v) (base, sz)" "2 ^ vm_qshift v dvd unat base" "2 ^ vm_qshift v dvd unat sz"
  shows "\<exists>w' v' p. vmem_add root_env base sz fl w v = Inr (base, w', v') \<and> root.good X w' v' \<and> stepped0 v v' \<and>
     vm_span_set v' = insert (base, sz) (vm_span_set v) \<and> vm_allocs v' = vm_allocs v \<and> p \<in> live v' {} VMEM_FREE \<and>
     vm_seg v' p = \<lparr>vs_start = base, vs_end = base + sz, vs_type = VMEM_FREE, vs_import = False\<rparr>"
proof -
  have gv: "vmem_inv v" "0 \<le> vm_nsegfree v" "0 \<le> seg_reserve v" "pool_good (seg_ids v \<union> X) w" using g by (simp_all add: root_good)
  from vmem_populate_ok [of "\<lambda>w. w" "\<lambda>s _. s" "\<lambda>_. ()" v X w 2 "Suc 2" fl] gv n obtain w1 v1 where
    p: "vmem_populate (Suc 2) (\<lambda>w. w) (\<lambda>s _. s) (\<lambda>_ _. None) 2 fl w v = Some (Inr (True, w1, v1))" "vmem_inv v1"
      "pool_good (seg_ids v1 \<union> X) w1" "vm_allocs v1 = vm_allocs v" "vm_span_set v1 = vm_span_set v" "seg_reserve v1 = seg_reserve v"
      "2 \<le> vm_nsegfree v1" "vm_quantum v1 = vm_quantum v" "vm_qshift v1 = vm_qshift v" by auto
  have pop: "ve_populate root_env 2 fl w v = Inr (True, w1, v1)" using p(1) by (simp add: root_env_def del: vmem_populate.simps)
  obtain b1 b2 bs where sf: "vm_segfree v1 = b1 # b2 # bs" using root.segfree_two [OF refl _ p(7)] gv(3) p(6) by auto
  from vmem_span_create_ok [OF p(2) sf, of base sz False] b p(5,9) obtain v2 where
    c: "vmem_span_create base sz False v1 = Inr (b2, v2)" "vmem_inv v2" "vm_allocs v2 = vm_allocs v1"
      "vm_span_set v2 = insert (base, sz) (vm_span_set v1)" "b2 \<in> live v2 {} VMEM_FREE"
      "vm_seg v2 b2 = \<lparr>vs_start = base, vs_end = base + sz, vs_type = VMEM_FREE, vs_import = False\<rparr>"
      "vm_segfree v2 = bs" "vm_quantum v2 = vm_quantum v1" "vm_qshift v2 = vm_qshift v1" "seg_reserve v2 = seg_reserve v1"
      "seg_ids v2 = seg_ids v1" by auto
  have n2: "0 \<le> vm_nsegfree v2" using c(7,10) sf p(7) by (simp add: seg_reserve_def)
  have "base \<noteq> 0" "sz \<noteq> 0" using b(1) by (simp_all add: fresh_block_def)
  then have run: "vmem_add root_env base sz fl w v = Inr (base, w1, v2)" using pop c(1) by (simp add: vmem_add_def)
  have "root.good X w1 v2" using c p gv(3) n2 by (simp add: root_good)
  moreover have "stepped0 v v2" using c p n2 by (simp add: stepped_def)
  ultimately show ?thesis using run c(3-6) p(4,5) by metis
qed

lemma vmem_create_root:
  assumes w: "pool_good {} w" "2 \<le> vm_nsegfree w" and k: "k < 64"
    and b: "base \<noteq> 0" "sz \<noteq> 0" "unat base + unat sz \<le> 2 ^ 64" "2 ^ k dvd unat base" "2 ^ k dvd unat sz"
  shows "\<exists>w' v p. vmem_create root_env True base sz (2 ^ k) qc fl w = Inr (Some v, w') \<and> root.good {} w' v \<and>
     vm_qshift v = k \<and> vm_quantum v = 2 ^ k \<and> vm_span_set v = {(base, sz)} \<and> vm_allocs v = {} \<and> p \<in> live v {} VMEM_FREE \<and>
     vm_seg v p = \<lparr>vs_start = base, vs_end = base + sz, vs_type = VMEM_FREE, vs_import = False\<rparr>"
proof -
  let ?v = "vmem_init_arena (2 ^ k) qc"
  note i = init_arena_inv [OF k, of qc]
  have g: "root.good {} w ?v" using i w(1) by (simp add: root_good)
  have n: "2 \<le> vm_nsegfree ?v + vm_nsegfree w" using i(8) w(2) by simp
  have fr: "fresh_block (vm_span_set ?v) (base, sz)" using b(1-3) i(3) by (simp add: fresh_block_def)
  have dv: "2 ^ vm_qshift ?v dvd unat base" "2 ^ vm_qshift ?v dvd unat sz" unfolding i(4) using b(4,5) by auto
  from vmem_add_root [OF g n fr dv, of fl] obtain w' v p where
    a: "vmem_add root_env base sz fl w ?v = Inr (base, w', v)" "root.good {} w' v" "stepped0 ?v v"
       "vm_span_set v = insert (base, sz) (vm_span_set ?v)" "vm_allocs v = vm_allocs ?v" "p \<in> live v {} VMEM_FREE"
       "vm_seg v p = \<lparr>vs_start = base, vs_end = base + sz, vs_type = VMEM_FREE, vs_import = False\<rparr>" by blast
  have "vmem_create root_env True base sz (2 ^ k) qc fl w = Inr (Some v, w')"
    using a(1) b(1) by (simp add: vmem_create_def)
  then show ?thesis using a i by (auto simp: stepped_def)
qed

subsection \<open>vmem_destroy()\<close>

lemma return_segs_ok:
  assumes "0 \<le> vm_nsegfree v" "vm_nsegfree v \<le> int (length (vm_segfree v))"
  shows "\<exists>v' smp'. return_segs v smp = Inr (v', smp') \<and>
     vm_segfree smp' = rev (take (nat (vm_nsegfree v)) (vm_segfree v)) @ vm_segfree smp \<and>
     vm_nsegfree smp' = vm_nsegfree smp + vm_nsegfree v"
  using assms
proof (induction v smp rule: return_segs.induct)
  case (1 v smp)
  show ?case
  proof (cases "vm_nsegfree v > 0")
    case False
    then show ?thesis using "1.prems" by (simp add: return_segs.simps [of v smp])
  next
    case True
    with "1.prems" obtain p ps where ps: "vm_segfree v = p # ps" by (cases "vm_segfree v") auto
    let ?v = "v\<lparr>vm_segfree := ps, vm_nsegfree := vm_nsegfree v - 1\<rparr>"
    have g: "vmem_getseg v = Inr (p, ?v)" by (simp add: vmem_getseg_def ps)
    have pre: "0 \<le> vm_nsegfree ?v" "vm_nsegfree ?v \<le> int (length (vm_segfree ?v))" using True "1.prems" ps by auto
    from "1.IH" [OF True g refl pre] obtain v' smp' where
      r: "return_segs ?v (vmem_putseg p smp) = Inr (v', smp')"
        "vm_segfree smp' = rev (take (nat (vm_nsegfree v - 1)) ps) @ p # vm_segfree smp"
        "vm_nsegfree smp' = vm_nsegfree smp + vm_nsegfree v" by (auto simp: vmem_putseg_def)
    have "take (nat (vm_nsegfree v)) (vm_segfree v) = p # take (nat (vm_nsegfree v - 1)) ps"
      using True ps by (cases "nat (vm_nsegfree v)") (simp_all add: nat_diff_distrib)
    then show ?thesis using r g True by (simp add: return_segs.simps [of v smp])
  qed
qed

end
