(* ===== verification/Vmem_Theorems.thy ===== *)
theory Vmem_Theorems
  imports Vmem_Arena_Ops
begin

section \<open>Vmem: properties\<close>

text \<open>
  The properties of the arena allocator, for root arenas and for arenas that import from one, and the
  arenas on which the witnesses evaluate them.
\<close>

subsection \<open>Arenas in a consistent state\<close>

definition arena_ok :: "vmem \<Rightarrow> bool" where
  "arena_ok v \<longleftrightarrow> vmem_inv v \<and> 0 \<le> vm_nsegfree v \<and> vm_nsegfree v \<le> int (length (vm_segfree v))"

definition root_ok :: "vmem \<Rightarrow> vmem \<Rightarrow> bool" where
  "root_ok w v \<longleftrightarrow> arena_ok v \<and> pool_good (seg_ids v) w"

definition importing_ok :: "nat \<Rightarrow> vmem \<times> vmem \<Rightarrow> vmem \<Rightarrow> bool" where
  "importing_ok m w v \<longleftrightarrow> arena_ok v \<and> arena_ok (snd w) \<and> vm_qshift (snd w) = m \<and>
     pool_good (seg_ids (snd w) \<union> seg_ids v) (fst w) \<and> vm_span_set v \<subseteq> vm_allocs (snd w)"

lemma root_ok_good: "root_ok w v \<longleftrightarrow> root.good {} w v"
  by (auto simp: root_ok_def arena_ok_def root_good seg_reserve_def)

lemma importing_ok_good:
  assumes "m < 64"
  shows "importing_ok m w v \<longleftrightarrow> child.good m w v"
  unfolding child.good_def using assms by (auto simp: importing_ok_def arena_ok_def child_J_def seg_reserve_def)

text \<open>A pool of twenty segment structures, an arena of eight pages and one that imports from it.\<close>

definition demo_pool :: vmem where
  "demo_pool = (vmem_init_arena 1 0)\<lparr>vm_segfree := [0 ..< 20], vm_nsegfree := 20\<rparr>"

lemma demo_pool_good: "pool_good {} demo_pool" "vm_nsegfree demo_pool = 20"
  by (simp_all add: pool_good_def demo_pool_def del: upt_Suc upt_conv_Cons)

lemma demo_root:
  "\<exists>w v p. vmem_create root_env True 0x1000 0x8000 0x1000 0 VM_NOSLEEP demo_pool = Inr (Some v, w) \<and> root_ok w v \<and>
     vm_qshift v = 12 \<and> vm_quantum v = 0x1000 \<and> vm_span_set v = {(0x1000, 0x8000)} \<and> vm_allocs v = {} \<and> p \<in> live v {} VMEM_FREE \<and>
     vm_seg v p = \<lparr>vs_start = 0x1000, vs_end = 0x9000, vs_type = VMEM_FREE, vs_import = False\<rparr>"
  using vmem_create_root [OF demo_pool_good(1), of 12 "0x1000" "0x8000" 0 VM_NOSLEEP] demo_pool_good(2)
  by (simp add: root_ok_good)

lemma demo_child:
  "\<exists>w v. importing_ok 12 w v \<and> vm_quantum v = 0x1000 \<and> vm_allocs v = {} \<and> v = vmem_init_arena 0x1000 0 \<and>
     vmem_create root_env True 0x1000 0x8000 0x1000 0 VM_NOSLEEP demo_pool = Inr (Some (snd w), fst w)"
proof -
  from demo_root obtain w u where u: "root_ok w u" "vm_qshift u = 12" "vm_span_set u = {(0x1000, 0x8000)}"
    "vmem_create root_env True 0x1000 0x8000 0x1000 0 VM_NOSLEEP demo_pool = Inr (Some u, w)" by blast
  define v where "v = vmem_init_arena (2 ^ 12) 0"
  have "(12::nat) < 64" by simp
  note i = init_arena_inv [OF this, of 0, folded v_def]
  have q: "vm_quantum v = 0x1000" unfolding i(5) by simp
  have "vm_nsegfree v \<le> int (length (vm_segfree v))" using i(7) by (simp add: seg_reserve_def)
  then have "importing_ok 12 (w, u) v" using u i by (simp add: importing_ok_def root_ok_def arena_ok_def)
  moreover have "v = vmem_init_arena 0x1000 0" by (simp add: v_def)
  ultimately show ?thesis using u(4) i(2) q by (metis fst_conv snd_conv)
qed

text \<open>The arena after its creation; the request below is aligned on two pages.\<close>

definition demo_aligned :: vmem_req where
  "demo_aligned = \<lparr>rq_size = 0x2000, rq_align = 0x2000, rq_phase = 0, rq_nocross = 0, rq_minaddr = 0, rq_maxaddr = 0, rq_flag = VM_NOSLEEP\<rparr>"

definition demo_import :: "vmem_req \<Rightarrow> (ulong \<times> (vmem \<times> vmem) \<times> vmem) vres option" where
  "demo_import r = (case vmem_create root_env True 0x1000 0x8000 0x1000 0 VM_NOSLEEP demo_pool of
      Inr (Some u, w) \<Rightarrow> vmem_xalloc 1 (child_env 12) r (w, u) (vmem_init_arena 0x1000 0)
    | _ \<Rightarrow> None)"

lemma demo_counts:
  "(case vmem_create root_env True 0x1000 0x8000 0x1000 0 VM_NOSLEEP demo_pool of
      Inr (Some v, w) \<Rightarrow> 4 \<le> vm_nsegfree v + vm_nsegfree w \<and> vm_qcache_max v = 0
    | _ \<Rightarrow> False)"
  by code_simp

lemma demo_import_panics: "(case demo_import demo_aligned of Some (Inl e) \<Rightarrow> e = VmBadArguments | _ \<Rightarrow> False)"
  by code_simp

lemma allocs_iff: "(a, z) \<in> vm_allocs v \<longleftrightarrow> (\<exists>p \<in> live v {} VMEM_ALLOC. vs_start (vm_seg v p) = a \<and> VS_SIZE v p = z)"
  by (auto simp: vm_allocs_def seg_allocs_def segs_def live_def VS_SIZE_def)

lemma type_code_free: "type_code t AND type_code VMEM_FREE \<noteq> 0 \<longleftrightarrow> t = VMEM_FREE"
  and type_code_alloc: "type_code t AND type_code VMEM_ALLOC \<noteq> 0 \<longleftrightarrow> t = VMEM_ALLOC"
  by (cases t; simp)+

lemma type_code_same: "type_code t AND type_code u \<noteq> 0 \<longleftrightarrow> t = u"
  by (cases t; cases u; simp)

lemma inuse_allocs:
  assumes "vmem_inv v"
  shows "vk_mem_inuse (vm_kstat v) = (\<Sum>b \<in> vm_allocs v. snd b)"
proof -
  let ?f = "\<lambda>p. (vs_start (vm_seg v p), VS_SIZE v p)"
  have "inj_on ?f (live v {} VMEM_ALLOC)" using inv_start_inj [OF assms] by (auto simp: inj_on_def live_def)
  moreover have "vm_allocs v = ?f ` live v {} VMEM_ALLOC" using allocs_iff by force
  ultimately have "(\<Sum>b \<in> vm_allocs v. snd b) = (\<Sum>p \<in> live v {} VMEM_ALLOC. VS_SIZE v p)" by (simp add: sum.reindex)
  then show ?thesis using inv_parts(1) [OF assms] by (simp add: links_def inuse_ok_def)
qed

lemma inv_contains:
  "vmem_inv (v\<lparr>vm_kstat := (vm_kstat v)\<lparr>vk_contains := i, vk_contains_search := j\<rparr>\<rparr>) = vmem_inv v"
  using inv_kstat(1) [of "\<lambda>k. k\<lparr>vk_contains := i, vk_contains_search := j\<rparr>" v] by simp

lemma allocs_card:
  assumes "vmem_inv v"
  shows "card (live v {} VMEM_ALLOC) = card (vm_allocs v)"
proof -
  let ?f = "\<lambda>p. (vs_start (vm_seg v p), VS_SIZE v p)"
  have "inj_on ?f (live v {} VMEM_ALLOC)" using inv_start_inj [OF assms] by (auto simp: inj_on_def live_def)
  moreover have "vm_allocs v = ?f ` live v {} VMEM_ALLOC" using allocs_iff by force
  ultimately show ?thesis by (simp add: card_image)
qed

lemma demo_ready:
  "\<exists>w v. root_ok w v \<and> 4 \<le> vm_nsegfree v + vm_nsegfree w \<and> vm_quantum v = 0x1000 \<and> vm_qcache_max v = 0 \<and> vm_allocs v = {} \<and>
     (0x1000, 0x8000) \<in> set (vmem_walk (type_code VMEM_FREE) v)"
proof -
  from demo_root obtain w v p where d: "vmem_create root_env True 0x1000 0x8000 0x1000 0 VM_NOSLEEP demo_pool = Inr (Some v, w)" "root_ok w v"
    "vm_quantum v = 0x1000" "vm_allocs v = {}" "p \<in> live v {} VMEM_FREE"
    "vm_seg v p = \<lparr>vs_start = 0x1000, vs_end = 0x9000, vs_type = VMEM_FREE, vs_import = False\<rparr>" by blast
  have "4 \<le> vm_nsegfree v + vm_nsegfree w \<and> vm_qcache_max v = 0" using demo_counts d(1) by (simp split: sum.splits)
  moreover have "(0x1000, 0x8000) = (vs_start (vm_seg v p), VS_SIZE v p)" using d(6) by (simp add: VS_SIZE_def seg_size_def)
  moreover have "p \<in> set (filter (\<lambda>p. type_code (vs_type (vm_seg v p)) AND type_code VMEM_FREE \<noteq> 0) (vm_arena v))"
    using d(5) by (simp add: live_def)
  ultimately show ?thesis using d(2-4) unfolding vmem_walk_def by force
qed

lemma xalloc_disjoint:
  assumes "vmem_inv v'" "vm_allocs v' = insert b B" "b \<notin> B" "c \<in> B"
  shows "block b \<inter> block c = {}"
  using allocs_apart [OF assms(1), of b c] assms(2-4) by auto

lemma bad_free_panics:
  assumes "vmem_inv v" "(a, z) \<notin> vm_allocs v"
  shows "vmem_xfree env a z w v = Inl VmBadFree \<or> vmem_xfree env a z w v = Inl VmWrongSize"
proof -
  have h: "hash_ok v {}" using inv_parts(1) [OF assms(1)] by (simp add: links_def)
  have "\<exists>e. vmem_hash_delete a z v = Inl e"
  proof (cases "vmem_hash_delete a z v")
    case (Inr pv)
    then show ?thesis using vmem_hash_delete_fault(3) [OF h, of a z "fst pv" "snd pv"] assms(2) by (auto simp: allocs_iff)
  qed simp
  then show ?thesis using vmem_hash_delete_fault(2) [OF h, of a z] by (auto simp: vmem_xfree_def xfree_coalesce_def)
qed

lemma xalloc_importing:
  assumes "importing_ok m w v" "m < 64" "req_ok r" "xalloc_check r v = None" "import_ok (child_env m) r v"
  shows "case vmem_xalloc fuel (child_env m) r w v of
      None \<Rightarrow> fuel = 0 \<or> rq_flag r AND VM_NOSLEEP = 0
    | Some (Inl e) \<Rightarrow> e = VmMandatory \<and> rq_flag r AND VM_PANIC \<noteq> 0
    | Some (Inr (a, w', v')) \<Rightarrow> importing_ok m w' v' \<and>
        (if a = 0 then vm_allocs v' = vm_allocs v
         else meets r a \<and> vm_allocs v' = insert (a, rq_size r) (vm_allocs v) \<and>
              (\<forall>b \<in> vm_allocs v. block (a, rq_size r) \<inter> block b = {}))"
proof -
  have m: "m mod 64 = m" using assms(2) by simp
  have g: "child.good m w v" using assms(1) importing_ok_good [OF assms(2)] by blast
  have l: "case xalloc_loop fuel (child_env m) r False w v of
      None \<Rightarrow> fuel = 0 \<or> rq_flag r AND VM_NOSLEEP = 0
    | Some (Inl e) \<Rightarrow> e = VmMandatory \<and> rq_flag r AND VM_PANIC \<noteq> 0
    | Some (Inr (a, w', v')) \<Rightarrow> child.alloc_post m r v a w' v'"
    using child.xalloc_loop_ok [where m = m and fuel = fuel and reaped = False, unfolded m, OF g [unfolded m] assms(3-5)] unfolding m .
  have post: "importing_ok m w' v' \<and> (if a = 0 then vm_allocs v' = vm_allocs v
       else meets r a \<and> vm_allocs v' = insert (a, rq_size r) (vm_allocs v) \<and> (\<forall>b \<in> vm_allocs v. block (a, rq_size r) \<inter> block b = {}))"
    if "child.alloc_post m r v a w' v'" for a w' v'
  proof -
    have "child.good m w' v'" using that unfolding child.alloc_post_def by blast
    then have ok: "importing_ok m w' v'" using importing_ok_good [OF assms(2)] by blast
    then have "vmem_inv v'" by (simp add: importing_ok_def arena_ok_def)
    then show ?thesis using that ok xalloc_disjoint unfolding child.alloc_post_def by (auto split: if_splits)
  qed
  have x: "vmem_xalloc fuel (child_env m) r w v = xalloc_loop fuel (child_env m) r False w v"
    using assms(4) by (simp add: vmem_xalloc_def)
  show ?thesis
  proof (cases "xalloc_loop fuel (child_env m) r False w v")
    case None
    with l x show ?thesis by simp
  next
    case (Some y)
    show ?thesis
    proof (cases y)
      case (Inl e)
      with l x Some show ?thesis by simp
    next
      case (Inr z)
      obtain a w' v' where z: "z = (a, w', v')" by (metis prod.collapse)
      have "child.alloc_post m r v a w' v'" using l unfolding Some Inr z by simp
      from post [OF this] show ?thesis unfolding x Some Inr z by simp
    qed
  qed
qed

definition demo_plain :: vmem_req where
  "demo_plain = \<lparr>rq_size = 0x2000, rq_align = 0x1000, rq_phase = 0, rq_nocross = 0, rq_minaddr = 0, rq_maxaddr = 0, rq_flag = VM_NOSLEEP\<rparr>"

lemma demo_plain_ok:
  assumes "vm_quantum v = 0x1000"
  shows "req_ok demo_plain" "xalloc_check demo_plain v = None" "import_ok (child_env 12) demo_plain v"
proof -
  show "req_ok demo_plain"
    by (auto simp: req_ok_def demo_plain_def hi_of_alt intro!: exI [of _ 12])
  show "xalloc_check demo_plain v = None" using assms by (simp add: xalloc_check_def demo_plain_def)
  show "import_ok (child_env 12) demo_plain v"
    using assms by (simp add: import_ok_def demo_plain_def child_env_def VM_NOSLEEP_def VM_PANIC_def)
qed

lemma demo_import_served: "(case demo_import demo_plain of Some (Inr (a, _)) \<Rightarrow> a = 0x1000 | _ \<Rightarrow> False)"
  by code_simp

lemma demo_importing:
  "\<exists>w v. importing_ok 12 w v \<and> vm_allocs v = {(0x1000, 0x2000)}"
proof -
  from demo_child obtain w v where c: "importing_ok 12 w v" "vm_quantum v = 0x1000" "vm_allocs v = {}" "v = vmem_init_arena 0x1000 0"
    "vmem_create root_env True 0x1000 0x8000 0x1000 0 VM_NOSLEEP demo_pool = Inr (Some (snd w), fst w)" by blast
  have "demo_import demo_plain = vmem_xalloc 1 (child_env 12) demo_plain w v"
    using c(4,5) by (simp add: demo_import_def del: One_nat_def)
  with demo_import_served obtain w' v' where x: "vmem_xalloc 1 (child_env 12) demo_plain w v = Some (Inr (0x1000, w', v'))"
    by (auto split: option.splits sum.splits)
  from xalloc_importing [OF c(1) _ demo_plain_ok [OF c(2)], of 1] x c(3)
  have "importing_ok 12 w' v' \<and> vm_allocs v' = {(0x1000, 0x2000)}" by (simp add: demo_plain_def)
  then show ?thesis by blast
qed

subsection \<open>Allocation and freeing\<close>

text \<open>
  C9: \<open>vmem_xalloc()\<close> on an arena that imports from another one is safe for every constrained
  request. The address it returns has the alignment, phase and address range asked for and crosses
  no forbidden boundary, the new block is disjoint from every block that was allocated, no other
  block is gained or lost, and the arena, its source and the pool of segment structures stay
  consistent. It fails to return only if it may sleep, and panics only if it was told to. A request
  without \<open>nocross\<close>, \<open>minaddr\<close> and \<open>maxaddr\<close> may be served by an import; for such a request \<open>import_ok\<close>
  excludes \<open>VM_PANIC\<close>, asks that neither the quantum of the arena nor the alignment exceeds the quantum of the
  source, and that the size rounded up to the quantum does not wrap. \<open>vmem_import_panic\<close> below shows what a larger
  alignment does.
\<close>

theorem vmem_xalloc_sound:
  assumes "importing_ok m w v" "m < 64" "req_ok r" "xalloc_check r v = None" "import_ok (child_env m) r v"
  shows "case vmem_xalloc fuel (child_env m) r w v of
      None \<Rightarrow> fuel = 0 \<or> rq_flag r AND VM_NOSLEEP = 0
    | Some (Inl e) \<Rightarrow> e = VmMandatory \<and> rq_flag r AND VM_PANIC \<noteq> 0
    | Some (Inr (a, w', v')) \<Rightarrow> importing_ok m w' v' \<and>
        (if a = 0 then vm_allocs v' = vm_allocs v
         else meets r a \<and> vm_allocs v' = insert (a, rq_size r) (vm_allocs v) \<and>
              (\<forall>b \<in> vm_allocs v. block (a, rq_size r) \<inter> block b = {}))"
  using assms by (rule xalloc_importing)

theorem vmem_xalloc_sound_witness:
  "\<exists>w v. importing_ok 12 w v \<and> (case vmem_xalloc 1 (child_env 12) demo_plain w v of
      Some (Inr (a, w', v')) \<Rightarrow> importing_ok 12 w' v' \<and>
        (if a = 0 then vm_allocs v' = vm_allocs v
         else meets demo_plain a \<and> vm_allocs v' = insert (a, 0x2000) (vm_allocs v))
    | _ \<Rightarrow> False)"
proof -
  from demo_child obtain w v where c: "importing_ok 12 w v" "vm_quantum v = 0x1000" by blast
  note r = vmem_xalloc_sound [OF c(1) _ demo_plain_ok [OF c(2)], of 1]
  have f: "rq_flag demo_plain AND VM_NOSLEEP \<noteq> 0" "rq_flag demo_plain AND VM_PANIC = 0" "rq_size demo_plain = 0x2000"
    by (simp_all add: demo_plain_def VM_NOSLEEP_def VM_PANIC_def)
  show ?thesis
    by (intro exI conjI, rule c(1)) (use r f in \<open>auto split: option.splits sum.splits prod.splits\<close>)
qed

text \<open>
  C10: \<open>vmem_xfree()\<close> of an allocated block always succeeds, and its effect on the set of allocated
  blocks is to remove that block and nothing else; a span whose last block goes is given back to the
  source arena, and the arena, its source and the pool stay consistent.
\<close>

theorem vmem_xfree_refines:
  assumes "importing_ok m w v" "m < 64" "(a, z) \<in> vm_allocs v"
  shows "\<exists>w' v'. vmem_xfree (child_env m) a z w v = Inr (w', v') \<and> importing_ok m w' v' \<and>
     vm_allocs v' = vm_allocs v - {(a, z)}"
proof -
  have m: "m mod 64 = m" using assms(2) by simp
  have g: "child.good m w v" using assms(1) importing_ok_good [OF assms(2)] by blast
  from child.vmem_xfree_post [where m = m, OF g assms(3)] obtain w' v' v1 where
    "vmem_xfree (child_env m) a z w v = Inr (w', v')" "child.good m w' v'" "stepped (=) v1 v'" "vm_allocs v1 = vm_allocs v - {(a, z)}"
    unfolding m by blast
  then show ?thesis using importing_ok_good [OF assms(2)] by (auto simp: stepped_def)
qed

theorem vmem_xfree_refines_witness:
  "\<exists>w v. (0x1000, 0x2000) \<in> vm_allocs v \<and>
     (\<exists>w' v'. vmem_xfree (child_env 12) 0x1000 0x2000 w v = Inr (w', v') \<and> importing_ok 12 w' v' \<and> vm_allocs v' = {})"
proof -
  from demo_importing obtain w v where d: "importing_ok 12 w v" "vm_allocs v = {(0x1000, 0x2000)}" by blast
  have m: "(0x1000, 0x2000) \<in> vm_allocs v" using d(2) by simp
  have "(12::nat) < 64" by simp
  from vmem_xfree_refines [OF d(1) this m] obtain w' v' where
    "vmem_xfree (child_env 12) 0x1000 0x2000 w v = Inr (w', v')" "importing_ok 12 w' v'" "vm_allocs v' = vm_allocs v - {(0x1000, 0x2000)}"
    by blast
  with m d(2) show ?thesis by (intro exI [of _ w] exI [of _ v]) simp
qed

text \<open>
  C18: a free of an address and a size that are not those of an allocated block is detected: it panics
  with "bad free" or "wrong size", in every arena and whatever its source.
\<close>

theorem vmem_xfree_panics:
  assumes "arena_ok v" "(a, z) \<notin> vm_allocs v"
  shows "vmem_xfree env a z w v = Inl VmBadFree \<or> vmem_xfree env a z w v = Inl VmWrongSize"
proof -
  from assms(1) have "vmem_inv v" by (simp add: arena_ok_def)
  then show ?thesis using assms(2) by (rule bad_free_panics)
qed

theorem vmem_xfree_panics_witness:
  "\<exists>w v. vm_allocs v = {(0x1000, 0x2000)} \<and>
     (vmem_xfree (child_env 12) 0x1000 0x1000 w v = Inl VmBadFree \<or> vmem_xfree (child_env 12) 0x1000 0x1000 w v = Inl VmWrongSize)"
proof -
  from demo_importing obtain w v where d: "importing_ok 12 w v" "vm_allocs v = {(0x1000, 0x2000)}" by blast
  then have "arena_ok v" "(0x1000, 0x1000) \<notin> vm_allocs v" by (auto simp: importing_ok_def)
  from vmem_xfree_panics [OF this, of "child_env 12" w] d(2) show ?thesis by blast
qed

text \<open>
  C12: instant fit is complete for unconstrained requests. When an arena reports a free segment that
  is large enough, \<open>vmem_alloc()\<close> on a root arena returns a block, with any flags. At least four segment
  structures must be at hand in the arena and in the pool, the size must be larger than those the quantum caches
  serve, and rounding it up to the quantum must not wrap.
\<close>

theorem vmem_alloc_served:
  assumes "root_ok w v" "4 \<le> vm_nsegfree v + vm_nsegfree w" "sz \<noteq> 0" "unat sz + unat (vm_quantum v) \<le> 2 ^ 64" "vm_qcache_max v \<le> sz - 1"
    "(start, n) \<in> set (vmem_walk (type_code VMEM_FREE) v)" "sz \<le> n"
  shows "\<exists>a w' v'. vmem_alloc 1 root_env sz fl w v = Some (Inr (a, w', v')) \<and> a \<noteq> 0 \<and> root_ok w' v' \<and>
     vm_allocs v' = insert (a, sz) (vm_allocs v) \<and> (a, sz) \<notin> vm_allocs v"
proof -
  from assms(6) obtain p where p: "p \<in> live v {} VMEM_FREE" "n = VS_SIZE v p"
    by (auto simp: vmem_walk_def live_def type_code_free simp del: type_code.simps)
  have g: "root.good {} w v" using assms(1) by (simp add: root_ok_good)
  have sz: "sz \<le> VS_SIZE v p" using assms(7) p(2) by simp
  from root_plain_served [OF g assms(2-4) p(1) sz, of fl] obtain a w' v' where
    a: "vmem_xalloc 1 root_env (plain_req v sz fl) w v = Some (Inr (a, w', v'))" "a \<noteq> 0" "root.alloc_post {} (plain_req v sz fl) v a w' v'" by blast
  have "rq_size (plain_req v sz fl) = sz" by (simp add: plain_req_def)
  then show ?thesis using a assms(5) by (auto simp: vmem_alloc_def root.alloc_post_def root_ok_good)
qed

theorem vmem_alloc_served_witness:
  "\<exists>w v. vm_allocs v = {} \<and> (\<exists>a w' v'. vmem_alloc 1 root_env 0x3000 VM_NOSLEEP w v = Some (Inr (a, w', v')) \<and> a \<noteq> 0 \<and>
     vm_allocs v' = {(a, 0x3000)})"
proof -
  from demo_ready obtain w v where d: "root_ok w v" "4 \<le> vm_nsegfree v + vm_nsegfree w" "vm_quantum v = 0x1000" "vm_qcache_max v = 0"
    "vm_allocs v = {}" "(0x1000, 0x8000) \<in> set (vmem_walk (type_code VMEM_FREE) v)" by blast
  from vmem_alloc_served [OF d(1,2), of "0x3000" "0x1000" "0x8000" VM_NOSLEEP] d(3-6) show ?thesis
    by (simp del: type_code.simps) blast
qed

text \<open>
  C13: allocating and freeing again restores the set of allocated blocks and the count of bytes in
  use, and both calls succeed whenever a free segment is large enough.
\<close>

theorem vmem_alloc_free_roundtrip:
  assumes "root_ok w v" "4 \<le> vm_nsegfree v + vm_nsegfree w" "sz \<noteq> 0" "unat sz + unat (vm_quantum v) \<le> 2 ^ 64"
    "(start, n) \<in> set (vmem_walk (type_code VMEM_FREE) v)" "sz \<le> n"
  shows "\<exists>a w' v' w'' v''. vmem_xalloc 1 root_env (plain_req v sz fl) w v = Some (Inr (a, w', v')) \<and> a \<noteq> 0 \<and>
     vmem_xfree root_env a sz w' v' = Inr (w'', v'') \<and> root_ok w'' v'' \<and>
     vm_allocs v'' = vm_allocs v \<and> vk_mem_inuse (vm_kstat v'') = vk_mem_inuse (vm_kstat v)"
proof -
  from assms(5) obtain p where p: "p \<in> live v {} VMEM_FREE" "n = VS_SIZE v p"
    by (auto simp: vmem_walk_def live_def type_code_free simp del: type_code.simps)
  have g: "root.good {} w v" using assms(1) by (simp add: root_ok_good)
  have sz: "sz \<le> VS_SIZE v p" using assms(6) p(2) by simp
  from root_plain_served [OF g assms(2-4) p(1) sz, of fl] obtain a w' v' where
    a: "vmem_xalloc 1 root_env (plain_req v sz fl) w v = Some (Inr (a, w', v'))" "a \<noteq> 0" "root.alloc_post {} (plain_req v sz fl) v a w' v'" by blast
  have "rq_size (plain_req v sz fl) = sz" by (simp add: plain_req_def)
  then have al: "vm_allocs v' = insert (a, sz) (vm_allocs v)" "(a, sz) \<notin> vm_allocs v" "root.good {} w' v'"
    using a(2,3) by (auto simp: root.alloc_post_def)
  have "(a, sz) \<in> vm_allocs v'" using al(1) by simp
  from root.vmem_xfree_post [OF al(3) this] obtain w'' v'' where
    f: "vmem_xfree root_env a sz w' v' = Inr (w'', v'')" "root.good {} w'' v''" "vm_allocs v'' = vm_allocs v' - {(a, sz)}"
    by (auto simp: root_env_def)
  have e: "vm_allocs v'' = vm_allocs v" using f(3) al(1,2) by simp
  have inv: "vmem_inv v" "vmem_inv v''" using g f(2) by (simp_all add: root_good)
  have "vk_mem_inuse (vm_kstat v'') = vk_mem_inuse (vm_kstat v)"
    unfolding inuse_allocs [OF inv(1)] inuse_allocs [OF inv(2)] e ..
  then show ?thesis using a(1,2) f(1,2) e by (simp only: root_ok_good) blast
qed

theorem vmem_alloc_free_roundtrip_witness:
  "\<exists>w v. vm_allocs v = {} \<and> (\<exists>a w' v' w'' v''. vmem_xalloc 1 root_env (plain_req v 0x3000 VM_NOSLEEP) w v = Some (Inr (a, w', v')) \<and>
     vmem_xfree root_env a 0x3000 w' v' = Inr (w'', v'') \<and> vm_allocs v'' = {})"
proof -
  from demo_ready obtain w v where d: "root_ok w v" "4 \<le> vm_nsegfree v + vm_nsegfree w" "vm_quantum v = 0x1000" "vm_qcache_max v = 0"
    "vm_allocs v = {}" "(0x1000, 0x8000) \<in> set (vmem_walk (type_code VMEM_FREE) v)" by blast
  from vmem_alloc_free_roundtrip [OF d(1,2), of "0x3000" "0x1000" "0x8000" VM_NOSLEEP] d(3,5,6) show ?thesis
    by (simp del: type_code.simps) blast
qed

subsection \<open>Arenas\<close>

text \<open>
  C16: \<open>vmem_create()\<close> with an initial span gives a consistent arena whose only span is that one,
  with nothing allocated and the whole span free.
\<close>

theorem vmem_create_correct:
  assumes "pool_good {} w" "2 \<le> vm_nsegfree w" "k < 64" "base \<noteq> 0" "sz \<noteq> 0" "unat base + unat sz \<le> 2 ^ 64"
    "2 ^ k dvd unat base" "2 ^ k dvd unat sz"
  shows "\<exists>w' v. vmem_create root_env True base sz (2 ^ k) qc fl w = Inr (Some v, w') \<and> root_ok w' v \<and>
     vm_span_set v = {(base, sz)} \<and> vm_allocs v = {} \<and> (base, sz) \<in> set (vmem_walk (type_code VMEM_FREE) v)"
proof -
  from vmem_create_root [OF assms, of qc fl] obtain w' v p where c: "vmem_create root_env True base sz (2 ^ k) qc fl w = Inr (Some v, w')"
    "root.good {} w' v" "vm_span_set v = {(base, sz)}" "vm_allocs v = {}" "p \<in> live v {} VMEM_FREE"
    "vm_seg v p = \<lparr>vs_start = base, vs_end = base + sz, vs_type = VMEM_FREE, vs_import = False\<rparr>" by blast
  have "(base, sz) = (vs_start (vm_seg v p), VS_SIZE v p)" using c(6) by (simp add: VS_SIZE_def seg_size_def)
  moreover have "p \<in> set (filter (\<lambda>p. type_code (vs_type (vm_seg v p)) AND type_code VMEM_FREE \<noteq> 0) (vm_arena v))"
    using c(5) by (simp add: live_def)
  ultimately have "(base, sz) \<in> set (vmem_walk (type_code VMEM_FREE) v)" unfolding vmem_walk_def by force
  then show ?thesis using c(1-4) by (simp only: root_ok_good) blast
qed

theorem vmem_create_correct_witness:
  "\<exists>w' v. vmem_create root_env True 0x1000 0x8000 (2 ^ 12) 0 VM_NOSLEEP demo_pool = Inr (Some v, w') \<and> root_ok w' v \<and>
     (0x1000, 0x8000) \<in> set (vmem_walk (type_code VMEM_FREE) v)"
  using vmem_create_correct [OF demo_pool_good(1), of 12 "0x1000" "0x8000" 0 VM_NOSLEEP] demo_pool_good(2)
  by (simp del: type_code.simps) blast

text \<open>
  C15: \<open>vmem_hash_rescale()\<close> leaves the segments of the arena and its freelists alone, keeps the arena
  consistent (so that every allocated block is still found by the hash lookup), and when its new
  table can be had, bounds the mean length of a hash chain by 8/3.
\<close>

theorem vmem_hash_rescale_correct:
  assumes "arena_ok v" "card (live v {} VMEM_ALLOC) < 2 ^ 30"
  shows "\<exists>v'. vmem_hash_rescale avail v = Some v' \<and> vmem_inv v' \<and> segs v' = segs v \<and> vm_freelist v' = vm_freelist v \<and>
     (avail \<longrightarrow> 3 * card (vm_allocs v') < 8 * length (vm_hash_table v'))"
  using vmem_hash_rescale_ok [OF _ assms(2)] assms(1) by (simp add: arena_ok_def)

theorem vmem_hash_rescale_correct_witness:
  "\<exists>v. vm_allocs v = {(0x1000, 0x2000)} \<and> (\<exists>v'. vmem_hash_rescale True v = Some v' \<and> vmem_inv v' \<and> segs v' = segs v)"
proof -
  from demo_importing obtain w v where d: "importing_ok 12 w v" "vm_allocs v = {(0x1000, 0x2000)}" by blast
  have ok: "arena_ok v" using d(1) by (simp add: importing_ok_def)
  then have "card (live v {} VMEM_ALLOC) = 1"
    using d(2) allocs_card [of v] by (simp add: arena_ok_def)
  then have "card (live v {} VMEM_ALLOC) < 2 ^ 30" by simp
  from vmem_hash_rescale_correct [OF ok this, of True] d(2) show ?thesis by blast
qed

text \<open>
  C14: the accounts of an arena do not wrap: \<open>vmem_size()\<close> of the allocated segments is the sum of the
  sizes that \<open>vmem_walk()\<close> reports for them, and with the free ones it is the sum of the spans, which
  bounds it.
\<close>

theorem vmem_size_correct:
  assumes "arena_ok v"
  shows "unat (vmem_size (type_code VMEM_ALLOC) v) = sum_list (map (unat \<circ> snd) (vmem_walk (type_code VMEM_ALLOC) v)) \<and>
     unat (vmem_size (type_code VMEM_ALLOC OR type_code VMEM_FREE) v) = sum_list (map (unat \<circ> snd) (vmem_walk (type_code VMEM_SPAN) v)) \<and>
     vmem_size (type_code VMEM_ALLOC) v \<le> vmem_size (type_code VMEM_ALLOC OR type_code VMEM_FREE) v"
proof (intro conjI)
  have inv: "vmem_inv v" using assms by (simp add: arena_ok_def)
  have w: "map (unat \<circ> snd) (vmem_walk (type_code t) v) = map (\<lambda>s. unat (seg_size s)) (filter (\<lambda>s. vs_type s = t) (segs v))" for t
    by (simp add: vmem_walk_def segs_def filter_map comp_def VS_SIZE_def type_code_same del: type_code.simps)
  have s: "vmem_size (type_code VMEM_ALLOC) v = vk_mem_inuse (vm_kstat v)"
    "vmem_size (type_code VMEM_ALLOC OR type_code VMEM_FREE) v = vk_mem_total (vm_kstat v)" by (simp_all add: vmem_size_def)
  show "unat (vmem_size (type_code VMEM_ALLOC) v) = sum_list (map (unat \<circ> snd) (vmem_walk (type_code VMEM_ALLOC) v))"
    unfolding w s by (rule vmem_accounts(1) [OF inv])
  show "unat (vmem_size (type_code VMEM_ALLOC OR type_code VMEM_FREE) v) = sum_list (map (unat \<circ> snd) (vmem_walk (type_code VMEM_SPAN) v))"
    unfolding w s by (rule vmem_accounts(2) [OF inv])
  show "vmem_size (type_code VMEM_ALLOC) v \<le> vmem_size (type_code VMEM_ALLOC OR type_code VMEM_FREE) v"
    unfolding s by (rule vmem_accounts(3) [OF inv])
qed

theorem vmem_size_correct_witness:
  "\<exists>v. vm_allocs v = {(0x1000, 0x2000)} \<and>
     unat (vmem_size (type_code VMEM_ALLOC) v) = sum_list (map (unat \<circ> snd) (vmem_walk (type_code VMEM_ALLOC) v))"
proof -
  from demo_importing obtain w v where d: "importing_ok 12 w v" "vm_allocs v = {(0x1000, 0x2000)}" by blast
  then have "arena_ok v" by (simp add: importing_ok_def)
  from vmem_size_correct [OF this] d(2) show ?thesis by blast
qed

text \<open>
  C17: \<open>vmem_contains()\<close> says whether a block lies inside a single span of the arena, and changes
  nothing but its statistics.
\<close>

theorem vmem_contains_correct:
  assumes "arena_ok v" "sz \<noteq> 0" "unat a + unat sz \<le> 2 ^ 64"
  shows "(fst (vmem_contains a sz v) \<longleftrightarrow> (\<exists>s \<in> vm_span_set v. block (a, sz) \<subseteq> block s)) \<and>
    arena_ok (snd (vmem_contains a sz v))"
proof
  have inv: "vmem_inv v" using assms(1) by (simp add: arena_ok_def)
  have "fst (vmem_contains a sz v) \<longleftrightarrow> (\<exists>p \<in> set (vm_spans v). vs_start (vm_seg v p) \<le> a \<and> a + sz - 1 \<le> vs_end (vm_seg v p) - 1)"
    using contains_loop_iff [of v a "a + sz" "vm_spans v" 0]
    by (cases "contains_loop v a (a + sz) (vm_spans v) 0") (simp add: vmem_contains_def)
  also have "\<dots> \<longleftrightarrow> (\<exists>p \<in> set (vm_spans v). block (a, sz) \<subseteq> block (vs_start (vm_seg v p), seg_size (vm_seg v p)))"
  proof (rule bex_cong [OF refl])
    fix p assume "p \<in> set (vm_spans v)"
    then have p: "p \<in> set (vm_arena v)" using inv_parts(5) [OF inv] by simp
    show "(vs_start (vm_seg v p) \<le> a \<and> a + sz - 1 \<le> vs_end (vm_seg v p) - 1) =
        (block (a, sz) \<subseteq> block (vs_start (vm_seg v p), seg_size (vm_seg v p)))"
      using in_span_iff [OF inv_seg(1) [OF inv p] assms(2,3)] rng_block [OF inv_seg(1,2) [OF inv p]] by simp
  qed
  also have "\<dots> \<longleftrightarrow> (\<exists>s \<in> vm_span_set v. block (a, sz) \<subseteq> block s)"
    using inv_parts(5) [OF inv] by (auto simp: vm_span_set_def segs_def)
  finally show "fst (vmem_contains a sz v) \<longleftrightarrow> (\<exists>s \<in> vm_span_set v. block (a, sz) \<subseteq> block s)" .
  show "arena_ok (snd (vmem_contains a sz v))"
    using assms(1) by (cases "contains_loop v a (a + sz) (vm_spans v) 0") (simp add: vmem_contains_def arena_ok_def inv_contains)
qed

theorem vmem_contains_correct_witness:
  "\<exists>v. vm_span_set v = {(0x1000, 0x8000)} \<and> fst (vmem_contains 0x2000 0x1000 v)"
proof -
  from demo_root obtain w v where d: "root_ok w v" "vm_span_set v = {(0x1000, 0x8000)}" by blast
  then have "arena_ok v" by (simp add: root_ok_def)
  from vmem_contains_correct [OF this, of "0x1000" "0x2000"] d(2) have "fst (vmem_contains 0x2000 0x1000 v)"
    by (simp add: block_def ivl_subset)
  with d(2) show ?thesis by blast
qed

subsection \<open>Sequences of operations\<close>

text \<open>
  The states of a root arena and of the pool of segment structures that calls of the arena's
  operations lead to; a call that panics leads nowhere.
\<close>

inductive root_reach :: "vmem \<Rightarrow> vmem \<Rightarrow> bool" where
  create: "\<lbrakk>pool_good {} w; k < 64; vmem_create root_env avail 0 0 (2 ^ k) qc fl w = Inr (Some v, w')\<rbrakk> \<Longrightarrow> root_reach w' v"
| add: "\<lbrakk>root_reach w v; fresh_block (vm_span_set v) (base, sz); vmem_add root_env base sz fl w v = Inr (a, w', v')\<rbrakk> \<Longrightarrow> root_reach w' v'"
| alloc: "\<lbrakk>root_reach w v; req_ok r; vmem_xalloc fuel root_env r w v = Some (Inr (a, w', v'))\<rbrakk> \<Longrightarrow> root_reach w' v'"
| free: "\<lbrakk>root_reach w v; vmem_xfree root_env a sz w v = Inr (w', v')\<rbrakk> \<Longrightarrow> root_reach w' v'"
| rescale: "\<lbrakk>root_reach w v; vmem_hash_rescale avail v = Some v'\<rbrakk> \<Longrightarrow> root_reach w v'"

inductive_cases root_reachE: "root_reach w v"

lemma rescale_root_ok:
  assumes ok: "root_ok w v" and r: "vmem_hash_rescale avail v = Some v'"
  shows "root_ok w v'"
proof -
  from r obtain new where new: "hash_new_size v = Some new" by (auto simp: vmem_hash_rescale_def split: option.splits)
  then have "word_of_nat VMEM_HASH_INITIAL \<le> new" by (auto simp: hash_new_size_def Let_def split: if_splits)
  then have nz: "new \<noteq> 0" by (auto simp: VMEM_HASH_INITIAL_def)
  have inv: "vmem_inv v" using ok by (simp add: root_ok_def arena_ok_def)
  define v1 where "v1 = v\<lparr>vm_hash_mask := new - 1, vm_hash_shift := highbit (new - 1)\<rparr>"
  define v2 where "v2 = v1\<lparr>vm_hash_table := fold (rehash_one v1) (concat (vm_hash_table v)) (replicate (unat new) [])\<rparr>"
  have "links v2 {}" using rescaled_links [OF inv_parts(1) [OF inv] nz] by (simp add: v1_def v2_def)
  then have "vmem_inv v2"
    using inv by (simp add: vmem_inv_def quantum_ok_def layout_ok_def segs_def totals_ok_def v2_def v1_def)
  then have "root_ok w v2" using ok by (simp add: root_ok_def arena_ok_def seg_ids_def v2_def v1_def)
  moreover have "v' = v \<or> v' = v2"
    using r new unfolding vmem_hash_rescale_def v2_def v1_def Let_def by (simp split: if_splits)
  ultimately show ?thesis using ok by auto
qed

lemma dvd_unat_diff:
  assumes "k < 64" "2 ^ k dvd unat (a :: ulong)" "2 ^ k dvd unat (a + b)"
  shows "2 ^ k dvd unat b"
proof -
  have "(2::nat) ^ k dvd 2 ^ 64" using assms(1) by (intro le_imp_power_dvd) simp
  then have "2 ^ k dvd unat a + unat b" using assms(3) by (simp add: unat_word_ariths dvd_mod_iff)
  then show ?thesis using assms(2) by (simp add: dvd_add_right_iff)
qed

lemma span_create_aligned:
  assumes "vmem_inv v" "vmem_span_create base sz import v = Inr x"
  shows "2 ^ vm_qshift v dvd unat base" "2 ^ vm_qshift v dvd unat sz"
proof -
  have q: "vm_quantum v = 2 ^ vm_qshift v" "vm_qshift v < 64" using inv_parts(2) [OF assms(1)] by (auto simp: quantum_ok_def)
  have "(base OR (base + sz)) AND (vm_quantum v - 1) = 0"
    using assms(2) by (auto simp: vmem_span_create_def Let_def split: if_splits)
  then show "2 ^ vm_qshift v dvd unat base" "2 ^ vm_qshift v dvd unat sz"
    using quantum_mask_or [OF q(2)] dvd_unat_diff [OF q(2)] unfolding q(1) by auto
qed

lemma add_root_ok:
  assumes ok: "root_ok w v" and f: "fresh_block (vm_span_set v) (base, sz)" and r: "vmem_add root_env base sz fl w v = Inr (a, w', v')"
  shows "root_ok w' v'"
proof -
  have gv: "vmem_inv v" "0 \<le> vm_nsegfree v" "0 \<le> seg_reserve v" "pool_good (seg_ids v \<union> {}) w"
    using ok by (simp_all add: root_ok_good root_good)
  from vmem_populate_ok [of "\<lambda>w. w" "\<lambda>s _. s" "\<lambda>_. ()" v "{}" w 2 "Suc 2" fl] gv obtain ok w1 v1 where
    p: "vmem_populate (Suc 2) (\<lambda>w. w) (\<lambda>s _. s) (\<lambda>_ _. None) 2 fl w v = Some (Inr (ok, w1, v1))" "vmem_inv v1"
      "pool_good (seg_ids v1) w1" "vm_span_set v1 = vm_span_set v" "seg_reserve v1 = seg_reserve v"
      "vm_nsegfree v \<le> vm_nsegfree v1" "ok \<longrightarrow> 2 \<le> vm_nsegfree v1" by auto
  have pop: "ve_populate root_env 2 fl w v = Inr (ok, w1, v1)" using p(1) by (simp add: root_env_def del: vmem_populate.simps)
  show ?thesis
  proof (cases ok)
    case False
    then show ?thesis using r pop p gv by (auto simp: vmem_add_def root_ok_good root_good split: if_splits)
  next
    case True
    then obtain x where x: "vmem_span_create base sz False v1 = Inr (x, v')" "w' = w1"
      using r pop by (cases "vmem_span_create base sz False v1") (auto simp: vmem_add_def split: if_splits)
    obtain b1 b2 bs where sf: "vm_segfree v1 = b1 # b2 # bs" using root.segfree_two [OF refl, of v1] True gv(3) p(5,7) by auto
    have "fresh_block (vm_span_set v1) (base, sz)" using f p(4) by simp
    from vmem_span_create_ok [OF p(2) sf this span_create_aligned [OF p(2) x(1)], of False] x(1)
    have c: "vmem_inv v'" "vm_segfree v' = bs" "seg_reserve v' = seg_reserve v1" "seg_ids v' = seg_ids v1" by auto
    then have "0 \<le> vm_nsegfree v'" using sf p(7) True by (simp add: seg_reserve_def)
    then show ?thesis using c p(3,5) gv(3) x(2) by (simp add: root_ok_good root_good)
  qed
qed

lemma allocs_in_spans:
  assumes inv: "vmem_inv v" and b: "b \<in> vm_allocs v"
  shows "\<exists>s \<in> vm_span_set v. block b \<subseteq> block s"
proof -
  from b obtain s where s: "s \<in> set (segs v)" "is_alloc s" "b = (vs_start s, seg_size s)" by (auto simp: vm_allocs_def seg_allocs_def)
  have t: "tiles_from (2 ^ vm_qshift v) (0, 0, False, False) (segs v)" using inv_parts(3) [OF inv] by (simp add: tiles_def)
  have ne: "lo x < hi x \<and> vs_start x \<noteq> 0" if "x \<in> set (segs v)" for x
    using that inv_seg(1,2) [OF inv] by (auto simp: segs_def)
  have "rng s \<noteq> {}" using ne [OF s(1)] by (simp add: rng_def)
  with tiles_inside [OF t s(1)] s(2) obtain m where m: "m \<in> set (segs v)" "is_span m" "rng s \<subseteq> rng m" by fastforce
  then have "block b \<subseteq> block (vs_start m, seg_size m)"
    using rng_block [of s] rng_block [of m] ne s(1,3) by metis
  then show ?thesis using m by (auto simp: vm_span_set_def)
qed

lemma frees_apart:
  assumes inv: "vmem_inv v" and i: "Suc i < length (vm_arena v)"
  shows "\<not> (is_free (segs v ! i) \<and> is_free (segs v ! Suc i))"
proof
  assume f: "is_free (segs v ! i) \<and> is_free (segs v ! Suc i)"
  let ?q = "2 ^ vm_qshift v" and ?xs = "take (Suc i) (segs v)"
  have l: "Suc i < length (segs v)" using i by (simp add: segs_def)
  have "tiles_from ?q st0 (?xs @ segs v ! Suc i # drop (Suc (Suc i)) (segs v))"
    using inv_parts(3) [OF inv] l by (simp add: tiles_def id_take_nth_drop [symmetric])
  then obtain c e pf fs where t: "trun ?q st0 ?xs = Some (c, e, pf, fs)" "\<not> pf" using f by (auto simp: tiles_at)
  have "last ?xs = segs v ! i" using l by (simp add: take_Suc_conv_app_nth)
  then show False using trun_last(1) [OF t(1)] t(2) f l by auto
qed

lemma alloc_root_ok:
  assumes ok: "root_ok w v" and f: "req_ok r" and r: "vmem_xalloc fuel root_env r w v = Some (Inr (a, w', v'))"
  shows "root_ok w' v'"
proof -
  have c: "xalloc_check r v = None" using r by (auto simp: vmem_xalloc_def split: option.splits)
  have im: "import_ok root_env r v" by (simp add: import_ok_def root_env_def)
  have "root.good {} w v" using ok by (simp add: root_ok_good)
  from root.xalloc_loop_ok [OF this f c im, of fuel False] have "root.alloc_post {} r v a w' v'"
    using r c by (simp add: vmem_xalloc_def)
  then show ?thesis by (simp add: root_ok_good root.alloc_post_def)
qed

lemma free_root_ok:
  assumes ok: "root_ok w v" and r: "vmem_xfree root_env a sz w v = Inr (w', v')"
  shows "root_ok w' v'"
proof -
  have g: "root.good {} w v" using ok by (simp add: root_ok_good)
  then have inv: "vmem_inv v" by (simp add: root_good)
  have "(a, sz) \<in> vm_allocs v" using bad_free_panics [OF inv, of a sz root_env w] r by auto
  from root.vmem_xfree_post [OF g this] show ?thesis using r by (auto simp: root_ok_good)
qed

text \<open>
  C11: every sequence of creation, \<open>vmem_add()\<close>, allocations, frees and rescalings keeps the arena
  consistent: in every state that it reaches, allocated blocks are pairwise disjoint, each one lies
  inside a span, and no two free segments of a span touch.
\<close>

theorem root_reach_consistent:
  assumes "root_reach w v"
  shows "root_ok w v \<and> (\<forall>b \<in> vm_allocs v. \<forall>c \<in> vm_allocs v. b \<noteq> c \<longrightarrow> block b \<inter> block c = {}) \<and>
     (\<forall>b \<in> vm_allocs v. \<exists>s \<in> vm_span_set v. block b \<subseteq> block s) \<and>
     (\<forall>i. Suc i < length (vm_arena v) \<longrightarrow>
        \<not> (vs_type (vm_seg v (vm_arena v ! i)) = VMEM_FREE \<and> vs_type (vm_seg v (vm_arena v ! Suc i)) = VMEM_FREE))"
proof -
  from assms have ok: "root_ok w v"
  proof (induction rule: root_reach.induct)
    case (create w k avail qc fl v w')
    have "v = vmem_init_arena (2 ^ k) qc" "w' = w"
      using create(3) unfolding vmem_create_def Let_def by (simp_all split: if_splits)
    then show ?case using init_arena_inv [OF create(2), of qc] create(1) by (simp add: root_ok_good root_good)
  qed (blast intro: add_root_ok alloc_root_ok free_root_ok rescale_root_ok)+
  then have inv: "vmem_inv v" by (simp add: root_ok_def arena_ok_def)
  have "\<not> (vs_type (vm_seg v (vm_arena v ! i)) = VMEM_FREE \<and> vs_type (vm_seg v (vm_arena v ! Suc i)) = VMEM_FREE)"
    if "Suc i < length (vm_arena v)" for i using frees_apart [OF inv that] that by (simp add: segs_def)
  then show ?thesis using ok allocs_apart [OF inv] allocs_in_spans [OF inv] by blast
qed

theorem root_reach_consistent_witness:
  "\<exists>w v a. root_reach w v \<and> root_ok w v \<and> vm_allocs v = {(a, 0x3000)} \<and> (\<exists>s \<in> vm_span_set v. block (a, 0x3000) \<subseteq> block s)"
proof -
  let ?i = "vmem_init_arena 0x1000 0"
  have "root_reach demo_pool (vmem_init_arena (2 ^ 12) 0)"
    by (rule root_reach.create [OF demo_pool_good(1), of 12 True 0 0]) (simp_all add: vmem_create_def)
  then have i: "root_reach demo_pool ?i" by simp
  have "(12::nat) < 64" by simp
  from init_arena_inv(3) [OF this, of 0] have f: "fresh_block (vm_span_set ?i) (0x1000, 0x8000)" by (simp add: fresh_block_def)
  from demo_root obtain w v p where d: "vmem_create root_env True 0x1000 0x8000 0x1000 0 VM_NOSLEEP demo_pool = Inr (Some v, w)" "root_ok w v"
    "vm_quantum v = 0x1000" "vm_allocs v = {}" "p \<in> live v {} VMEM_FREE"
    "vm_seg v p = \<lparr>vs_start = 0x1000, vs_end = 0x9000, vs_type = VMEM_FREE, vs_import = False\<rparr>" by blast
  obtain a where "vmem_add root_env 0x1000 0x8000 VM_NOSLEEP demo_pool ?i = Inr (a, w, v)"
    using d(1) by (auto simp: vmem_create_def vbind_def split: sum.splits if_splits)
  then have v: "root_reach w v" by (rule root_reach.add [OF i f])
  have g: "root.good {} w v" using d(2) by (simp add: root_ok_good)
  have n: "4 \<le> vm_nsegfree v + vm_nsegfree w" using demo_counts d(1) by (simp split: sum.splits)
  have z: "(0x3000 :: ulong) \<noteq> 0" "unat (0x3000 :: ulong) + unat (vm_quantum v) \<le> 2 ^ 64" using d(3) by simp_all
  have "0x3000 \<le> VS_SIZE v p" using d(6) by (simp add: VS_SIZE_def seg_size_def)
  from root_plain_served [OF g n z d(5) this, of VM_NOSLEEP] obtain b w' v' where
    b: "vmem_xalloc 1 root_env (plain_req v 0x3000 VM_NOSLEEP) w v = Some (Inr (b, w', v'))" "b \<noteq> 0"
    "root.alloc_post {} (plain_req v 0x3000 VM_NOSLEEP) v b w' v'" by blast
  have "vmem_inv v" using g by (simp add: root_good)
  note rq = plain_req_ok(1) [OF inv_parts(2) [OF this] z, of VM_NOSLEEP]
  have "vm_allocs v' = {(b, 0x3000)}" using b(2,3) d(4) by (simp add: root.alloc_post_def plain_req_def)
  with root_reach_consistent [OF root_reach.alloc [OF v rq b(1)]] root_reach.alloc [OF v rq b(1)] show ?thesis by blast
qed

text \<open>
  C20: \<open>vmem_destroy()\<close> gives back the segment structures of the arena's pool only. The structures of
  the segments on its arena list (span markers, allocated and free segments) do not return to
  \<open>vmem_seg_arena\<close>: they are lost when the arena is released.
\<close>

theorem vmem_destroy_leaks:
  assumes "arena_ok v" "set (vm_segfree smp) \<inter> seg_ids v = {}"
  shows "\<exists>smp'. vmem_destroy v smp = Inr (vmem_size (type_code VMEM_ALLOC) v, smp') \<and>
     set (vm_segfree smp') \<inter> set (vm_arena v) = {} \<and> set (vm_segfree smp') \<subseteq> set (vm_segfree smp) \<union> set (vm_segfree v)"
proof -
  have v: "0 \<le> vm_nsegfree v" "vm_nsegfree v \<le> int (length (vm_segfree v))" "links v {}"
    using assms(1) inv_parts(1) by (auto simp: arena_ok_def)
  from return_segs_ok [OF v(1,2), of smp] obtain v' smp' where
    r: "return_segs v smp = Inr (v', smp')" "vm_segfree smp' = rev (take (nat (vm_nsegfree v)) (vm_segfree v)) @ vm_segfree smp" by blast
  have sub: "set (vm_segfree smp') \<subseteq> set (vm_segfree smp) \<union> set (vm_segfree v)" using r(2) by (auto dest: in_set_takeD)
  have "set (vm_arena v) \<inter> set (vm_segfree v) = {}" using v(3) by (auto simp: links_def pool_ok_def)
  then have "set (vm_segfree smp') \<inter> set (vm_arena v) = {}" using sub assms(2) by (auto simp: seg_ids_def)
  then show ?thesis using r(1) sub by (simp add: vmem_destroy_def)
qed

theorem vmem_destroy_leaks_witness:
  "\<exists>v smp'. vm_span_set v = {(0x1000, 0x8000)} \<and> vmem_destroy v (vmem_init_arena 1 0) = Inr (vmem_size (type_code VMEM_ALLOC) v, smp') \<and>
     set (vm_segfree smp') \<inter> set (vm_arena v) = {}"
proof -
  from demo_root obtain w v where d: "root_ok w v" "vm_span_set v = {(0x1000, 0x8000)}" by blast
  then have ok: "arena_ok v" by (simp add: root_ok_def)
  have "set (vm_segfree (vmem_init_arena 1 0)) \<inter> seg_ids v = {}" by (simp add: vmem_init_arena_def Let_def)
  from vmem_destroy_leaks [OF ok this] d(2) show ?thesis by blast
qed

text \<open>
  C19: an import can panic. When the alignment of a request exceeds the quantum of the source, the
  size that \<open>vmem_xalloc()\<close> imports is rounded up but leaves no room to align the address: on an
  arena in a consistent state, an admissible request of two pages aligned on two pages ends in the
  panic of \<open>vmem_seg_alloc()\<close>.
\<close>

theorem vmem_import_panic:
  "\<exists>w v. importing_ok 12 w v \<and> req_ok demo_aligned \<and> xalloc_check demo_aligned v = None \<and>
     vmem_xalloc 1 (child_env 12) demo_aligned w v = Some (Inl VmBadArguments)"
proof -
  from demo_child obtain w v where c: "importing_ok 12 w v" "vm_quantum v = 0x1000" "v = vmem_init_arena 0x1000 0"
    "vmem_create root_env True 0x1000 0x8000 0x1000 0 VM_NOSLEEP demo_pool = Inr (Some (snd w), fst w)" by blast
  have "demo_import demo_aligned = vmem_xalloc 1 (child_env 12) demo_aligned w v"
    using c(3,4) by (simp add: demo_import_def del: One_nat_def)
  then have "vmem_xalloc 1 (child_env 12) demo_aligned w v = Some (Inl VmBadArguments)"
    using demo_import_panics by (auto split: option.splits sum.splits)
  moreover have "req_ok demo_aligned"
    by (auto simp: req_ok_def demo_aligned_def hi_of_alt intro!: exI [of _ 13])
  moreover have "xalloc_check demo_aligned v = None" using c(2) by (simp add: xalloc_check_def demo_aligned_def)
  ultimately show ?thesis using c(1) by blast
qed

end
