(* ===== verification/Interval_Lists.thy ===== *)
theory Interval_Lists
  imports Kernel_Prelude
begin

section \<open>Sorted lists of intervals\<close>

text \<open>
  Several kernel lists keep a set of numbers as a sorted list of runs: the memory lists of
  \<open>memlist_new.c\<close> and the node identifiers of \<open>ddi_nodeid.c\<close>. A run is a pair of its start and its
  length; \<open>runs g lo xs\<close> says that the runs of \<open>xs\<close> are not empty, start at \<open>lo\<close> at the earliest, and
  that at least \<open>g\<close> numbers are left out between one run and the next. With \<open>g = 1\<close> the list is
  coalesced: it is the only such list for its set.
\<close>

subsection \<open>Runs and the set they cover\<close>

fun runs :: "nat \<Rightarrow> nat \<Rightarrow> (nat \<times> nat) list \<Rightarrow> bool" where
  "runs g lo [] \<longleftrightarrow> True"
| "runs g lo ((a, n) # xs) \<longleftrightarrow> lo \<le> a \<and> 0 < n \<and> runs g (a + n + g) xs"

definition run :: "nat \<times> nat \<Rightarrow> nat set" where
  "run p = {fst p ..< fst p + snd p}"

definition cover :: "(nat \<times> nat) list \<Rightarrow> nat set" where
  "cover xs = (\<Union>p \<in> set xs. run p)"

lemma cover_simps [simp]: "cover [] = {}" "cover (p # xs) = run p \<union> cover xs" "cover (xs @ ys) = cover xs \<union> cover ys"
  by (auto simp: cover_def)

lemma run_mem [simp]: "x \<in> run (a, n) \<longleftrightarrow> a \<le> x \<and> x < a + n"
  by (auto simp: run_def)

lemma runs_weaken: "runs g lo xs \<Longrightarrow> lo' \<le> lo \<Longrightarrow> runs g lo' xs"
  by (cases xs) auto

lemma runs_lower: "runs g lo xs \<Longrightarrow> x \<in> cover xs \<Longrightarrow> lo \<le> x"
  by (induction xs arbitrary: lo) force+

lemma runs_gap: "runs g lo xs \<Longrightarrow> g' \<le> g \<Longrightarrow> runs g' lo xs"
proof (induction xs arbitrary: lo)
  case (Cons p xs)
  then show ?case using runs_weaken [of g' "fst p + snd p + g" xs "fst p + snd p + g'"] by (cases p) auto
qed simp

text \<open>What lies before a run is not covered by it or by what follows.\<close>

lemma runs_below: "runs g lo xs \<Longrightarrow> x < lo \<Longrightarrow> x \<notin> cover xs"
  using runs_lower by fastforce

lemma runs_disjoint:
  assumes "runs g lo ((a, n) # xs)"
  shows "run (a, n) \<inter> cover xs = {}"
  using assms runs_lower [of g "a + n + g" xs] by fastforce

lemma runs_finite: "finite (cover xs)"
  by (simp add: cover_def run_def)

lemma runs_nonempty: "runs g lo (p # xs) \<Longrightarrow> fst p \<in> cover (p # xs)"
  by (cases p) simp

lemma runs_least:
  assumes "runs g lo ((a, n) # xs)"
  shows "Min (cover ((a, n) # xs)) = a"
proof (rule Min_eqI)
  show "finite (cover ((a, n) # xs))" by (rule runs_finite)
  show "a \<in> cover ((a, n) # xs)" using assms by simp
  show "a \<le> y" if "y \<in> cover ((a, n) # xs)" for y
    using that assms runs_lower [of g "a + n + g" xs y] by auto
qed

lemma runs_unique:
  assumes "runs 1 lo xs" "runs 1 lo ys" "cover xs = cover ys"
  shows "xs = ys"
  using assms
proof (induction xs arbitrary: lo ys)
  case Nil
  then show ?case using runs_nonempty by (cases ys) fastforce+
next
  case (Cons p xs)
  obtain a n where p: "p = (a, n)" by (cases p)
  obtain b m zs where ys: "ys = (b, m) # zs"
    using Cons.prems runs_nonempty [OF Cons.prems(1)] by (cases ys) (auto simp: p)
  have ab: "a = b" using runs_least [of 1 lo a n xs] runs_least [of 1 lo b m zs] Cons.prems p ys by simp
  have out: "a + n \<notin> cover ((a, n) # xs)" "b + m \<notin> cover ((b, m) # zs)"
    using runs_below [of 1 "a + n + 1" xs "a + n"] runs_below [of 1 "b + m + 1" zs "b + m"] Cons.prems p ys by auto
  have "\<not> n < m" "\<not> m < n" using out Cons.prems(3) p ys ab by auto
  then have nm: "n = m" by simp
  have d: "run (a, n) \<inter> cover xs = {}" "run (a, n) \<inter> cover zs = {}"
    using runs_disjoint [of 1 lo a n xs] runs_disjoint [of 1 lo b m zs] Cons.prems p ys ab nm by auto
  have "run (a, n) \<union> cover xs = run (a, n) \<union> cover zs" using Cons.prems(3) p ys ab nm by simp
  then have "cover xs = cover zs" using d by blast
  then show ?case using Cons.IH [of "a + n + 1" zs] Cons.prems p ys ab nm by simp
qed

subsection \<open>Adding and removing a run\<close>

fun add_run :: "nat \<Rightarrow> nat \<Rightarrow> (nat \<times> nat) list \<Rightarrow> (nat \<times> nat) list option" where
  "add_run a n [] = Some [(a, n)]"
| "add_run a n ((b, m) # xs) =
     (if a + n = b then Some ((a, n + m) # xs)
      else if a = b + m then
        (case xs of
           [] \<Rightarrow> Some [(b, m + n)]
         | (c, k) # ys \<Rightarrow>
             if c < a + n then None else if a + n = c then Some ((b, m + n + k) # ys) else Some ((b, m + n) # xs))
      else if a + n < b then Some ((a, n) # (b, m) # xs)
      else if a < b + m then None
      else map_option ((#) (b, m)) (add_run a n xs))"

fun del_run :: "nat \<Rightarrow> nat \<Rightarrow> (nat \<times> nat) list \<Rightarrow> (nat \<times> nat) list option" where
  "del_run a n [] = None"
| "del_run a n ((b, m) # xs) =
     (if b \<le> a \<and> a < b + m then
        (if b + m < a + n then None
         else if a = b then (if n = m then Some xs else Some ((b + n, m - n) # xs))
         else if a + n = b + m then Some ((b, m - n) # xs)
         else Some ((b, a - b) # (a + n, b + m - (a + n)) # xs))
      else map_option ((#) (b, m)) (del_run a n xs))"

lemma add_run_ok:
  assumes "runs 1 lo xs" "lo \<le> a" "0 < n" "run (a, n) \<inter> cover xs = {}"
  shows "\<exists>ys. add_run a n xs = Some ys \<and> runs 1 lo ys \<and> cover ys = run (a, n) \<union> cover xs"
  using assms
proof (induction xs arbitrary: lo)
  case (Cons p xs)
  obtain b m where p: "p = (b, m)" by (cases p)
  have r: "lo \<le> b" "0 < m" "runs 1 (b + m + 1) xs" using Cons.prems(1) p by auto
  have d: "x \<notin> cover ((b, m) # xs)" if "a \<le> x" "x < a + n" for x using Cons.prems(4) that p by auto
  have ab: "\<not> (b \<le> a \<and> a < b + m)" "\<not> (a \<le> b \<and> b < a + n)" using d [of a] d [of b] r(2) Cons.prems(3) by auto
  consider "a + n = b" | "a = b + m" | "a + n < b" | "b + m < a" using ab Cons.prems(3) r(2) by linarith
  then show ?case
  proof cases
    case 1
    then show ?thesis using p r Cons.prems(2,3) by (auto simp: run_def add.assoc)
  next
    case 2
    show ?thesis
    proof (cases xs)
      case Nil
      then show ?thesis using 2 p r Cons.prems(2,3) by (auto simp: run_def)
    next
      case (Cons q ys)
      obtain c k where q: "q = (c, k)" by (cases q)
      have c: "a \<le> c" "0 < k" "runs 1 (c + k + 1) ys" using r(3) Cons q 2 by auto
      have "\<not> c < a + n" using d [of c] c Cons q by auto
      then show ?thesis using 2 p q r c Cons Cons.prems(2,3) by (auto simp: run_def add.assoc)
    qed
  next
    case 3
    then show ?thesis using p r Cons.prems(2,3) by (auto simp: run_def)
  next
    case 4
    have "run (a, n) \<inter> cover xs = {}" using Cons.prems(4) p by auto
    with Cons.IH [OF r(3) _ Cons.prems(3)] 4 obtain ys where
      "add_run a n xs = Some ys" "runs 1 (b + m + 1) ys" "cover ys = run (a, n) \<union> cover xs" by auto
    then show ?thesis using 4 p r ab Cons.prems(3) by auto
  qed
qed (auto simp: run_def)

lemma add_run_overlap:
  assumes "runs 1 lo xs" "0 < n" "run (a, n) \<inter> cover xs \<noteq> {}"
  shows "add_run a n xs = None"
  using assms
proof (induction xs arbitrary: lo)
  case (Cons p xs)
  obtain b m where p: "p = (b, m)" by (cases p)
  have r: "lo \<le> b" "0 < m" "runs 1 (b + m + 1) xs" using Cons.prems(1) p by auto
  from Cons.prems(3) obtain x where "x \<in> run (a, n)" "x \<in> cover (p # xs)" by blast
  then have x: "a \<le> x" "x < a + n" "b \<le> x \<and> x < b + m \<or> x \<in> cover xs" using p by auto
  have low: "b + m < y" if "y \<in> cover xs" for y using runs_lower [OF r(3) that] by simp
  have n1: "a + n \<noteq> b" "\<not> a + n < b" using x low [of x] by auto
  show ?case
  proof (cases "a = b + m")
    case True
    then have xs: "x \<in> cover xs" using x by auto
    then obtain c k ys where q: "xs = (c, k) # ys" by (cases xs) auto
    have "c \<le> x" using runs_least [of 1 "b + m + 1" c k ys] r(3) xs q Min_le [OF runs_finite, of x xs] by simp
    then show ?thesis using p q True x by simp
  next
    case False
    show ?thesis
    proof (cases "a < b + m")
      case True
      then show ?thesis using p n1 False by simp
    next
      case nlt: False
      then have "run (a, n) \<inter> cover xs \<noteq> {}" using x by fastforce
      from Cons.IH [OF r(3) Cons.prems(2) this] show ?thesis using p n1 False nlt by simp
    qed
  qed
qed simp

lemma del_run_ok:
  assumes "runs 1 lo xs" "0 < n" "run (a, n) \<subseteq> cover xs"
  shows "\<exists>ys. del_run a n xs = Some ys \<and> runs 1 lo ys \<and> cover ys = cover xs - run (a, n)"
  using assms
proof (induction xs arbitrary: lo)
  case Nil
  then show ?case by (auto simp: run_def)
next
  case (Cons p xs)
  obtain b m where p: "p = (b, m)" by (cases p)
  have r: "lo \<le> b" "0 < m" "runs 1 (b + m + 1) xs" using Cons.prems(1) p by auto
  have low: "b + m < y" if "y \<in> cover xs" for y using runs_lower [OF r(3) that] by simp
  have sub: "x \<in> cover ((b, m) # xs)" if "a \<le> x" "x < a + n" for x using Cons.prems(3) that p by auto
  show ?case
  proof (cases "b \<le> a \<and> a < b + m")
    case True
    have "\<not> b + m < a + n" using sub [of "b + m"] low [of "b + m"] True by auto
    moreover have "y \<notin> cover xs" if "y \<le> b + m" for y using low that by force
    moreover have "runs 1 k xs" if "k \<le> b + m + 1" for k using runs_weaken [OF r(3) that] .
    ultimately show ?thesis using True p r Cons.prems(2) by (auto simp: run_def)
  next
    case False
    have "run (a, n) \<subseteq> cover xs"
    proof
      fix x assume x: "x \<in> run (a, n)"
      have "a \<in> cover xs" using sub [of a] False Cons.prems(2) by auto
      then have "b + m < a" by (rule low)
      then show "x \<in> cover xs" using sub [of x] x by auto
    qed
    from Cons.IH [OF r(3) Cons.prems(2) this] obtain ys where
      y: "del_run a n xs = Some ys" "runs 1 (b + m + 1) ys" "cover ys = cover xs - run (a, n)" by blast
    have "run (b, m) \<inter> run (a, n) = {}" using \<open>run (a, n) \<subseteq> cover xs\<close> low by fastforce
    then show ?thesis using y False p r by auto
  qed
qed

lemma del_run_missing:
  assumes "runs 1 lo xs" "0 < n" "\<not> run (a, n) \<subseteq> cover xs"
  shows "del_run a n xs = None"
  using assms
proof (induction xs arbitrary: lo)
  case (Cons p xs)
  obtain b m where p: "p = (b, m)" by (cases p)
  have r: "runs 1 (b + m + 1) xs" using Cons.prems(1) p by auto
  show ?case
  proof (cases "b \<le> a \<and> a < b + m")
    case True
    have "\<not> a + n \<le> b + m" using Cons.prems(3) p True by auto
    then show ?thesis using True p by simp
  next
    case False
    have "\<not> run (a, n) \<subseteq> cover xs" using Cons.prems(3) p by auto
    from Cons.IH [OF r Cons.prems(2) this] show ?thesis using False p by auto
  qed
qed simp

end
