(* ===== verification/Id_Pool.thy ===== *)
theory Id_Pool
  imports Kernel_Prelude
begin

section \<open>Pools of identifiers\<close>

text \<open>
  The contract of an allocator of identifiers: \<open>alloc\<close> hands out an identifier that is available and
  fails only when there is none, \<open>give\<close> makes an identifier available again and refuses one that
  already is. The lemmas on sequences of calls are proved once, for every allocator of the kernel
  that meets the contract.
\<close>

locale id_pool =
  fixes inv :: "'s \<Rightarrow> bool" and avail :: "'s \<Rightarrow> 'i set" and valid :: "'i \<Rightarrow> bool"
    and alloc :: "'s \<Rightarrow> ('i \<times> 's) option" and give :: "'i \<Rightarrow> 's \<Rightarrow> 's option"
  assumes alloc_some: "inv s \<Longrightarrow> alloc s = Some (i, s') \<Longrightarrow> inv s' \<and> i \<in> avail s \<and> avail s' = avail s - {i}"
    and alloc_none: "inv s \<Longrightarrow> alloc s = None \<longleftrightarrow> avail s = {}"
    and avail_valid: "inv s \<Longrightarrow> i \<in> avail s \<Longrightarrow> valid i"
    and give_some: "inv s \<Longrightarrow> valid i \<Longrightarrow> i \<notin> avail s \<Longrightarrow> \<exists>s'. give i s = Some s' \<and> inv s' \<and> avail s' = insert i (avail s)"
    and give_none: "inv s \<Longrightarrow> i \<in> avail s \<Longrightarrow> give i s = None"
begin

text \<open>The steps of the clients: the set holds the identifiers that are handed out.\<close>

inductive pool_step :: "'i set \<times> 's \<Rightarrow> 'i set \<times> 's \<Rightarrow> bool" where
  alloc_step: "alloc s = Some (i, s') \<Longrightarrow> pool_step (H, s) (insert i H, s')"
| give_step: "i \<in> H \<Longrightarrow> give i s = Some s' \<Longrightarrow> pool_step (H, s) (H - {i}, s')"

definition pool_ok :: "'i set \<times> 's \<Rightarrow> bool" where
  "pool_ok p \<longleftrightarrow> inv (snd p) \<and> fst p \<inter> avail (snd p) = {} \<and> (\<forall>i \<in> fst p. valid i)"

lemma pool_step_ok:
  assumes "pool_step p q" "pool_ok p"
  shows "pool_ok q \<and> fst q \<union> avail (snd q) = fst p \<union> avail (snd p)"
  using assms
proof (cases rule: pool_step.cases)
  case (alloc_step s i s' H)
  then show ?thesis using assms(2) alloc_some [of s i s'] avail_valid [of s i] by (auto simp: pool_ok_def)
next
  case (give_step i H s s')
  then show ?thesis using assms(2) give_some [of s i] by (force simp: pool_ok_def)
qed

lemma pool_steps_ok:
  assumes "pool_step\<^sup>*\<^sup>* p q" "pool_ok p"
  shows "pool_ok q \<and> fst q \<union> avail (snd q) = fst p \<union> avail (snd p)"
  using assms
proof (induction rule: rtranclp_induct)
  case (step y z)
  then show ?case using pool_step_ok [of y z] by simp
qed simp

lemma alloc_fresh:
  assumes "pool_ok (H, s)" "alloc s = Some (i, s')"
  shows "i \<notin> H"
  using assms alloc_some [of s i s'] by (auto simp: pool_ok_def)

lemma give_back_ok:
  assumes "pool_ok (H, s)" "i \<in> H"
  shows "\<exists>s'. give i s = Some s'"
  using assms give_some [of s i] by (auto simp: pool_ok_def)

lemma give_alloc_roundtrip:
  assumes "inv s" "alloc s = Some (i, s')"
  shows "\<exists>s''. give i s' = Some s'' \<and> inv s'' \<and> avail s'' = avail s"
  using alloc_some [OF assms] give_some [of s' i] avail_valid [OF assms(1)] by auto

end

end
