(* ===== verification/Nodeid.thy ===== *)
theory Nodeid
  imports Interval_Lists Id_Pool
begin

section \<open>Node identifiers: ddi_nodeid.c\<close>

text \<open>
  The sorted list of available node identifiers of \<open>uts/common/os/ddi_nodeid.c\<close>. The doubly linked
  list from \<open>nhead\<close> is a list of its entries. \<open>cmn_err(CE_PANIC, ...)\<close> is the result None; the outcome
  of the allocation with \<open>KM_NOSLEEP\<close> is an argument.
\<close>

subsection \<open>Entries and operations\<close>

record available =
  av_nodeid :: uint32
  av_count :: uint32

definition OUR_NODEID_MIN :: uint32 where "OUR_NODEID_MIN = 1"
definition OUR_NODEID_MAX :: uint32 where "OUR_NODEID_MAX = 0x10000000"
definition OUR_NODEID_COUNT :: uint32 where "OUR_NODEID_COUNT = OUR_NODEID_MAX - OUR_NODEID_MIN"

definition DEVI_PSEUDO_NODEID :: uint32 where "DEVI_PSEUDO_NODEID = -1"
definition DEVI_SID_NODEID :: uint32 where "DEVI_SID_NODEID = -2"

definition seed :: available where
  "seed = \<lparr>av_nodeid = OUR_NODEID_MIN, av_count = OUR_NODEID_COUNT\<rparr>"

fun np_coalesce :: "available \<Rightarrow> available list \<Rightarrow> available list" where
  "np_coalesce np [] = [np]"
| "np_coalesce np (xp # xs) =
     (if av_nodeid np + av_count np = av_nodeid xp
      then np\<lparr>av_count := av_count np + av_count xp\<rparr> # xs
      else np # xp # xs)"

definition impl_ddi_init_nodeid :: "available list" where
  "impl_ddi_init_nodeid = [seed]"

fun impl_ddi_alloc_nodeid :: "available list \<Rightarrow> (uint32 \<times> available list) option" where
  "impl_ddi_alloc_nodeid [] = None"
| "impl_ddi_alloc_nodeid (np # nps) =
     (let x = av_nodeid np;
          np = np\<lparr>av_nodeid := av_nodeid np + 1, av_count := av_count np - 1\<rparr>
      in Some (x, if av_count np = 0 then nps else np # nps))"

fun impl_ddi_free_nodeid :: "uint32 \<Rightarrow> available list \<Rightarrow> available list option" where
  "impl_ddi_free_nodeid nodeid [] = Some [\<lparr>av_nodeid = nodeid, av_count = 1\<rparr>]"
| "impl_ddi_free_nodeid nodeid (np # nps) =
     (if nodeid + 1 = av_nodeid np
      then Some (np\<lparr>av_nodeid := nodeid, av_count := av_count np + 1\<rparr> # nps)
      else if nodeid = av_nodeid np + av_count np
      then Some (np_coalesce (np\<lparr>av_count := av_count np + 1\<rparr>) nps)
      else if nodeid < av_nodeid np
      then Some (\<lparr>av_nodeid = nodeid, av_count = 1\<rparr> # np # nps)
      else if nodeid < av_nodeid np + av_count np then None
      else map_option ((#) np) (impl_ddi_free_nodeid nodeid nps))"

fun take_nodeid_loop :: "uint32 \<Rightarrow> bool \<Rightarrow> available list \<Rightarrow> bool \<times> available list" where
  "take_nodeid_loop nodeid fp [] = (True, [])"
| "take_nodeid_loop nodeid fp (np # nps) =
     (if nodeid < av_nodeid np then (True, np # nps)
      else if nodeid = av_nodeid np
      then let np = np\<lparr>av_nodeid := av_nodeid np + 1, av_count := av_count np - 1\<rparr>
           in (True, if av_count np = 0 then nps else np # nps)
      else if nodeid = av_nodeid np + av_count np - 1
      then (True, np\<lparr>av_count := av_count np - 1\<rparr> # nps)
      else if nodeid < av_nodeid np + av_count np - 1
      then if \<not> fp then (False, np # nps)
           else let new = \<lparr>av_nodeid = av_nodeid np, av_count = nodeid - av_nodeid np\<rparr>;
                    np = np\<lparr>av_nodeid := nodeid + 1, av_count := av_count np - av_count new - 1\<rparr>
                in (True, new # np # nps)
      else let (ok, nps) = take_nodeid_loop nodeid fp nps in (ok, np # nps))"

definition impl_ddi_take_nodeid :: "uint32 \<Rightarrow> bool \<Rightarrow> available list \<Rightarrow> bool \<times> available list" where
  "impl_ddi_take_nodeid nodeid fp l =
     (if nodeid < OUR_NODEID_MIN \<or> nodeid > OUR_NODEID_MAX then (True, l)
      else take_nodeid_loop nodeid fp l)"

subsection \<open>The available identifiers\<close>

definition ivs :: "available list \<Rightarrow> (nat \<times> nat) list" where
  "ivs = map (\<lambda>e. (unat (av_nodeid e), unat (av_count e)))"

definition avail_ids :: "available list \<Rightarrow> uint32 set" where
  "avail_ids l = {x. unat x \<in> cover (ivs l)}"

definition valid_nodeid :: "uint32 \<Rightarrow> bool" where
  "valid_nodeid x \<longleftrightarrow> x \<noteq> 0 \<and> x \<noteq> DEVI_PSEUDO_NODEID \<and> x \<noteq> DEVI_SID_NODEID"

definition nodeid_inv :: "available list \<Rightarrow> bool" where
  "nodeid_inv l \<longleftrightarrow> runs 1 1 (ivs l) \<and> (\<forall>x \<in> cover (ivs l). x < 2 ^ 32 - 2)"

lemma ivs_simps [simp]: "ivs [] = []" "ivs (e # l) = (unat (av_nodeid e), unat (av_count e)) # ivs l"
  by (simp_all add: ivs_def)

lemma unat_lt_32: "unat (x :: uint32) < 2 ^ 32"
  using unsigned_less [of x] by simp

lemma unat32_add: "unat (a :: uint32) + unat b < 2 ^ 32 \<Longrightarrow> unat (a + b) = unat a + unat b"
  by (simp add: unat_word_ariths)

lemma unat32_suc: "unat (a :: uint32) < 2 ^ 32 - 1 \<Longrightarrow> unat (a + 1) = unat a + 1"
  by (simp add: unat_word_ariths)

lemma unat32_pred: "(a :: uint32) \<noteq> 0 \<Longrightarrow> unat (a - 1) = unat a - 1"
  by (rule unat_minus_one)

lemma pred_zero: "(a :: uint32) - 1 = 0 \<longleftrightarrow> unat a = 1"
  by (metis right_minus_eq unat_1 word_unat_eq_iff)

lemma valid_nodeid_unat: "valid_nodeid x \<longleftrightarrow> 0 < unat x \<and> unat x < 2 ^ 32 - 2"
proof -
  have "unat (DEVI_PSEUDO_NODEID) = 2 ^ 32 - 1" "unat (DEVI_SID_NODEID) = 2 ^ 32 - 2"
    by (simp_all add: DEVI_PSEUDO_NODEID_def DEVI_SID_NODEID_def unsigned_minus_1_eq_mask mask_eq_exp_minus_1)
  moreover have "x = y \<longleftrightarrow> unat x = unat y" for y by (rule word_unat_eq_iff)
  ultimately have "valid_nodeid x \<longleftrightarrow> unat x \<noteq> 0 \<and> unat x \<noteq> 2 ^ 32 - 1 \<and> unat x \<noteq> 2 ^ 32 - 2"
    unfolding valid_nodeid_def by (metis unat_0)
  then show ?thesis using unat_lt_32 [of x] by auto
qed

text \<open>An entry of a list whose runs stay below the reserved identifiers: its end does not wrap.\<close>

definition bounded :: "available list \<Rightarrow> bool" where
  "bounded l \<longleftrightarrow> (\<forall>e \<in> set l. 0 < unat (av_count e) \<and> unat (av_nodeid e) + unat (av_count e) < 2 ^ 32 - 1)"

lemma bounded_simps [simp]:
  "bounded []" "bounded (e # l) \<longleftrightarrow> 0 < unat (av_count e) \<and> unat (av_nodeid e) + unat (av_count e) < 2 ^ 32 - 1 \<and> bounded l"
  by (auto simp: bounded_def)

lemma inv_bounded:
  assumes "runs 1 lo (ivs l)" "\<forall>x \<in> cover (ivs l). x < 2 ^ 32 - 2"
  shows "bounded l"
  using assms
proof (induction l arbitrary: lo)
  case (Cons e l)
  let ?a = "unat (av_nodeid e)" and ?n = "unat (av_count e)"
  have n: "0 < ?n" using Cons.prems(1) by simp
  then have "?a + ?n - 1 \<in> cover (ivs (e # l))" by (auto intro!: UnI1)
  then have "?a + ?n - 1 < 2 ^ 32 - 2" using Cons.prems(2) by blast
  then have "?a + ?n < 2 ^ 32 - 1" using n by linarith
  with n Cons show ?case by auto
qed simp

text \<open>On the runs, freeing an identifier is adding a run of length one, and taking one is removing it.\<close>

lemma free_nodeid_run:
  assumes "bounded l" "unat n < 2 ^ 32 - 2" "runs 1 lo (ivs l)"
  shows "map_option ivs (impl_ddi_free_nodeid n l) = add_run (unat n) 1 (ivs l)"
  using assms
proof (induction l arbitrary: lo)
  case (Cons e l)
  let ?a = "unat (av_nodeid e)" and ?n = "unat (av_count e)"
  have e: "unat (av_nodeid e + av_count e) = ?a + ?n" using Cons.prems by (intro unat32_add) auto
  have s: "unat (n + 1) = unat n + 1" "unat (av_count e + 1) = ?n + 1" using Cons.prems by (auto simp: unat32_suc)
  have c1: "n + 1 = av_nodeid e \<longleftrightarrow> unat n + 1 = ?a" using s(1) by (metis word_unat_eq_iff)
  have c2: "n = av_nodeid e + av_count e \<longleftrightarrow> unat n = ?a + ?n" using e by (metis word_unat_eq_iff)
  have c3: "n < av_nodeid e \<longleftrightarrow> unat n < ?a" by (rule word_less_nat_alt)
  have c4: "n < av_nodeid e + av_count e \<longleftrightarrow> unat n < ?a + ?n" using e by (simp add: word_less_nat_alt)
  show ?case
  proof (cases "unat n = ?a + ?n")
    case True
    have n1: "unat n + 1 \<noteq> ?a" using True by simp
    show ?thesis
    proof (cases l)
      case Nil
      then show ?thesis using True n1 c1 c2 s(2) by simp
    next
      case f: (Cons f l')
      let ?b = "unat (av_nodeid f)" and ?m = "unat (av_count f)"
      have b: "?a + ?n + 1 \<le> ?b" "?b + ?m < 2 ^ 32 - 1" using Cons.prems f by auto
      have "unat (av_nodeid e + (av_count e + 1)) = ?a + (?n + 1)"
        using b unfolding s(2) [symmetric] by (intro unat32_add) (simp add: s(2))
      then have c5: "av_nodeid e + (av_count e + 1) = av_nodeid f \<longleftrightarrow> unat n + 1 = ?b"
        using True by (metis add.assoc word_unat_eq_iff)
      have "unat (av_count e + 1 + av_count f) = ?n + 1 + ?m" if "unat n + 1 = ?b"
        using that b True unfolding s(2) [symmetric] by (intro unat32_add) (simp add: s(2))
      then show ?thesis using True n1 f c1 c2 c5 s(2) b by (auto simp: add.assoc)
    qed
  next
    case False
    have IH: "add_run (unat n) 1 (ivs l) = map_option ivs (impl_ddi_free_nodeid n l)"
      using Cons.IH [of "?a + ?n + 1"] Cons.prems by simp
    show ?thesis using False c1 c2 c3 c4 s by (auto simp: IH [simplified] option.map_comp comp_def)
  qed
qed simp


lemma alloc_nodeid_run:
  assumes "bounded (e # l)" "impl_ddi_alloc_nodeid (e # l) = Some (x, l')"
  shows "x = av_nodeid e" "Some (ivs l') = del_run (unat x) 1 (ivs (e # l))"
proof -
  have n: "av_count e \<noteq> 0" using assms(1) by (auto simp: unat_gt_0)
  show x: "x = av_nodeid e" using assms(2) by (simp add: Let_def)
  have u: "unat (av_count e - 1) = unat (av_count e) - 1" "unat (av_nodeid e + 1) = unat (av_nodeid e) + 1"
    using assms(1) unat32_pred [OF n] by (auto simp: unat32_suc)
  have c: "av_count e - 1 = 0 \<longleftrightarrow> unat (av_count e) = 1" by (rule pred_zero)
  have p: "0 < unat (av_count e)" using assms(1) by simp
  show "Some (ivs l') = del_run (unat x) 1 (ivs (e # l))"
  proof (cases "unat (av_count e) = 1")
    case True
    then have "l' = l" using assms(2) c by (simp add: Let_def)
    then show ?thesis using True x by simp
  next
    case False
    then have "l' = e\<lparr>av_nodeid := av_nodeid e + 1, av_count := av_count e - 1\<rparr> # l" using assms(2) c by (auto simp: Let_def)
    then show ?thesis using False x u p by simp
  qed
qed

lemma take_nodeid_run:
  assumes "bounded l" "runs 1 lo (ivs l)" "unat n < 2 ^ 32 - 2"
  shows "(case take_nodeid_loop n fp l of (ok, l') \<Rightarrow>
     (if ok then ivs l' = (case del_run (unat n) 1 (ivs l) of None \<Rightarrow> ivs l | Some ys \<Rightarrow> ys) else \<not> fp \<and> l' = l \<and> del_run (unat n) 1 (ivs l) \<noteq> None))"
  using assms
proof (induction l arbitrary: lo)
  case (Cons e l)
  let ?a = "unat (av_nodeid e)" and ?n = "unat (av_count e)"
  have nz: "av_count e \<noteq> 0" "0 < ?n" "?a + ?n < 2 ^ 32 - 1" using Cons.prems by (auto simp: unat_gt_0)
  have e: "unat (av_nodeid e + av_count e) = ?a + ?n" using nz by (intro unat32_add) auto
  have "av_nodeid e + av_count e \<noteq> 0" using e nz by (metis add_is_0 less_numeral_extra(3) unat_0)
  then have e1: "unat (av_nodeid e + av_count e - 1) = ?a + ?n - 1" using e by (simp add: unat_minus_one)
  have s: "unat (n + 1) = unat n + 1" "unat (av_nodeid e + 1) = ?a + 1" "unat (av_count e - 1) = ?n - 1"
    using Cons.prems nz unat_minus_one by (auto simp: unat32_suc)
  have c1: "n < av_nodeid e \<longleftrightarrow> unat n < ?a" by (rule word_less_nat_alt)
  have c2: "n = av_nodeid e \<longleftrightarrow> unat n = ?a" by (rule word_unat_eq_iff)
  have c3: "n = av_nodeid e + av_count e - 1 \<longleftrightarrow> unat n = ?a + ?n - 1" using e1 by (metis word_unat_eq_iff)
  have c4: "n < av_nodeid e + av_count e - 1 \<longleftrightarrow> unat n < ?a + ?n - 1" using e1 by (simp add: word_less_nat_alt)
  have c5: "av_count e - 1 = 0 \<longleftrightarrow> ?n = 1" by (rule pred_zero)
  consider "unat n < ?a" | "unat n = ?a" | "?a < unat n" "unat n = ?a + ?n - 1" | "?a < unat n" "unat n < ?a + ?n - 1" | "?a + ?n \<le> unat n"
    by linarith
  then show ?case
  proof cases
    case 1
    have "runs 1 ?a (ivs (e # l))" using Cons.prems(2) by simp
    then have "unat n \<notin> cover (ivs (e # l))" using 1 by (rule runs_below)
    then have "\<not> run (unat n, 1) \<subseteq> cover (ivs (e # l))" by (auto simp: run_def)
    from del_run_missing [OF Cons.prems(2) _ this] have "del_run (unat n) 1 (ivs (e # l)) = None" by simp
    moreover have "take_nodeid_loop n fp (e # l) = (True, e # l)" using 1 c1 by simp
    ultimately show ?thesis by simp
  next
    case 2
    have "take_nodeid_loop n fp (e # l) =
        (True, if ?n = 1 then l else e\<lparr>av_nodeid := av_nodeid e + 1, av_count := av_count e - 1\<rparr> # l)"
      using 2 c1 c2 c5 by (simp add: Let_def del: One_nat_def)
    moreover have "del_run (unat n) 1 (ivs (e # l)) = Some (if ?n = 1 then ivs l else (?a + 1, ?n - 1) # ivs l)" using 2 nz by auto
    ultimately show ?thesis using s by simp
  next
    case 3
    have "take_nodeid_loop n fp (e # l) = (True, e\<lparr>av_count := av_count e - 1\<rparr> # l)" using 3 c1 c2 c3 by simp
    moreover have "del_run (unat n) 1 (ivs (e # l)) = Some ((?a, ?n - 1) # ivs l)" using 3 nz by auto
    ultimately show ?thesis using s by simp
  next
    case 4
    let ?new = "\<lparr>av_nodeid = av_nodeid e, av_count = n - av_nodeid e\<rparr>"
    let ?np = "e\<lparr>av_nodeid := n + 1, av_count := av_count e - (n - av_nodeid e) - 1\<rparr>"
    have d: "unat (n - av_nodeid e) = unat n - ?a" using 4 by (intro unat_sub) (simp add: word_le_nat_alt)
    have le: "n - av_nodeid e \<le> av_count e" using d 4 by (simp add: word_le_nat_alt)
    have q: "unat (av_count e - (n - av_nodeid e)) = ?n - (unat n - ?a)" using unat_sub [OF le] d by simp
    then have "0 < unat (av_count e - (n - av_nodeid e))" using 4 by linarith
    then have "av_count e - (n - av_nodeid e) \<noteq> 0" by auto
    then have k: "unat (av_count e - (n - av_nodeid e) - 1) = ?n - (unat n - ?a) - 1" using q by (simp add: unat_minus_one)
    have "take_nodeid_loop n fp (e # l) = (if fp then (True, ?new # ?np # l) else (False, e # l))"
      using 4 c1 c2 c3 c4 by (simp add: Let_def)
    moreover have "del_run (unat n) 1 (ivs (e # l)) = Some ((?a, unat n - ?a) # (unat n + 1, ?n - (unat n - ?a) - 1) # ivs l)"
      using 4 by auto
    moreover have "ivs (?new # ?np # l) = (?a, unat n - ?a) # (unat n + 1, ?n - (unat n - ?a) - 1) # ivs l" using d k s(1) by simp
    ultimately show ?thesis by simp
  next
    case 5
    have k: "\<not> n < av_nodeid e" "n \<noteq> av_nodeid e" "n \<noteq> av_nodeid e + av_count e - 1" "\<not> n < av_nodeid e + av_count e - 1"
      using 5 nz unfolding c1 c2 c3 c4 by auto
    obtain ok l' where r: "take_nodeid_loop n fp l = (ok, l')" by (cases "take_nodeid_loop n fp l")
    have "take_nodeid_loop n fp (e # l) = (ok, e # l')" using k r by simp
    moreover have "del_run (unat n) 1 (ivs (e # l)) = map_option ((#) (?a, ?n)) (del_run (unat n) 1 (ivs l))" using 5 by simp
    moreover have "if ok then ivs l' = (case del_run (unat n) 1 (ivs l) of None \<Rightarrow> ivs l | Some ys \<Rightarrow> ys) else \<not> fp \<and> l' = l \<and> del_run (unat n) 1 (ivs l) \<noteq> None"
      using Cons.IH [of "?a + ?n + 1"] Cons.prems r by simp
    ultimately show ?thesis by (cases "del_run (unat n) 1 (ivs l)") (auto split: if_splits)
  qed
qed simp


subsection \<open>The contract\<close>

lemma nodeid_parts:
  assumes "nodeid_inv l"
  shows "runs 1 1 (ivs l)" "\<forall>x \<in> cover (ivs l). x < 2 ^ 32 - 2" "bounded l"
  using assms inv_bounded by (auto simp: nodeid_inv_def)

lemma avail_ids_eq:
  assumes "cover (ivs l') = C" "\<And>x. unat x \<in> C \<longleftrightarrow> x \<in> S"
  shows "avail_ids l' = S"
  using assms by (auto simp: avail_ids_def)

lemma free_nodeid_ok:
  assumes inv: "nodeid_inv l" and v: "valid_nodeid n" "n \<notin> avail_ids l"
  shows "\<exists>l'. impl_ddi_free_nodeid n l = Some l' \<and> nodeid_inv l' \<and> avail_ids l' = insert n (avail_ids l)"
proof -
  note p = nodeid_parts [OF inv]
  have n: "1 \<le> unat n" "unat n < 2 ^ 32 - 2" using v(1) by (simp_all add: valid_nodeid_unat)
  have "run (unat n, 1) \<inter> cover (ivs l) = {}" using v(2) by (auto simp: run_def avail_ids_def)
  from add_run_ok [OF p(1) n(1) _ this] obtain ys where
    y: "add_run (unat n) 1 (ivs l) = Some ys" "runs 1 1 ys" "cover ys = run (unat n, 1) \<union> cover (ivs l)" by auto
  obtain l' where l': "impl_ddi_free_nodeid n l = Some l'" "ivs l' = ys"
    using free_nodeid_run [OF p(3) n(2) p(1)] y(1) by (cases "impl_ddi_free_nodeid n l") auto
  have c: "cover (ivs l') = insert (unat n) (cover (ivs l))" using y(3) l'(2) by (auto simp: run_def)
  then have "nodeid_inv l'" using y(2) l'(2) p(2) n(2) by (simp add: nodeid_inv_def)
  moreover have "avail_ids l' = insert n (avail_ids l)" by (rule avail_ids_eq [OF c]) (auto simp: avail_ids_def word_unat_eq_iff)
  ultimately show ?thesis using l'(1) by blast
qed

lemma free_nodeid_panic:
  assumes inv: "nodeid_inv l" and v: "n \<in> avail_ids l"
  shows "impl_ddi_free_nodeid n l = None"
proof -
  note p = nodeid_parts [OF inv]
  have m: "unat n \<in> cover (ivs l)" using v by (simp add: avail_ids_def)
  then have n: "unat n < 2 ^ 32 - 2" using p(2) by blast
  have "run (unat n, 1) \<inter> cover (ivs l) \<noteq> {}" using m by (auto simp: run_def)
  from add_run_overlap [OF p(1) _ this] show ?thesis using free_nodeid_run [OF p(3) n p(1)] by simp
qed

lemma del_nodeid_inv:
  assumes inv: "nodeid_inv l" and m: "n \<in> avail_ids l" and d: "del_run (unat n) 1 (ivs l) = Some (ivs l')"
  shows "nodeid_inv l'" "avail_ids l' = avail_ids l - {n}"
proof -
  note p = nodeid_parts [OF inv]
  have "run (unat n, 1) \<subseteq> cover (ivs l)" using m by (auto simp: run_def avail_ids_def)
  from del_run_ok [OF p(1) _ this] d have y: "runs 1 1 (ivs l')" "cover (ivs l') = cover (ivs l) - run (unat n, 1)" by auto
  have c: "cover (ivs l') = cover (ivs l) - {unat n}" using y(2) by (auto simp: run_def)
  show "nodeid_inv l'" using y(1) c p(2) by (simp add: nodeid_inv_def)
  show "avail_ids l' = avail_ids l - {n}" by (rule avail_ids_eq [OF c]) (auto simp: avail_ids_def word_unat_eq_iff)
qed

lemma alloc_nodeid_ok:
  assumes inv: "nodeid_inv l" and a: "impl_ddi_alloc_nodeid l = Some (x, l')"
  shows "nodeid_inv l' \<and> x \<in> avail_ids l \<and> avail_ids l' = avail_ids l - {x} \<and> (\<forall>y \<in> avail_ids l. x \<le> y)"
proof -
  obtain e es where l: "l = e # es" using a by (cases l) auto
  note p = nodeid_parts [OF inv]
  note r = alloc_nodeid_run [OF p(3) [unfolded l] a [unfolded l]]
  have min: "unat x = Min (cover (ivs l))" using runs_least [of 1 1] p(1) r(1) by (simp add: l)
  have m: "x \<in> avail_ids l" using p(1) r(1) by (simp add: l avail_ids_def)
  have "\<forall>y \<in> avail_ids l. x \<le> y" using Min_le [OF runs_finite] min by (auto simp: avail_ids_def word_le_nat_alt)
  then show ?thesis using m del_nodeid_inv [OF inv m] r(2) l by simp
qed

lemma alloc_nodeid_none:
  assumes "nodeid_inv l"
  shows "impl_ddi_alloc_nodeid l = None \<longleftrightarrow> avail_ids l = {}"
proof (cases l)
  case (Cons e es)
  have "av_nodeid e \<in> avail_ids l" using nodeid_parts(1) [OF assms] by (simp add: Cons avail_ids_def)
  then show ?thesis using Cons by (auto simp: Let_def)
qed (simp add: avail_ids_def)

lemma avail_nodeid_valid:
  assumes "nodeid_inv l" "x \<in> avail_ids l"
  shows "valid_nodeid x"
  using nodeid_parts(1,2) [OF assms(1)] assms(2) runs_lower [of 1 1 "ivs l" "unat x"] by (auto simp: valid_nodeid_unat avail_ids_def)

interpretation nodeids: id_pool nodeid_inv avail_ids valid_nodeid impl_ddi_alloc_nodeid impl_ddi_free_nodeid
proof
  show "nodeid_inv l' \<and> x \<in> avail_ids l \<and> avail_ids l' = avail_ids l - {x}"
    if "nodeid_inv l" "impl_ddi_alloc_nodeid l = Some (x, l')" for l x l' using alloc_nodeid_ok [OF that] by blast
qed (rule alloc_nodeid_none avail_nodeid_valid free_nodeid_ok free_nodeid_panic; assumption)+

lemma init_nodeid_ok: "nodeid_inv impl_ddi_init_nodeid" "avail_ids impl_ddi_init_nodeid = {x. 1 \<le> x \<and> x < OUR_NODEID_MAX}"
proof -
  have c: "cover (ivs impl_ddi_init_nodeid) = {1 ..< 0x10000000}"
    by (simp add: impl_ddi_init_nodeid_def seed_def OUR_NODEID_MIN_def OUR_NODEID_COUNT_def OUR_NODEID_MAX_def run_def)
  show "nodeid_inv impl_ddi_init_nodeid"
    unfolding nodeid_inv_def c by (simp add: impl_ddi_init_nodeid_def seed_def OUR_NODEID_MIN_def OUR_NODEID_COUNT_def OUR_NODEID_MAX_def)
  show "avail_ids impl_ddi_init_nodeid = {x. 1 \<le> x \<and> x < OUR_NODEID_MAX}"
    by (rule avail_ids_eq [OF c]) (auto simp: OUR_NODEID_MAX_def word_le_nat_alt word_less_nat_alt)
qed

subsection \<open>Properties\<close>

text \<open>
  C21: starting from the initial list, no sequence of allocations and frees hands out a node identifier
  twice: an identifier that is allocated is not held by anyone, it is the lowest one available, it is
  none of the reserved values 0, -1 and -2, and freeing an identifier that is held never panics.
\<close>

theorem nodeid_unique:
  assumes "nodeids.pool_step\<^sup>*\<^sup>* ({}, impl_ddi_init_nodeid) (H, l)"
  shows "(\<forall>x l'. impl_ddi_alloc_nodeid l = Some (x, l') \<longrightarrow> x \<notin> H \<and> valid_nodeid x \<and> (\<forall>y. 1 \<le> y \<and> y < x \<longrightarrow> y \<in> H)) \<and>
     (\<forall>x \<in> H. impl_ddi_free_nodeid x l \<noteq> None) \<and> H \<union> avail_ids l = {x. 1 \<le> x \<and> x < OUR_NODEID_MAX}"
proof -
  have "nodeids.pool_ok ({}, impl_ddi_init_nodeid)" using init_nodeid_ok(1) by (simp add: nodeids.pool_ok_def)
  from nodeids.pool_steps_ok [OF assms this] have ok: "nodeids.pool_ok (H, l)"
    and u: "H \<union> avail_ids l = {x. 1 \<le> x \<and> x < OUR_NODEID_MAX}" by (auto simp: init_nodeid_ok(2))
  have inv: "nodeid_inv l" using ok by (simp add: nodeids.pool_ok_def)
  have "x \<notin> H \<and> valid_nodeid x \<and> (\<forall>y. 1 \<le> y \<and> y < x \<longrightarrow> y \<in> H)" if a: "impl_ddi_alloc_nodeid l = Some (x, l')" for x l'
  proof -
    note r = alloc_nodeid_ok [OF inv a]
    have "y \<in> H" if y: "1 \<le> y" "y < x" for y
    proof -
      have "x \<in> {x. 1 \<le> x \<and> x < OUR_NODEID_MAX}" using u r by blast
      then have "y \<in> H \<union> avail_ids l" unfolding u using y by (simp add: less_trans)
      then show ?thesis using r y(2) by (meson Un_iff leD)
    qed
    then show ?thesis using nodeids.alloc_fresh [OF ok a] avail_nodeid_valid [OF inv] r by blast
  qed
  then show ?thesis using nodeids.give_back_ok [OF ok] u by blast
qed

theorem nodeid_unique_witness:
  "\<exists>x l'. impl_ddi_alloc_nodeid impl_ddi_init_nodeid = Some (x, l') \<and> valid_nodeid x"
proof -
  obtain x l' where a: "impl_ddi_alloc_nodeid impl_ddi_init_nodeid = Some (x, l')"
    by (simp add: impl_ddi_init_nodeid_def Let_def)
  from nodeid_unique [OF rtranclp.rtrancl_refl] a show ?thesis by blast
qed

text \<open>
  C22: \<open>impl_ddi_free_nodeid()\<close> makes exactly the freed identifier available and keeps the list sorted
  and coalesced; freeing an identifier that is available already is detected and panics.
\<close>

theorem free_nodeid_correct:
  assumes "nodeid_inv l" "valid_nodeid n"
  shows "case impl_ddi_free_nodeid n l of
      None \<Rightarrow> n \<in> avail_ids l
    | Some l' \<Rightarrow> n \<notin> avail_ids l \<and> nodeid_inv l' \<and> avail_ids l' = insert n (avail_ids l)"
  using free_nodeid_ok [OF assms] free_nodeid_panic [OF assms(1), of n] by (cases "n \<in> avail_ids l") auto

theorem free_nodeid_correct_witness:
  "\<exists>l'. impl_ddi_free_nodeid 0x20000000 impl_ddi_init_nodeid = Some l' \<and> nodeid_inv l'"
proof -
  have "valid_nodeid 0x20000000" "0x20000000 \<notin> avail_ids impl_ddi_init_nodeid"
    by (simp_all add: valid_nodeid_unat init_nodeid_ok(2) OUR_NODEID_MAX_def)
  with free_nodeid_correct [OF init_nodeid_ok(1), of "0x20000000"] show ?thesis by (auto split: option.splits)
qed

text \<open>
  C23: \<open>impl_ddi_take_nodeid()\<close> removes an identifier of the managed range from the available ones. It
  fails only when a run must be split and memory for the new entry could not be had, and then it
  changes nothing.
\<close>

theorem take_nodeid_correct:
  assumes "nodeid_inv l" "valid_nodeid n"
  shows "case impl_ddi_take_nodeid n fp l of
      (True, l') \<Rightarrow> nodeid_inv l' \<and> avail_ids l' = (if n \<le> OUR_NODEID_MAX then avail_ids l - {n} else avail_ids l)
    | (False, l') \<Rightarrow> \<not> fp \<and> l' = l \<and> n \<in> avail_ids l"
proof (cases "n \<le> OUR_NODEID_MAX")
  case False
  then show ?thesis using assms(1) by (simp add: impl_ddi_take_nodeid_def not_le)
next
  case True
  note p = nodeid_parts [OF assms(1)]
  have n: "unat n < 2 ^ 32 - 2" "0 < unat n" using assms(2) by (simp_all add: valid_nodeid_unat)
  have nm: "\<not> n < OUR_NODEID_MIN" using n(2) by (simp add: OUR_NODEID_MIN_def word_less_nat_alt)
  obtain ok l' where r: "take_nodeid_loop n fp l = (ok, l')" by (cases "take_nodeid_loop n fp l")
  have t: "impl_ddi_take_nodeid n fp l = (ok, l')" using True nm r by (simp add: impl_ddi_take_nodeid_def leD)
  have d: "del_run (unat n) 1 (ivs l) = None" if "n \<notin> avail_ids l"
    using that by (intro del_run_missing [OF p(1)]) (auto simp: run_def avail_ids_def)
  have s: "if ok then ivs l' = (case del_run (unat n) 1 (ivs l) of None \<Rightarrow> ivs l | Some ys \<Rightarrow> ys)
      else \<not> fp \<and> l' = l \<and> del_run (unat n) 1 (ivs l) \<noteq> None" using take_nodeid_run [OF p(3,1) n(1), of fp] r by simp
  show ?thesis
  proof (cases ok)
    case False
    then show ?thesis using s t d by (cases "n \<in> avail_ids l") auto
  next
    case ok: True
    show ?thesis
    proof (cases "n \<in> avail_ids l")
      case m: True
      then have "run (unat n, 1) \<subseteq> cover (ivs l)" by (auto simp: run_def avail_ids_def)
      from del_run_ok [OF p(1) _ this] obtain ys where "del_run (unat n) 1 (ivs l) = Some ys" by auto
      then have "del_run (unat n) 1 (ivs l) = Some (ivs l')" using s ok by simp
      from del_nodeid_inv [OF assms(1) m this] show ?thesis using t ok True by simp
    next
      case m: False
      then have "ivs l' = ivs l" using s ok d by simp
      then show ?thesis using t ok True m assms(1) by (simp add: nodeid_inv_def avail_ids_def)
    qed
  qed
qed

theorem take_nodeid_correct_witness:
  "case impl_ddi_take_nodeid 5 True impl_ddi_init_nodeid of
      (ok, l') \<Rightarrow> ok \<and> nodeid_inv l' \<and> 5 \<notin> avail_ids l'"
proof -
  have "valid_nodeid 5" "(5 :: uint32) \<le> OUR_NODEID_MAX" by (simp_all add: valid_nodeid_unat OUR_NODEID_MAX_def)
  with take_nodeid_correct [OF init_nodeid_ok(1), of 5 True] show ?thesis
    by (cases "impl_ddi_take_nodeid 5 True impl_ddi_init_nodeid") (auto split: bool.splits)
qed

end
