(* ===== verification/Memlist.thy ===== *)
theory Memlist
  imports Interval_Lists
begin

section \<open>Memory lists: memlist_new.c\<close>

text \<open>
  The lists of memory spans of \<open>uts/common/os/memlist_new.c\<close>. The doubly linked list from
  \<open>*curmemlistp\<close> is a list of its elements; the freelist of structures is the number of structures
  on it, next to the counter the code keeps. A panic is the result None.
\<close>

subsection \<open>Structures and their freelist\<close>

record memlist =
  ml_address :: ulong
  ml_size :: ulong

record ml_pool =
  memlist_freelist :: nat
  memlist_freelist_count :: uint32

definition memlist_get_one :: "ml_pool \<Rightarrow> bool \<times> ml_pool" where
  "memlist_get_one p =
     (if memlist_freelist p \<noteq> 0
      then (True, p\<lparr>memlist_freelist := memlist_freelist p - 1, memlist_freelist_count := memlist_freelist_count p - 1\<rparr>)
      else (False, p))"

definition memlist_free_one :: "ml_pool \<Rightarrow> ml_pool" where
  "memlist_free_one p = p\<lparr>memlist_freelist := memlist_freelist p + 1, memlist_freelist_count := memlist_freelist_count p + 1\<rparr>"

definition memlist_free_list :: "memlist list \<Rightarrow> ml_pool \<Rightarrow> ml_pool" where
  "memlist_free_list l p =
     (if l = [] then p
      else p\<lparr>memlist_freelist := memlist_freelist p + length l,
             memlist_freelist_count := memlist_freelist_count p + word_of_nat (length l)\<rparr>)"

text \<open>The size of a \<open>struct memlist\<close> is 32 bytes; \<open>count\<close> is a \<open>u_int\<close>.\<close>

definition memlist_free_block :: "ulong \<Rightarrow> ml_pool \<Rightarrow> ml_pool" where
  "memlist_free_block bytes p =
     (let count = (ucast (bytes div 32) :: uint32)
      in if count = 0 then p
         else p\<lparr>memlist_freelist := memlist_freelist p + unat count,
                memlist_freelist_count := memlist_freelist_count p + count\<rparr>)"

subsection \<open>Inserting, deleting and finding elements\<close>

fun memlist_insert_loop :: "memlist \<Rightarrow> memlist list \<Rightarrow> memlist list option" where
  "memlist_insert_loop new [] = Some [new]"
| "memlist_insert_loop new (cur # rest) =
     (let start = ml_address new; end = start + ml_size new
      in if ml_address cur \<ge> end then Some (new # cur # rest)
         else if ml_address cur + ml_size cur > start then None
         else map_option ((#) cur) (memlist_insert_loop new rest))"

text \<open>In an empty list there is no \<open>last\<close> to link the new element to, and the head is not set.\<close>

definition memlist_insert :: "memlist \<Rightarrow> memlist list \<Rightarrow> memlist list option" where
  "memlist_insert new l = (if l = [] then Some [] else memlist_insert_loop new l)"

definition memlist_del :: "nat \<Rightarrow> memlist list \<Rightarrow> memlist list" where
  "memlist_del i l = take i l @ drop (Suc i) l"

fun memlist_find :: "memlist list \<Rightarrow> ulong \<Rightarrow> memlist option" where
  "memlist_find [] address = None"
| "memlist_find (mlp # l) address =
     (if address \<ge> ml_address mlp \<and> address < ml_address mlp + ml_size mlp then Some mlp
      else memlist_find l address)"

subsection \<open>Adding and deleting spans\<close>

datatype spanop = MEML_SPANOP_OK | MEML_SPANOP_ESPAN | MEML_SPANOP_EALLOC

fun add_span_loop :: "ulong \<Rightarrow> ulong \<Rightarrow> ml_pool \<Rightarrow> memlist list \<Rightarrow> spanop \<times> ml_pool \<times> memlist list" where
  "add_span_loop address bytes p [] = (MEML_SPANOP_OK, p, [\<lparr>ml_address = address, ml_size = bytes\<rparr>])"
| "add_span_loop address bytes p (next # rest) =
     (if address > ml_address next + ml_size next
      then let (r, p, l) = add_span_loop address bytes p rest in (r, p, next # l)
      else if address + bytes = ml_address next
      then (MEML_SPANOP_OK, memlist_free_one p, next\<lparr>ml_address := address, ml_size := ml_size next + bytes\<rparr> # rest)
      else if address = ml_address next + ml_size next
      then let p = memlist_free_one p
           in (case rest of
                 [] \<Rightarrow> (MEML_SPANOP_OK, p, [next\<lparr>ml_size := ml_size next + bytes\<rparr>])
               | mlp # rest' \<Rightarrow>
                   if address + bytes > ml_address mlp then (MEML_SPANOP_ESPAN, p, next # rest)
                   else if address + bytes = ml_address mlp
                   then (MEML_SPANOP_OK, memlist_free_one p,
                         mlp\<lparr>ml_address := ml_address next, ml_size := ml_size mlp + ml_size next + bytes\<rparr> # rest')
                   else (MEML_SPANOP_OK, p, next\<lparr>ml_size := ml_size next + bytes\<rparr> # rest))
      else if address + bytes > ml_address next then (MEML_SPANOP_ESPAN, memlist_free_one p, next # rest)
      else (MEML_SPANOP_OK, p, \<lparr>ml_address = address, ml_size = bytes\<rparr> # next # rest))"

definition memlist_add_span :: "ulong \<Rightarrow> ulong \<Rightarrow> ml_pool \<Rightarrow> memlist list \<Rightarrow> spanop \<times> ml_pool \<times> memlist list" where
  "memlist_add_span address bytes p l =
     (let (got, p) = memlist_get_one p
      in if \<not> got then (MEML_SPANOP_EALLOC, p, l) else add_span_loop address bytes p l)"

fun memlist_delete_span :: "ulong \<Rightarrow> ulong \<Rightarrow> ml_pool \<Rightarrow> memlist list \<Rightarrow> spanop \<times> ml_pool \<times> memlist list" where
  "memlist_delete_span address bytes p [] = (MEML_SPANOP_ESPAN, p, [])"
| "memlist_delete_span address bytes p (next # rest) =
     (if \<not> (address \<ge> ml_address next \<and> address < ml_address next + ml_size next)
      then let (r, p, l) = memlist_delete_span address bytes p rest in (r, p, next # l)
      else if address + bytes > ml_address next + ml_size next then (MEML_SPANOP_ESPAN, p, next # rest)
      else if address = ml_address next
      then if bytes = ml_size next then (MEML_SPANOP_OK, memlist_free_one p, rest)
           else (MEML_SPANOP_OK, p, next\<lparr>ml_address := ml_address next + bytes, ml_size := ml_size next - bytes\<rparr> # rest)
      else if address + bytes = ml_address next + ml_size next
      then (MEML_SPANOP_OK, p, next\<lparr>ml_size := ml_size next - bytes\<rparr> # rest)
      else let (got, p) = memlist_get_one p
           in if \<not> got then (MEML_SPANOP_EALLOC, p, next # rest)
              else let dst = \<lparr>ml_address = address + bytes, ml_size = (ml_address next + ml_size next) - (address + bytes)\<rparr>
                   in (MEML_SPANOP_OK, p, next\<lparr>ml_size := address - ml_address next\<rparr> # dst # rest))"

subsection \<open>The set of addresses\<close>

definition spans :: "memlist list \<Rightarrow> (nat \<times> nat) list" where
  "spans = map (\<lambda>e. (unat (ml_address e), unat (ml_size e)))"

definition addresses :: "memlist list \<Rightarrow> nat set" where
  "addresses l = cover (spans l)"

definition fits64 :: "memlist list \<Rightarrow> bool" where
  "fits64 l \<longleftrightarrow> (\<forall>e \<in> set l. unat (ml_address e) + unat (ml_size e) < 2 ^ 64)"

text \<open>The lists of the span operations: ascending spans that neither overlap nor touch.\<close>

definition memlist_inv :: "memlist list \<Rightarrow> bool" where
  "memlist_inv l \<longleftrightarrow> runs 1 0 (spans l) \<and> fits64 l"

definition ml_count_ok :: "ml_pool \<Rightarrow> bool" where
  "ml_count_ok p \<longleftrightarrow> memlist_freelist_count p = word_of_nat (memlist_freelist p)"

lemma spans_simps [simp]:
  "spans [] = []" "spans (e # l) = (unat (ml_address e), unat (ml_size e)) # spans l"
  "fits64 []" "fits64 (e # l) \<longleftrightarrow> unat (ml_address e) + unat (ml_size e) < 2 ^ 64 \<and> fits64 l"
  by (auto simp: spans_def fits64_def)

lemma unat64_add: "unat (a :: ulong) + unat b < 2 ^ 64 \<Longrightarrow> unat (a + b) = unat a + unat b"
  by (simp add: unat_word_ariths)

lemma unat64_sub: "unat b \<le> unat (a :: ulong) \<Longrightarrow> unat (a - b) = unat a - unat b"
  by (simp add: unat_sub word_le_nat_alt)

text \<open>The loop of \<open>memlist_add_span()\<close> is \<open>add_run\<close> on the runs, and no structure is lost.\<close>

lemma add_span_loop_run:
  assumes "fits64 l" "runs 1 lo (spans l)" "unat a + unat b < 2 ^ 64" "b \<noteq> 0"
  shows "case add_span_loop a b p l of (r, p', l') \<Rightarrow>
     fits64 l' \<and> memlist_freelist p' + length l' = memlist_freelist p + length l + 1 \<and>
     (case add_run (unat a) (unat b) (spans l) of
        None \<Rightarrow> r = MEML_SPANOP_ESPAN \<and> l' = l
      | Some ys \<Rightarrow> r = MEML_SPANOP_OK \<and> spans l' = ys)"
  using assms
proof (induction l arbitrary: lo)
  case (Cons e l)
  let ?c = "unat (ml_address e)" and ?n = "unat (ml_size e)" and ?a = "unat a" and ?b = "unat b"
  have w: "?c + ?n < 2 ^ 64" "0 < ?n" "0 < ?b" "runs 1 (?c + ?n + 1) (spans l)" using Cons.prems by (auto simp: unat_gt_0)
  have e: "unat (ml_address e + ml_size e) = ?c + ?n" using w(1) by (rule unat64_add)
  have ab: "unat (a + b) = ?a + ?b" using Cons.prems(3) by (rule unat64_add)
  have c1: "a > ml_address e + ml_size e \<longleftrightarrow> ?c + ?n < ?a" using e by (simp add: word_less_nat_alt)
  have c2: "a + b = ml_address e \<longleftrightarrow> ?a + ?b = ?c" using ab by (metis word_unat_eq_iff)
  have c3: "a = ml_address e + ml_size e \<longleftrightarrow> ?a = ?c + ?n" using e by (metis word_unat_eq_iff)
  have c4: "a + b > ml_address e \<longleftrightarrow> ?c < ?a + ?b" using ab by (simp add: word_less_nat_alt)
  consider "?c + ?n < ?a" | "?a + ?b = ?c" | "?a = ?c + ?n" | "?c < ?a + ?b" "?a < ?c + ?n" | "?a + ?b < ?c" using w by linarith
  then show ?case
  proof cases
    case 1
    obtain r p' l' where r: "add_span_loop a b p l = (r, p', l')" by (metis prod.collapse)
    have "add_span_loop a b p (e # l) = (r, p', e # l')" using 1 c1 r by simp
    moreover have "add_run ?a ?b (spans (e # l)) = map_option ((#) (?c, ?n)) (add_run ?a ?b (spans l))" using 1 w by simp
    ultimately show ?thesis using Cons.IH [OF _ w(4) Cons.prems(3,4)] Cons.prems(1) r
      by (cases "add_run ?a ?b (spans l)") auto
  next
    case 2
    have "unat (ml_size e + b) = ?n + ?b" using 2 w by (intro unat64_add) linarith
    then show ?thesis using 2 c1 c2 w Cons.prems by (auto simp: memlist_free_one_def)
  next
    case 3
    have nb: "unat (ml_size e + b) = ?n + ?b" using 3 w Cons.prems(3) by (intro unat64_add) linarith
    show ?thesis
    proof (cases l)
      case Nil
      then show ?thesis using 3 c1 c2 c3 w nb Cons.prems by (auto simp: memlist_free_one_def)
    next
      case f: (Cons f l')
      let ?d = "unat (ml_address f)" and ?m = "unat (ml_size f)"
      have d: "?d + ?m < 2 ^ 64" "?c + ?n + 1 \<le> ?d" using Cons.prems f by auto
      have c5: "a + b > ml_address f \<longleftrightarrow> ?d < ?a + ?b" "a + b = ml_address f \<longleftrightarrow> ?a + ?b = ?d"
        using ab by (simp_all add: word_less_nat_alt) (metis ab word_unat_eq_iff)
      have s1: "unat (ml_size f + ml_size e) = ?m + ?n" if "?a + ?b = ?d" using that 3 d by (intro unat64_add) linarith
      have s2: "unat (ml_size f + ml_size e + b) = ?m + ?n + ?b" if "?a + ?b = ?d"
        using unat64_add [of "ml_size f + ml_size e" b] s1 [OF that] that 3 d by simp
      show ?thesis using 3 c1 c2 c3 c5 w nb s2 d Cons.prems f by (auto simp: memlist_free_one_def)
    qed
  next
    case 4
    then show ?thesis using c1 c2 c3 c4 w Cons.prems by (auto simp: memlist_free_one_def)
  next
    case 5
    then show ?thesis using c1 c2 c3 c4 w Cons.prems by auto
  qed
qed auto


text \<open>The same for \<open>memlist_delete_span()\<close>, which needs a structure only to split a span.\<close>

lemma delete_span_run:
  assumes "fits64 l" "runs 1 lo (spans l)" "unat a + unat b < 2 ^ 64" "b \<noteq> 0"
  shows "case memlist_delete_span a b p l of (r, p', l') \<Rightarrow>
     fits64 l' \<and> memlist_freelist p' + length l' = memlist_freelist p + length l \<and>
     (r = MEML_SPANOP_EALLOC \<longrightarrow> memlist_freelist p = 0 \<and> l' = l) \<and>
     (case del_run (unat a) (unat b) (spans l) of
        None \<Rightarrow> r = MEML_SPANOP_ESPAN \<and> l' = l
      | Some ys \<Rightarrow> r = MEML_SPANOP_EALLOC \<or> r = MEML_SPANOP_OK \<and> spans l' = ys)"
  using assms
proof (induction l arbitrary: lo)
  case (Cons e l)
  let ?c = "unat (ml_address e)" and ?n = "unat (ml_size e)" and ?a = "unat a" and ?b = "unat b"
  have w: "?c + ?n < 2 ^ 64" "0 < ?n" "0 < ?b" "runs 1 (?c + ?n + 1) (spans l)" using Cons.prems by (auto simp: unat_gt_0)
  have e: "unat (ml_address e + ml_size e) = ?c + ?n" using w(1) by (rule unat64_add)
  have ab: "unat (a + b) = ?a + ?b" using Cons.prems(3) by (rule unat64_add)
  have c1: "a \<ge> ml_address e \<and> a < ml_address e + ml_size e \<longleftrightarrow> ?c \<le> ?a \<and> ?a < ?c + ?n"
    using e by (simp add: word_less_nat_alt word_le_nat_alt)
  have c2: "a + b > ml_address e + ml_size e \<longleftrightarrow> ?c + ?n < ?a + ?b" using ab e by (simp add: word_less_nat_alt)
  have c3: "a = ml_address e \<longleftrightarrow> ?a = ?c" "b = ml_size e \<longleftrightarrow> ?b = ?n" by (simp_all add: word_unat_eq_iff)
  have c4: "a + b = ml_address e + ml_size e \<longleftrightarrow> ?a + ?b = ?c + ?n" using ab e by (metis word_unat_eq_iff)
  show ?case
  proof (cases "?c \<le> ?a \<and> ?a < ?c + ?n")
    case False
    obtain r p' l' where r: "memlist_delete_span a b p l = (r, p', l')" by (metis prod.collapse)
    have "memlist_delete_span a b p (e # l) = (r, p', e # l')" using False c1 r by simp
    moreover have "del_run ?a ?b (spans (e # l)) = map_option ((#) (?c, ?n)) (del_run ?a ?b (spans l))" using False by auto
    ultimately show ?thesis using Cons.IH [OF _ w(4) Cons.prems(3,4)] Cons.prems(1) r
      by (cases "del_run ?a ?b (spans l)") auto
  next
    case True
    have s1: "unat (ml_size e - b) = ?n - ?b" if "?a + ?b \<le> ?c + ?n" using True that by (intro unat64_sub) linarith
    have s2: "unat (a - ml_address e) = ?a - ?c" using True by (intro unat64_sub) simp
    have s3: "unat (ml_address e + ml_size e - (a + b)) = ?c + ?n - (?a + ?b)" if "?a + ?b \<le> ?c + ?n"
      using that ab e by (subst unat64_sub) simp_all
    have s4: "unat (ml_address e + b) = ?c + ?b" if "?a = ?c" using that Cons.prems(3) by (intro unat64_add) simp
    consider "?c + ?n < ?a + ?b" | "?a = ?c" "?b = ?n" | "?a = ?c" "?b < ?n"
      | "?c < ?a" "?a + ?b = ?c + ?n" | "?c < ?a" "?a + ?b < ?c + ?n" using True by linarith
    then show ?thesis
    proof cases
      case 5
      then show ?thesis using True c1 c2 c3 c4 s2 s3 ab w Cons.prems
        by (auto simp: memlist_get_one_def Let_def)
    qed (use True c1 c2 c3 c4 s1 s4 w Cons.prems in \<open>auto simp: memlist_free_one_def\<close>)
  qed
qed auto

text \<open>The counter of the freelist follows its length.\<close>

lemma get_one_count: "ml_count_ok p \<Longrightarrow> ml_count_ok (snd (memlist_get_one p))"
  by (cases "memlist_freelist p") (auto simp: ml_count_ok_def memlist_get_one_def)

lemma free_one_count: "ml_count_ok p \<Longrightarrow> ml_count_ok (memlist_free_one p)"
  by (simp add: ml_count_ok_def memlist_free_one_def)

lemma add_span_loop_count: "ml_count_ok p \<Longrightarrow> ml_count_ok (fst (snd (add_span_loop a b p l)))"
  by (induction l) (simp_all add: free_one_count Let_def split_def split: list.split)

lemma add_span_count: "ml_count_ok p \<Longrightarrow> ml_count_ok (fst (snd (memlist_add_span a b p l)))"
  using get_one_count [of p] by (simp add: memlist_add_span_def add_span_loop_count split_def Let_def)

lemma delete_span_count: "ml_count_ok p \<Longrightarrow> ml_count_ok (fst (snd (memlist_delete_span a b p l)))"
proof (induction l)
  case (Cons e l)
  then show ?case using get_one_count [of p] by (simp add: free_one_count Let_def split_def)
qed simp

lemma free_list_count: "ml_count_ok p \<Longrightarrow> ml_count_ok (memlist_free_list l p)"
  by (simp add: ml_count_ok_def memlist_free_list_def)

lemma free_block_count: "ml_count_ok p \<Longrightarrow> ml_count_ok (memlist_free_block n p)"
  by (simp add: ml_count_ok_def memlist_free_block_def Let_def)

lemma add_span_ok:
  assumes "memlist_inv l" "unat a + unat b < 2 ^ 64" "b \<noteq> 0" "memlist_add_span a b p l = (r, p', l')"
  shows "memlist_inv l'" "memlist_freelist p' + length l' = memlist_freelist p + length l"
    "r = MEML_SPANOP_OK \<longleftrightarrow> memlist_freelist p \<noteq> 0 \<and> run (unat a, unat b) \<inter> addresses l = {}"
    "r = MEML_SPANOP_EALLOC \<longleftrightarrow> memlist_freelist p = 0"
    "r = MEML_SPANOP_OK \<Longrightarrow> addresses l' = run (unat a, unat b) \<union> addresses l"
    "r \<noteq> MEML_SPANOP_OK \<Longrightarrow> l' = l"
proof -
  have l: "fits64 l" "runs 1 0 (spans l)" "0 < unat b" using assms by (simp_all add: memlist_inv_def unat_gt_0)
  have *: "memlist_inv l' \<and> memlist_freelist p' + length l' = memlist_freelist p + length l \<and>
    (r = MEML_SPANOP_OK \<longleftrightarrow> memlist_freelist p \<noteq> 0 \<and> run (unat a, unat b) \<inter> addresses l = {}) \<and>
    (r = MEML_SPANOP_EALLOC \<longleftrightarrow> memlist_freelist p = 0) \<and>
    (r = MEML_SPANOP_OK \<longrightarrow> addresses l' = run (unat a, unat b) \<union> addresses l) \<and> (r \<noteq> MEML_SPANOP_OK \<longrightarrow> l' = l)"
  proof (cases "memlist_freelist p = 0")
    case True
    then show ?thesis using assms by (auto simp: memlist_add_span_def memlist_get_one_def)
  next
    case False
    define q where "q = snd (memlist_get_one p)"
    have q: "memlist_freelist q + 1 = memlist_freelist p" "add_span_loop a b q l = (r, p', l')"
      using False assms(4) by (auto simp: q_def memlist_add_span_def memlist_get_one_def)
    note s = add_span_loop_run [OF l(1,2) assms(2,3), of q, unfolded q(2), simplified]
    show ?thesis
    proof (cases "run (unat a, unat b) \<inter> addresses l = {}")
      case True
      from add_run_ok [OF l(2) _ l(3) this [unfolded addresses_def]] obtain ys where
        "add_run (unat a) (unat b) (spans l) = Some ys" "runs 1 0 ys" "cover ys = run (unat a, unat b) \<union> cover (spans l)" by auto
      then show ?thesis using s q(1) False True by (auto simp: memlist_inv_def addresses_def)
    next
      case ov: False
      from add_run_overlap [OF l(2,3) this [unfolded addresses_def]]
      show ?thesis using s q(1) False ov assms(1) by auto
    qed
  qed
  show "memlist_inv l'" "memlist_freelist p' + length l' = memlist_freelist p + length l"
    "r = MEML_SPANOP_OK \<longleftrightarrow> memlist_freelist p \<noteq> 0 \<and> run (unat a, unat b) \<inter> addresses l = {}"
    "r = MEML_SPANOP_EALLOC \<longleftrightarrow> memlist_freelist p = 0"
    "r = MEML_SPANOP_OK \<Longrightarrow> addresses l' = run (unat a, unat b) \<union> addresses l"
    "r \<noteq> MEML_SPANOP_OK \<Longrightarrow> l' = l" using * by blast+
qed

lemma delete_span_ok:
  assumes "memlist_inv l" "unat a + unat b < 2 ^ 64" "b \<noteq> 0" "memlist_delete_span a b p l = (r, p', l')"
  shows "memlist_inv l' \<and> memlist_freelist p' + length l' = memlist_freelist p + length l \<and>
    (r = MEML_SPANOP_ESPAN \<longleftrightarrow> \<not> run (unat a, unat b) \<subseteq> addresses l) \<and>
    (r = MEML_SPANOP_EALLOC \<longrightarrow> memlist_freelist p = 0) \<and>
    (r = MEML_SPANOP_OK \<longrightarrow> addresses l' = addresses l - run (unat a, unat b)) \<and> (r \<noteq> MEML_SPANOP_OK \<longrightarrow> l' = l)"
proof -
  have l: "fits64 l" "runs 1 0 (spans l)" "0 < unat b" using assms by (simp_all add: memlist_inv_def unat_gt_0)
  note s = delete_span_run [OF l(1,2) assms(2,3), of p, unfolded assms(4), simplified]
  show ?thesis
  proof (cases "run (unat a, unat b) \<subseteq> addresses l")
    case True
    from del_run_ok [OF l(2,3) this [unfolded addresses_def]] obtain ys where
      "del_run (unat a) (unat b) (spans l) = Some ys" "runs 1 0 ys" "cover ys = cover (spans l) - run (unat a, unat b)" by auto
    then show ?thesis using s True assms(1) by (auto simp: memlist_inv_def addresses_def)
  next
    case False
    from del_run_missing [OF l(2,3) this [unfolded addresses_def]] show ?thesis using s False assms(1) by auto
  qed
qed

text \<open>A list is determined by its set of addresses.\<close>

lemma spans_inj: "spans l = spans l' \<longleftrightarrow> l = l'"
proof
  show "spans l = spans l' \<Longrightarrow> l = l'"
    unfolding spans_def by (rule map_injective, assumption) (auto intro!: injI memlist.equality word_unat_eq_iff [THEN iffD2])
qed simp

lemma addresses_unique: "memlist_inv l \<Longrightarrow> memlist_inv l' \<Longrightarrow> addresses l = addresses l' \<Longrightarrow> l = l'"
  using runs_unique [of 0 "spans l" "spans l'"] by (simp add: memlist_inv_def addresses_def spans_inj)


subsection \<open>Insertion of elements\<close>

text \<open>\<open>memlist_insert()\<close> keeps spans in order; spans that touch are not merged.\<close>

lemma memlist_insert_loop_ok:
  assumes "fits64 l" "runs 0 lo (spans l)" "lo \<le> unat (ml_address new)" "0 < unat (ml_size new)"
    "unat (ml_address new) + unat (ml_size new) < 2 ^ 64"
  shows "case memlist_insert_loop new l of
      None \<Rightarrow> run (unat (ml_address new), unat (ml_size new)) \<inter> addresses l \<noteq> {}
    | Some l' \<Rightarrow> run (unat (ml_address new), unat (ml_size new)) \<inter> addresses l = {} \<and>
        mset l' = add_mset new (mset l) \<and> runs 0 lo (spans l')"
  using assms
proof (induction l arbitrary: lo)
  case (Cons e l)
  let ?c = "unat (ml_address e)" and ?n = "unat (ml_size e)"
  let ?a = "unat (ml_address new)" and ?b = "unat (ml_size new)"
  have w: "?c + ?n < 2 ^ 64" "0 < ?n" "runs 0 (?c + ?n) (spans l)" "fits64 l" "lo \<le> ?c" using Cons.prems by auto
  have c1: "ml_address new + ml_size new \<le> ml_address e \<longleftrightarrow> ?a + ?b \<le> ?c"
    using unat64_add [OF Cons.prems(5)] by (simp add: word_le_nat_alt)
  have c2: "ml_address e + ml_size e > ml_address new \<longleftrightarrow> ?a < ?c + ?n"
    using unat64_add [OF w(1)] by (simp add: word_less_nat_alt)
  consider "?a + ?b \<le> ?c" | "?c < ?a + ?b" "?a < ?c + ?n" | "?c + ?n \<le> ?a" by linarith
  then show ?case
  proof cases
    case 1
    have "run (?a, ?b) \<inter> cover (spans (e # l)) = {}" using 1 runs_lower [of 0 ?c "spans (e # l)"] w by fastforce
    then show ?thesis using 1 c1 Cons.prems w by (simp add: addresses_def)
  next
    case 2
    then have "max ?a ?c \<in> run (?a, ?b) \<inter> cover (spans (e # l))" using Cons.prems(4) w(2) by auto
    then have "run (?a, ?b) \<inter> addresses (e # l) \<noteq> {}" unfolding addresses_def by (metis emptyE)
    moreover have "memlist_insert_loop new (e # l) = None" using 2 c1 c2 by (simp add: Let_def)
    ultimately show ?thesis by simp
  next
    case 3
    have "run (?a, ?b) \<inter> run (?c, ?n) = {}" using 3 by auto
    then have a: "run (?a, ?b) \<inter> addresses (e # l) = run (?a, ?b) \<inter> addresses l" by (auto simp: addresses_def)
    have "memlist_insert_loop new (e # l) = map_option ((#) e) (memlist_insert_loop new l)"
      using 3 c1 c2 Cons.prems(4) by (simp add: Let_def)
    then show ?thesis using Cons.IH [OF w(4,3) 3 Cons.prems(4,5)] a w
      by (cases "memlist_insert_loop new l") auto
  qed
qed (auto simp: addresses_def)

lemma addresses_mset: "mset l = mset l' \<Longrightarrow> addresses l = addresses l'"
  by (drule mset_eq_setD) (simp add: addresses_def cover_def spans_def)

lemma addresses_cons: "addresses (e # l) = run (unat (ml_address e), unat (ml_size e)) \<union> addresses l"
  by (simp add: addresses_def)

lemma memlist_find_mem:
  assumes "fits64 l" "runs g lo (spans l)"
  shows "case memlist_find l a of
      None \<Rightarrow> unat a \<notin> addresses l
    | Some e \<Rightarrow> e \<in> set l \<and> unat a \<in> run (unat (ml_address e), unat (ml_size e))"
  using assms
proof (induction l arbitrary: lo)
  case (Cons e l)
  have "unat (ml_address e + ml_size e) = unat (ml_address e) + unat (ml_size e)" using Cons.prems by (intro unat64_add) simp
  then have "(ml_address e \<le> a \<and> a < ml_address e + ml_size e) \<longleftrightarrow> unat a \<in> run (unat (ml_address e), unat (ml_size e))"
    by (simp add: word_le_nat_alt word_less_nat_alt)
  moreover note Cons.IH [of "unat (ml_address e) + unat (ml_size e) + g"]
  ultimately show ?case using Cons.prems by (auto simp: addresses_cons split: option.splits)
qed (simp add: addresses_def)

lemma memlist_find_unique:
  assumes "fits64 l" "runs g lo (spans l)" "e \<in> set l" "unat a \<in> run (unat (ml_address e), unat (ml_size e))"
  shows "memlist_find l a = Some e"
  using assms
proof (induction l arbitrary: lo)
  case (Cons f l)
  have "unat (ml_address f + ml_size f) = unat (ml_address f) + unat (ml_size f)" using Cons.prems by (intro unat64_add) simp
  then have f: "(ml_address f \<le> a \<and> a < ml_address f + ml_size f) \<longleftrightarrow> unat a \<in> run (unat (ml_address f), unat (ml_size f))"
    by (simp add: word_le_nat_alt word_less_nat_alt)
  show ?case
  proof (cases "e = f")
    case True
    then show ?thesis using Cons.prems(4) f by simp
  next
    case False
    then have e: "e \<in> set l" using Cons.prems(3) by simp
    then have "unat a \<in> addresses l" using Cons.prems(4) by (force simp: addresses_def cover_def spans_def)
    then have "unat a \<notin> run (unat (ml_address f), unat (ml_size f))"
      using runs_disjoint [of g lo "unat (ml_address f)" "unat (ml_size f)" "spans l"] Cons.prems(2) by (auto simp: addresses_def)
    then show ?thesis using f Cons.IH e Cons.prems by auto
  qed
qed simp

subsection \<open>Sequences of operations\<close>

text \<open>
  What is done with one list and the freelist, every function of the file included. The caller may hold structures:
  those it took from the freelist or unlinked from the list, until it frees them or inserts them. The last field
  counts the structures that were ever given to the freelist in blocks. A span inserted by \<open>memlist_insert()\<close>, which does not merge,
  touches none of a list that is not empty.
\<close>

record ml_world =
  w_pool :: ml_pool
  w_list :: "memlist list"
  w_held :: nat
  w_given :: nat

definition apart :: "memlist \<Rightarrow> memlist list \<Rightarrow> bool" where
  "apart new l \<longleftrightarrow> ml_size new \<noteq> 0 \<and> unat (ml_address new) + unat (ml_size new) < 2 ^ 64 \<and> l \<noteq> [] \<and>
     (\<forall>e \<in> set l. ml_address new + ml_size new \<noteq> ml_address e \<and> ml_address e + ml_size e \<noteq> ml_address new)"

inductive memlist_step :: "ml_world \<Rightarrow> ml_world \<Rightarrow> bool" where
  add: "unat a + unat b < 2 ^ 64 \<Longrightarrow> b \<noteq> 0 \<Longrightarrow> memlist_add_span a b (w_pool w) (w_list w) = (r, p', l') \<Longrightarrow>
    memlist_step w (w\<lparr>w_pool := p', w_list := l'\<rparr>)"
| delete: "unat a + unat b < 2 ^ 64 \<Longrightarrow> b \<noteq> 0 \<Longrightarrow> memlist_delete_span a b (w_pool w) (w_list w) = (r, p', l') \<Longrightarrow>
    memlist_step w (w\<lparr>w_pool := p', w_list := l'\<rparr>)"
| free_block: "memlist_step w (w\<lparr>w_pool := memlist_free_block n (w_pool w), w_given := w_given w + unat (ucast (n div 32) :: uint32)\<rparr>)"
| free_list: "memlist_step w (w\<lparr>w_pool := memlist_free_list (w_list w) (w_pool w), w_list := []\<rparr>)"
| get_one: "memlist_get_one (w_pool w) = (got, p') \<Longrightarrow> memlist_step w (w\<lparr>w_pool := p', w_held := w_held w + of_bool got\<rparr>)"
| free_one: "0 < w_held w \<Longrightarrow> memlist_step w (w\<lparr>w_pool := memlist_free_one (w_pool w), w_held := w_held w - 1\<rparr>)"
| del: "i < length (w_list w) \<Longrightarrow> memlist_step w (w\<lparr>w_list := memlist_del i (w_list w), w_held := w_held w + 1\<rparr>)"
| insert: "0 < w_held w \<Longrightarrow> apart new (w_list w) \<Longrightarrow> memlist_insert new (w_list w) = Some l' \<Longrightarrow>
    memlist_step w (w\<lparr>w_list := l', w_held := w_held w - 1\<rparr>)"

definition memlist_good :: "ml_world \<Rightarrow> bool" where
  "memlist_good w \<longleftrightarrow> memlist_inv (w_list w) \<and> ml_count_ok (w_pool w)"

definition structures :: "ml_world \<Rightarrow> nat" where
  "structures w = memlist_freelist (w_pool w) + length (w_list w) + w_held w"

lemma runs_drop: "runs g lo (xs @ p # ys) \<Longrightarrow> runs g lo (xs @ ys)"
proof (induction xs arbitrary: lo)
  case Nil
  then show ?case by (cases p) (auto elim: runs_weaken)
qed auto

lemma memlist_del_inv:
  assumes "memlist_inv l" "i < length l"
  shows "memlist_inv (memlist_del i l)"
proof -
  have l: "l = take i l @ l ! i # drop (Suc i) l" using assms(2) by (rule id_take_nth_drop)
  have "spans l = spans (take i l) @ (unat (ml_address (l ! i)), unat (ml_size (l ! i))) # spans (drop (Suc i) l)"
    by (subst l) (simp add: spans_def)
  then have "runs 1 0 (spans (take i l) @ spans (drop (Suc i) l))"
    using assms(1) runs_drop [of 1 0 "spans (take i l)"] unfolding memlist_inv_def by metis
  then have "runs 1 0 (spans (take i l @ drop (Suc i) l))" by (simp add: spans_def)
  moreover have "set (memlist_del i l) \<subseteq> set l" by (auto simp: memlist_del_def dest: in_set_takeD in_set_dropD)
  ultimately show ?thesis using assms(1) by (auto simp: memlist_inv_def memlist_del_def fits64_def)
qed

lemma insert_loop_apart:
  assumes "fits64 l" "runs 1 lo (spans l)" "lo \<le> unat (ml_address new)" "ml_size new \<noteq> 0" "unat (ml_address new) + unat (ml_size new) < 2 ^ 64"
    "\<forall>e \<in> set l. ml_address new + ml_size new \<noteq> ml_address e \<and> ml_address e + ml_size e \<noteq> ml_address new"
    "memlist_insert_loop new l = Some l'"
  shows "runs 1 lo (spans l') \<and> fits64 l' \<and> length l' = Suc (length l)"
  using assms
proof (induction l arbitrary: lo l')
  case (Cons e l)
  let ?c = "unat (ml_address e)" and ?n = "unat (ml_size e)" and ?a = "unat (ml_address new)" and ?b = "unat (ml_size new)"
  have w: "?c + ?n < 2 ^ 64" "0 < ?n" "runs 1 (?c + ?n + 1) (spans l)" "fits64 l" "lo \<le> ?c" "0 < ?b" using Cons.prems by (auto simp: unat_gt_0)
  have e: "unat (ml_address e + ml_size e) = ?c + ?n" by (rule unat64_add [OF w(1)])
  have ab: "unat (ml_address new + ml_size new) = ?a + ?b" by (rule unat64_add [OF Cons.prems(5)])
  have t: "?a + ?b \<noteq> ?c" "?c + ?n \<noteq> ?a" using Cons.prems(6) e ab by (auto simp: word_unat_eq_iff)
  consider "?a + ?b < ?c" | "?c < ?a + ?b" "?a < ?c + ?n" | "?c + ?n < ?a" using t by linarith
  then show ?case
  proof cases
    case 1
    then have "l' = new # e # l" using Cons.prems(7) ab by (simp add: Let_def word_le_nat_alt)
    then show ?thesis using 1 w Cons.prems(3,5) by simp
  next
    case 2
    then show ?thesis using Cons.prems(7) e ab by (simp add: Let_def word_le_nat_alt word_less_nat_alt)
  next
    case 3
    then obtain m where m: "memlist_insert_loop new l = Some m" "l' = e # m"
      using Cons.prems(7) e ab by (auto simp: Let_def word_le_nat_alt word_less_nat_alt)
    have "?c + ?n + 1 \<le> ?a" "\<forall>x \<in> set l. ml_address new + ml_size new \<noteq> ml_address x \<and> ml_address x + ml_size x \<noteq> ml_address new"
      using 3 Cons.prems(6) by simp_all
    from Cons.IH [OF w(4,3) this(1) Cons.prems(4,5) this(2) m(1)] show ?thesis using m(2) w by simp
  qed
qed (auto simp: unat_gt_0)

lemma insert_apart:
  assumes "memlist_inv l" "apart new l" "memlist_insert new l = Some l'"
  shows "memlist_inv l'" "length l' = Suc (length l)"
proof -
  have "memlist_insert_loop new l = Some l'" using assms(2,3) by (simp add: memlist_insert_def apart_def)
  then have "runs 1 0 (spans l') \<and> fits64 l' \<and> length l' = Suc (length l)"
    using assms(1,2) by (intro insert_loop_apart) (simp_all add: memlist_inv_def apart_def)
  then show "memlist_inv l'" "length l' = Suc (length l)" by (simp_all add: memlist_inv_def)
qed

lemma memlist_step_good:
  "memlist_step w w' \<Longrightarrow> memlist_good w \<Longrightarrow> memlist_good w' \<and> structures w' + w_given w = structures w + w_given w'"
proof (induction rule: memlist_step.induct)
  case (add a b w r p' l')
  then show ?case using add_span_ok [of "w_list w" a b "w_pool w" r p' l'] add_span_count [of "w_pool w" a b "w_list w"]
    by (auto simp: memlist_good_def structures_def)
next
  case (delete a b w r p' l')
  then show ?case using delete_span_ok [of "w_list w" a b "w_pool w" r p' l'] delete_span_count [of "w_pool w" a b "w_list w"]
    by (auto simp: memlist_good_def structures_def)
next
  case (free_block w n)
  then show ?case by (simp add: memlist_good_def free_block_count structures_def) (simp add: memlist_free_block_def Let_def)
next
  case (free_list w)
  then show ?case by (simp add: memlist_good_def free_list_count memlist_inv_def structures_def) (simp add: memlist_free_list_def)
next
  case (get_one w got p')
  then have "ml_count_ok p'" using get_one_count [of "w_pool w"] by (simp add: memlist_good_def)
  then show ?case using get_one by (auto simp: memlist_good_def structures_def memlist_get_one_def split: if_splits)
next
  case (free_one w)
  then show ?case by (simp add: memlist_good_def free_one_count structures_def) (simp add: memlist_free_one_def)
next
  case (del i w)
  then show ?case by (simp add: memlist_good_def memlist_del_inv structures_def) (simp add: memlist_del_def)
next
  case (insert w new l')
  then show ?case using insert_apart [of "w_list w" new l'] by (simp add: memlist_good_def structures_def)
qed

subsection \<open>Properties\<close>

text \<open>
  C24: \<open>memlist_add_span()\<close> adds a span to the set of addresses of a list exactly when the freelist
  has a structure and no address of the span is there already. It answers \<open>EALLOC\<close> exactly when the
  freelist is empty, changes nothing on an error, keeps the list sorted, disjoint and merged, and
  neither loses nor duplicates a structure.
\<close>

theorem memlist_add_span_correct:
  assumes "memlist_inv l" "unat a + unat b < 2 ^ 64" "b \<noteq> 0"
  shows "case memlist_add_span a b p l of (r, p', l') \<Rightarrow>
     memlist_inv l' \<and> memlist_freelist p' + length l' = memlist_freelist p + length l \<and>
     (r = MEML_SPANOP_EALLOC \<longleftrightarrow> memlist_freelist p = 0) \<and>
     (r = MEML_SPANOP_OK \<longleftrightarrow> memlist_freelist p \<noteq> 0 \<and> run (unat a, unat b) \<inter> addresses l = {}) \<and>
     (r = MEML_SPANOP_OK \<longrightarrow> addresses l' = run (unat a, unat b) \<union> addresses l) \<and> (r \<noteq> MEML_SPANOP_OK \<longrightarrow> l' = l)"
  using add_span_ok [OF assms, of p] by (cases "memlist_add_span a b p l") auto

theorem memlist_add_span_correct_witness:
  "case memlist_add_span 0x1000 0x1000 \<lparr>memlist_freelist = 1, memlist_freelist_count = 1\<rparr>
       [\<lparr>ml_address = 0, ml_size = 0x1000\<rparr>, \<lparr>ml_address = 0x2000, ml_size = 0x1000\<rparr>]
   of (r, p', l') \<Rightarrow> memlist_inv l' \<and> memlist_freelist p' + length l' = 3"
proof -
  define l where "l = [\<lparr>ml_address = 0, ml_size = 0x1000\<rparr>, \<lparr>ml_address = 0x2000, ml_size = 0x1000\<rparr> :: memlist]"
  define p where "p = \<lparr>memlist_freelist = 1, memlist_freelist_count = 1\<rparr>"
  have "memlist_inv l" "memlist_freelist p + length l = 3" by (simp_all add: memlist_inv_def l_def p_def)
  then have "case memlist_add_span 0x1000 0x1000 p l of (r, p', l') \<Rightarrow> memlist_inv l' \<and> memlist_freelist p' + length l' = 3"
    using memlist_add_span_correct [of l "0x1000" "0x1000" p] by (simp add: split_def)
  then show ?thesis unfolding l_def p_def .
qed

text \<open>
  C25: \<open>memlist_delete_span()\<close> removes a span that is in the list from its set of addresses and
  answers \<open>ESPAN\<close> exactly when part of it is not there. It answers \<open>EALLOC\<close> only with an empty freelist,
  changes nothing on an error, and keeps the invariant and the number of structures.
\<close>

theorem memlist_delete_span_correct:
  assumes "memlist_inv l" "unat a + unat b < 2 ^ 64" "b \<noteq> 0"
  shows "case memlist_delete_span a b p l of (r, p', l') \<Rightarrow>
     memlist_inv l' \<and> memlist_freelist p' + length l' = memlist_freelist p + length l \<and>
     (r = MEML_SPANOP_ESPAN \<longleftrightarrow> \<not> run (unat a, unat b) \<subseteq> addresses l) \<and>
     (r = MEML_SPANOP_EALLOC \<longrightarrow> memlist_freelist p = 0) \<and>
     (r = MEML_SPANOP_OK \<longrightarrow> addresses l' = addresses l - run (unat a, unat b)) \<and> (r \<noteq> MEML_SPANOP_OK \<longrightarrow> l' = l)"
  using delete_span_ok [OF assms, of p] by (cases "memlist_delete_span a b p l") auto

theorem memlist_delete_span_correct_witness:
  "case memlist_delete_span 0x400 0x400 \<lparr>memlist_freelist = 1, memlist_freelist_count = 1\<rparr>
       [\<lparr>ml_address = 0, ml_size = 0x1000\<rparr>]
   of (r, p', l') \<Rightarrow> memlist_inv l' \<and> memlist_freelist p' + length l' = 2"
proof -
  define l where "l = [\<lparr>ml_address = 0, ml_size = 0x1000\<rparr> :: memlist]"
  define p where "p = \<lparr>memlist_freelist = 1, memlist_freelist_count = 1\<rparr>"
  have "memlist_inv l" "memlist_freelist p + length l = 2" by (simp_all add: memlist_inv_def l_def p_def)
  then have "case memlist_delete_span 0x400 0x400 p l of (r, p', l') \<Rightarrow> memlist_inv l' \<and> memlist_freelist p' + length l' = 2"
    using memlist_delete_span_correct [of l "0x400" "0x400" p] by (simp add: split_def)
  then show ?thesis unfolding l_def p_def .
qed

text \<open>
  C26: Deleting a span that was just added gives back the list as it was, or fails for want of a
  structure and leaves the list with the span.
\<close>

theorem memlist_add_delete_roundtrip:
  assumes "memlist_inv l" "unat a + unat b < 2 ^ 64" "b \<noteq> 0"
    "memlist_add_span a b p l = (MEML_SPANOP_OK, p', l')" "memlist_delete_span a b p' l' = (r, p'', l'')"
  shows "(r = MEML_SPANOP_OK \<longrightarrow> l'' = l) \<and> (r \<noteq> MEML_SPANOP_OK \<longrightarrow> r = MEML_SPANOP_EALLOC \<and> memlist_freelist p' = 0 \<and> l'' = l')"
proof -
  note a = add_span_ok [OF assms(1-4)]
  note d = delete_span_ok [OF a(1) assms(2,3,5)]
  have s: "addresses l' = run (unat a, unat b) \<union> addresses l" "run (unat a, unat b) \<inter> addresses l = {}" using a(3,5) by simp_all
  then have n: "r \<noteq> MEML_SPANOP_ESPAN" using d by blast
  have "l'' = l" if "r = MEML_SPANOP_OK"
    using d that s by (intro addresses_unique [OF _ assms(1)]) auto
  then show ?thesis using d n by (cases r) auto
qed

theorem memlist_add_delete_roundtrip_witness:
  "snd (snd (memlist_delete_span 0x1000 0x800 \<lparr>memlist_freelist = 1, memlist_freelist_count = 1\<rparr>
      [\<lparr>ml_address = 0, ml_size = 0x1800\<rparr>])) = [\<lparr>ml_address = 0, ml_size = 0x1000\<rparr>]"
proof -
  have "memlist_inv [\<lparr>ml_address = 0, ml_size = 0x1000\<rparr>]" by (simp add: memlist_inv_def)
  from memlist_add_delete_roundtrip [OF this, of "0x1000" "0x800" "\<lparr>memlist_freelist = 1, memlist_freelist_count = 1\<rparr>"
      "\<lparr>memlist_freelist = 1, memlist_freelist_count = 1\<rparr>" "[\<lparr>ml_address = 0, ml_size = 0x1800\<rparr>]"]
  show ?thesis by (simp add: memlist_add_span_def memlist_get_one_def memlist_free_one_def)
qed

text \<open>
  C27: whatever sequence of the operations is done with a list and the freelist, spans being added and deleted, elements unlinked,
  taken, freed and inserted (by \<open>memlist_insert()\<close> into a list that is not empty, where the new span touches no other), lists freed and blocks
  of structures given, the list stays sorted, disjoint and merged, and the structures on the freelist, in the list and held by the
  caller are exactly those there were and those given. The counter is the length of the freelist as long as there
  are fewer than \<open>2 ^ 32\<close> structures.
\<close>

theorem memlist_reach_inv:
  assumes "memlist_step\<^sup>*\<^sup>* w w'" "memlist_good w"
  shows "memlist_good w' \<and> structures w' + w_given w = structures w + w_given w' \<and>
    (structures w' < 2 ^ 32 \<longrightarrow> unat (memlist_freelist_count (w_pool w')) = memlist_freelist (w_pool w'))"
proof -
  have r: "memlist_good w' \<and> structures w' + w_given w = structures w + w_given w'"
    using assms
  proof (induction rule: rtranclp_induct)
    case (step y z)
    then show ?case using memlist_step_good [OF step.hyps(2)] by auto
  qed simp
  moreover have "unat (memlist_freelist_count (w_pool w')) = memlist_freelist (w_pool w')" if "structures w' < 2 ^ 32"
    using r that by (simp add: memlist_good_def ml_count_ok_def structures_def unat_of_nat)
  ultimately show ?thesis by blast
qed

theorem memlist_reach_inv_witness:
  "\<exists>w. memlist_step\<^sup>*\<^sup>* \<lparr>w_pool = \<lparr>memlist_freelist = 0, memlist_freelist_count = 0\<rparr>, w_list = [], w_held = 0, w_given = 0\<rparr> w \<and>
     w_list w = [\<lparr>ml_address = 0x1000, ml_size = 0x1000\<rparr>, \<lparr>ml_address = 0x4000, ml_size = 0x1000\<rparr>] \<and> structures w = 3 \<and>
     unat (memlist_freelist_count (w_pool w)) = memlist_freelist (w_pool w)"
proof -
  define w0 where "w0 = \<lparr>w_pool = \<lparr>memlist_freelist = 0, memlist_freelist_count = 0\<rparr>, w_list = [], w_held = 0, w_given = 0\<rparr>"
  define w1 where "w1 = \<lparr>w_pool = \<lparr>memlist_freelist = 3, memlist_freelist_count = 3\<rparr>, w_list = [], w_held = 0, w_given = 3\<rparr>"
  define w2 where "w2 = w1\<lparr>w_pool := \<lparr>memlist_freelist = 2, memlist_freelist_count = 2\<rparr>, w_list := [\<lparr>ml_address = 0x1000, ml_size = 0x1000\<rparr>]\<rparr>"
  define w3 where "w3 = w2\<lparr>w_pool := \<lparr>memlist_freelist = 1, memlist_freelist_count = 1\<rparr>, w_held := 1\<rparr>"
  define w4 where "w4 = w3\<lparr>w_list := [\<lparr>ml_address = 0x1000, ml_size = 0x1000\<rparr>, \<lparr>ml_address = 0x4000, ml_size = 0x1000\<rparr>], w_held := 0\<rparr>"
  have 1: "memlist_step w0 w1" using memlist_step.free_block [of w0 96] by (simp add: w0_def w1_def memlist_free_block_def Let_def)
  have 2: "memlist_step w1 w2"
    using memlist_step.add [of "0x1000" "0x1000" w1] by (simp add: w2_def w1_def memlist_add_span_def memlist_get_one_def)
  have 3: "memlist_step w2 w3" using memlist_step.get_one [of w2 True] by (simp add: w3_def w2_def w1_def memlist_get_one_def)
  have 4: "memlist_step w3 w4"
    using memlist_step.insert [of w3 "\<lparr>ml_address = 0x4000, ml_size = 0x1000\<rparr>"]
    by (simp add: w4_def w3_def w2_def w1_def apart_def memlist_insert_def)
  have r: "memlist_step\<^sup>*\<^sup>* w0 w4" using 1 2 3 4 by (meson r_into_rtranclp rtranclp_trans)
  have "memlist_good w0" by (simp add: w0_def memlist_good_def memlist_inv_def ml_count_ok_def)
  from memlist_reach_inv [OF r this]
  have "structures w4 + w_given w0 = structures w0 + w_given w4" "structures w4 < 2 ^ 32 \<longrightarrow> unat (memlist_freelist_count (w_pool w4)) = memlist_freelist (w_pool w4)" by simp_all
  then show ?thesis using r unfolding w0_def [symmetric]
    by (intro exI [of _ w4]) (simp add: w4_def w3_def w2_def w1_def structures_def)
qed

text \<open>
  C28: \<open>memlist_insert()\<close> on a list that is not empty panics exactly when the new span overlaps one of the
  list, and otherwise links the element in its place. An element inserted into an empty list is
  lost: the head is still null afterwards.
\<close>

theorem memlist_insert_correct:
  assumes "fits64 l" "runs 0 0 (spans l)" "ml_size new \<noteq> 0" "unat (ml_address new) + unat (ml_size new) < 2 ^ 64"
  shows "case memlist_insert new l of
      None \<Rightarrow> run (unat (ml_address new), unat (ml_size new)) \<inter> addresses l \<noteq> {}
    | Some l' \<Rightarrow> run (unat (ml_address new), unat (ml_size new)) \<inter> addresses l = {} \<and> runs 0 0 (spans l') \<and>
        (if l = [] then l' = [] else mset l' = add_mset new (mset l))"
proof (cases "l = []")
  case True
  then show ?thesis by (simp add: memlist_insert_def addresses_def)
next
  case False
  then show ?thesis using memlist_insert_loop_ok [OF assms(1,2) _ _ assms(4)] assms(3)
    by (auto simp: memlist_insert_def unat_gt_0 split: option.splits)
qed

theorem memlist_insert_correct_witness:
  "case memlist_insert \<lparr>ml_address = 0x1000, ml_size = 0x1000\<rparr> [\<lparr>ml_address = 0, ml_size = 0x1000\<rparr>] of
     None \<Rightarrow> False
   | Some l' \<Rightarrow> mset l' = {# \<lparr>ml_address = 0, ml_size = 0x1000\<rparr>, \<lparr>ml_address = 0x1000, ml_size = 0x1000\<rparr> #}"
  using memlist_insert_correct [of "[\<lparr>ml_address = 0, ml_size = 0x1000\<rparr>]" "\<lparr>ml_address = 0x1000, ml_size = 0x1000\<rparr>"]
  by (auto simp: addresses_def split: option.splits)

text \<open>
  C29: \<open>memlist_find()\<close> returns the one element of a sorted list whose span has the address, and null
  exactly when the address is in none of them.
\<close>

theorem memlist_find_correct:
  assumes "fits64 l" "runs 0 0 (spans l)"
  shows "(memlist_find l a = None \<longleftrightarrow> unat a \<notin> addresses l) \<and>
    (\<forall>e. memlist_find l a = Some e \<longleftrightarrow> e \<in> set l \<and> unat a \<in> run (unat (ml_address e), unat (ml_size e)))"
proof -
  note f = memlist_find_mem [OF assms, of a] and u = memlist_find_unique [OF assms, of _ a]
  have "memlist_find l a = None" if "unat a \<notin> addresses l"
  proof (rule ccontr)
    assume "memlist_find l a \<noteq> None"
    then obtain e where "e \<in> set l" "unat a \<in> run (unat (ml_address e), unat (ml_size e))" using f by auto
    then show False using that by (force simp: addresses_def cover_def spans_def)
  qed
  then show ?thesis using f u by (auto split: option.splits)
qed

theorem memlist_find_correct_witness:
  "memlist_find [\<lparr>ml_address = 0, ml_size = 0x1000\<rparr>] 0xfff \<noteq> None"
  using memlist_find_correct [of "[\<lparr>ml_address = 0, ml_size = 0x1000\<rparr>]" "0xfff"] by (simp add: addresses_def)

end
