(* ===== verification/Callout.thy ===== *)
theory Callout
  imports Kernel_Prelude
begin

section \<open>Callouts: callout.c\<close>

text \<open>
  Callout tables of \<open>uts/common/os/callout.c\<close> and \<open>uts/common/sys/callo.h\<close>. The memory for callout
  structures is a list, a pointer to one its index; a hash chain and the freelist are lists of
  pointers. The statistic \<open>ncallout\<close> is the total length of these memories. Identifiers and times are 64-bit words, and the comparisons of times are the signed
  ones of the code. What runs while \<open>ct_lock\<close> is held is one operation; \<open>callout_execute()\<close>, which
  drops the lock around each handler, is one operation for what it does up to the first handler
  (\<open>exec_begin\<close>) and one for what it does from the return of a handler to the next one (\<open>exec_resume\<close>).
\<close>

subsection \<open>Identifiers and hash functions\<close>

definition CALLOUT_EXECUTING :: ulong where "CALLOUT_EXECUTING = push_bit 63 1"
definition CALLOUT_LONGTERM :: ulong where "CALLOUT_LONGTERM = push_bit 62 1"
definition CALLOUT_COUNTER_HIGH :: ulong where "CALLOUT_COUNTER_HIGH = push_bit 61 1"
definition CALLOUT_FANOUT :: nat where "CALLOUT_FANOUT = 8"
definition CALLOUT_NTYPES :: nat where "CALLOUT_NTYPES = 2"
definition CALLOUT_COUNTER_LOW :: ulong where "CALLOUT_COUNTER_LOW = 16"
definition CALLOUT_TABLE_MASK :: ulong where "CALLOUT_TABLE_MASK = 15"
definition CALLOUT_LONGTERM_TICKS :: int where "CALLOUT_LONGTERM_TICKS = 0x4000"
definition CALLOUT_REALTIME :: nat where "CALLOUT_REALTIME = 0"
definition CALLOUT_NORMAL :: nat where "CALLOUT_NORMAL = 1"

definition CALLOUT_TABLE :: "nat \<Rightarrow> nat \<Rightarrow> nat" where
  "CALLOUT_TABLE t f = t * 8 + f mod 8"

text \<open>The shift of a \<open>long\<close> to the right keeps the bits 4 to 12, the only ones that are used.\<close>

definition CALLOUT_IDHASH :: "ulong \<Rightarrow> ulong" where "CALLOUT_IDHASH x = drop_bit 4 x AND 511"
definition CALLOUT_LBHASH :: "ulong \<Rightarrow> ulong" where "CALLOUT_LBHASH x = x AND 511"

subsection \<open>Structures\<close>

record callout =
  c_xid :: ulong
  c_runtime :: ulong
  c_func :: nat
  c_arg :: ulong
  c_executor :: nat

record callout_table =
  ct_mem :: "callout list"
  ct_freelist :: "nat list"
  ct_curtime :: ulong
  ct_runtime :: ulong
  ct_taskq :: bool
  ct_short_id :: ulong
  ct_long_id :: ulong
  ct_idhash :: "ulong \<Rightarrow> nat list"
  ct_lbhash :: "ulong \<Rightarrow> nat list"

definition callout_zero :: callout where
  "callout_zero = \<lparr>c_xid = 0, c_runtime = 0, c_func = 0, c_arg = 0, c_executor = 0\<rparr>"

definition is_executing :: "ulong \<Rightarrow> bool" where
  "is_executing xid \<longleftrightarrow> xid AND CALLOUT_EXECUTING \<noteq> 0"

definition CALLOUT_HASH_INSERT :: "nat \<Rightarrow> ulong \<Rightarrow> ulong \<Rightarrow> callout_table \<Rightarrow> callout_table" where
  "CALLOUT_HASH_INSERT cp xid runtime ct =
     ct\<lparr>ct_idhash := (ct_idhash ct)(CALLOUT_IDHASH xid := cp # ct_idhash ct (CALLOUT_IDHASH xid)),
        ct_lbhash := (ct_lbhash ct)(CALLOUT_LBHASH runtime := cp # ct_lbhash ct (CALLOUT_LBHASH runtime))\<rparr>"

definition CALLOUT_HASH_DELETE :: "nat \<Rightarrow> ulong \<Rightarrow> ulong \<Rightarrow> callout_table \<Rightarrow> callout_table" where
  "CALLOUT_HASH_DELETE cp xid runtime ct =
     ct\<lparr>ct_idhash := (ct_idhash ct)(CALLOUT_IDHASH xid := remove1 cp (ct_idhash ct (CALLOUT_IDHASH xid))),
        ct_lbhash := (ct_lbhash ct)(CALLOUT_LBHASH runtime := remove1 cp (ct_lbhash ct (CALLOUT_LBHASH runtime)))\<rparr>"

subsection \<open>Timeouts\<close>

text \<open>
  \<open>kmem_alloc()\<close> is an argument that says for which sizes an allocation succeeds; a
  \<open>callout_t\<close> has 80 bytes. None is the panic on a table overflow.
\<close>

definition callout_alloc :: "(nat \<Rightarrow> bool) \<Rightarrow> callout_table \<Rightarrow> (nat \<times> callout_table) option" where
  "callout_alloc kmem_alloc ct =
     (if list_ex kmem_alloc [80..<1000]
      then Some (length (ct_mem ct), ct\<lparr>ct_mem := ct_mem ct @ [callout_zero]\<rparr>)
      else None)"

definition next_id :: "ulong \<Rightarrow> ulong" where
  "next_id cid = (cid - CALLOUT_COUNTER_LOW) OR CALLOUT_COUNTER_HIGH"

definition timeout_common ::
  "(nat \<Rightarrow> bool) \<Rightarrow> ulong \<Rightarrow> nat \<Rightarrow> ulong \<Rightarrow> ulong \<Rightarrow> callout_table \<Rightarrow> (ulong \<times> callout_table) option" where
  "timeout_common kmem_alloc lbolt func arg delta ct =
     (case (case ct_freelist ct of
              [] \<Rightarrow> callout_alloc kmem_alloc ct
            | cp # fl \<Rightarrow> Some (cp, ct\<lparr>ct_freelist := fl\<rparr>)) of
        None \<Rightarrow> None
      | Some (cp, ct) \<Rightarrow>
          (let delta = (if sint delta \<le> 0 then 1 else delta);
               runtime = lbolt + delta;
               long = sint delta > CALLOUT_LONGTERM_TICKS;
               cid = next_id (if long then ct_long_id ct else ct_short_id ct);
               ct = (if long then ct\<lparr>ct_long_id := cid\<rparr> else ct\<lparr>ct_short_id := cid\<rparr>);
               c = (ct_mem ct ! cp)\<lparr>c_func := func, c_arg := arg, c_runtime := runtime, c_xid := cid\<rparr>
           in Some (cid, CALLOUT_HASH_INSERT cp cid runtime (ct\<lparr>ct_mem := (ct_mem ct)[cp := c]\<rparr>))))"

text \<open>
  The results of \<open>untimeout()\<close> on the table: the callout was cancelled with so many ticks left, it
  was not there, it runs in the calling thread, it runs elsewhere, so that the caller waits until
  the callout's \<open>c_xid\<close> has changed, or the identifier is impossible and the system panics.
\<close>

datatype ut_result = Ut_Left ulong | Ut_Gone | Ut_Self | Ut_Wait nat ulong | Ut_Panic

fun untimeout_find :: "callout list \<Rightarrow> ulong \<Rightarrow> nat list \<Rightarrow> nat option" where
  "untimeout_find mem cid [] = None"
| "untimeout_find mem cid (cp # l) =
     (if c_xid (mem ! cp) = cid \<or> c_xid (mem ! cp) = (cid OR CALLOUT_EXECUTING) then Some cp else untimeout_find mem cid l)"

definition untimeout_table :: "nat \<Rightarrow> ulong \<Rightarrow> ulong \<Rightarrow> callout_table \<Rightarrow> ut_result \<times> callout_table" where
  "untimeout_table curthread lbolt cid ct =
     (case untimeout_find (ct_mem ct) cid (ct_idhash ct (CALLOUT_IDHASH cid)) of
        Some cp \<Rightarrow>
          (let xid = c_xid (ct_mem ct ! cp)
           in if xid = cid
              then let runtime = c_runtime (ct_mem ct ! cp);
                       time_left = runtime - lbolt;
                       ct = CALLOUT_HASH_DELETE cp cid runtime ct
                   in (Ut_Left (if sint time_left < 0 then 0 else time_left), ct\<lparr>ct_freelist := cp # ct_freelist ct\<rparr>)
              else if c_executor (ct_mem ct ! cp) = curthread then (Ut_Self, ct)
              else (Ut_Wait cp xid, ct))
      | None \<Rightarrow>
          (if cid \<noteq> 0 \<and> cid AND (CALLOUT_COUNTER_HIGH OR CALLOUT_EXECUTING) \<noteq> CALLOUT_COUNTER_HIGH then (Ut_Panic, ct)
           else (Ut_Gone, ct)))"

definition wait_done :: "nat \<Rightarrow> ulong \<Rightarrow> callout_table \<Rightarrow> bool" where
  "wait_done cp xid ct \<longleftrightarrow> c_xid (ct_mem ct ! cp) \<noteq> xid"

subsection \<open>Executing callouts\<close>

text \<open>Where a thread in \<open>callout_execute()\<close> is: it has returned, or it runs a handler with the lock dropped.\<close>

datatype exec_pc = Exec_Done | Exec_Running nat ulong

definition is_due :: "callout list \<Rightarrow> ulong \<Rightarrow> nat \<Rightarrow> bool" where
  "is_due mem runtime cp \<longleftrightarrow> c_runtime (mem ! cp) = runtime \<and> \<not> is_executing (c_xid (mem ! cp))"

definition exec_start :: "nat \<Rightarrow> nat \<Rightarrow> callout_table \<Rightarrow> callout_table" where
  "exec_start curthread cp ct =
     ct\<lparr>ct_mem := (ct_mem ct)[cp := (ct_mem ct ! cp)\<lparr>c_executor := curthread,
                                      c_xid := c_xid (ct_mem ct ! cp) OR CALLOUT_EXECUTING\<rparr>]\<rparr>"

partial_function (option) exec_while :: "nat \<Rightarrow> callout_table \<Rightarrow> (exec_pc \<times> callout_table) option" where
  "exec_while curthread ct =
     (let runtime = ct_runtime ct
      in if sint (runtime - ct_curtime ct) \<le> 0
         then (case find (is_due (ct_mem ct) runtime) (ct_lbhash ct (CALLOUT_LBHASH runtime)) of
                 Some cp \<Rightarrow> Some (Exec_Running cp runtime, exec_start curthread cp ct)
               | None \<Rightarrow> exec_while curthread (ct\<lparr>ct_runtime := runtime + 1\<rparr>))
         else Some (Exec_Done, ct))"

definition exec_begin :: "nat \<Rightarrow> callout_table \<Rightarrow> (exec_pc \<times> callout_table) option" where
  "exec_begin curthread ct = exec_while curthread ct"

definition exec_resume :: "nat \<Rightarrow> nat \<Rightarrow> ulong \<Rightarrow> callout_table \<Rightarrow> (exec_pc \<times> callout_table) option" where
  "exec_resume curthread cp runtime ct =
     (let rest = tl (dropWhile (\<lambda>q. q \<noteq> cp) (ct_lbhash ct (CALLOUT_LBHASH runtime)));
          ct = CALLOUT_HASH_DELETE cp (c_xid (ct_mem ct ! cp)) runtime ct;
          ct = ct\<lparr>ct_freelist := cp # ct_freelist ct, ct_mem := (ct_mem ct)[cp := (ct_mem ct ! cp)\<lparr>c_xid := 0\<rparr>]\<rparr>
      in case find (is_due (ct_mem ct) runtime) rest of
           Some cp' \<Rightarrow> Some (Exec_Running cp' runtime, exec_start curthread cp' ct)
         | None \<Rightarrow> exec_while curthread (if ct_runtime ct = runtime then ct\<lparr>ct_runtime := runtime + 1\<rparr> else ct))"

subsection \<open>Scheduling\<close>

text \<open>The result says whether \<open>callout_execute()\<close> was dispatched for the table.\<close>

partial_function (option) schedule_while :: "ulong \<Rightarrow> callout_table \<Rightarrow> (bool \<times> callout_table) option" where
  "schedule_while curtime ct =
     (let runtime = ct_runtime ct
      in if sint (runtime - curtime) \<le> 0
         then (case find (is_due (ct_mem ct) runtime) (ct_lbhash ct (CALLOUT_LBHASH runtime)) of
                 Some cp \<Rightarrow> Some (True, ct)
               | None \<Rightarrow> schedule_while curtime (ct\<lparr>ct_runtime := runtime + 1\<rparr>))
         else Some (False, ct))"

definition callout_schedule_1 :: "ulong \<Rightarrow> callout_table \<Rightarrow> (bool \<times> callout_table) option" where
  "callout_schedule_1 lbolt ct = schedule_while lbolt (ct\<lparr>ct_curtime := lbolt\<rparr>)"

subsection \<open>The tables of the system\<close>

record callout_state =
  cpr_stop_callout :: bool
  callout_fanout :: nat
  callout_table :: "nat list"
  tables :: "callout_table list"

definition table_zero :: "nat \<Rightarrow> ulong \<Rightarrow> bool \<Rightarrow> callout_table" where
  "table_zero table_id lbolt taskq =
     (let short_id = word_of_nat table_id OR CALLOUT_COUNTER_HIGH
      in \<lparr>ct_mem = [], ct_freelist = [], ct_curtime = lbolt, ct_runtime = lbolt, ct_taskq = taskq,
          ct_short_id = short_id, ct_long_id = short_id OR CALLOUT_LONGTERM,
          ct_idhash = (\<lambda>_. []), ct_lbhash = (\<lambda>_. [])\<rparr>)"

definition init_one :: "ulong \<Rightarrow> callout_state \<Rightarrow> nat \<times> nat \<Rightarrow> callout_state" where
  "init_one lbolt s tf =
     (case tf of (t, f) \<Rightarrow>
        let table_id = CALLOUT_TABLE t f
        in if f \<ge> callout_fanout s
           then s\<lparr>callout_table := (callout_table s)[table_id := callout_table s ! (table_id - callout_fanout s)]\<rparr>
           else s\<lparr>callout_table := (callout_table s)[table_id := length (tables s)],
                  tables := tables s @ [table_zero table_id lbolt (t = CALLOUT_NORMAL)]\<rparr>)"

definition callout_init :: "nat \<Rightarrow> ulong \<Rightarrow> callout_state" where
  "callout_init max_ncpus lbolt =
     foldl (init_one lbolt)
       \<lparr>cpr_stop_callout = False, callout_fanout = min CALLOUT_FANOUT max_ncpus,
        callout_table = replicate 16 0, tables = []\<rparr>
       (List.product [0..<CALLOUT_NTYPES] [0..<CALLOUT_FANOUT])"

definition timeout_type ::
  "nat \<Rightarrow> (nat \<Rightarrow> bool) \<Rightarrow> nat \<Rightarrow> ulong \<Rightarrow> nat \<Rightarrow> ulong \<Rightarrow> ulong \<Rightarrow> callout_state \<Rightarrow> (ulong \<times> callout_state) option" where
  "timeout_type t kmem_alloc cpu_seqid lbolt func arg delta s =
     (let i = callout_table s ! CALLOUT_TABLE t cpu_seqid
      in map_option (\<lambda>(cid, ct). (cid, s\<lparr>tables := (tables s)[i := ct]\<rparr>))
           (timeout_common kmem_alloc lbolt func arg delta (tables s ! i)))"

definition timeout where "timeout = timeout_type CALLOUT_NORMAL"
definition realtime_timeout where "realtime_timeout = timeout_type CALLOUT_REALTIME"

definition untimeout :: "nat \<Rightarrow> ulong \<Rightarrow> ulong \<Rightarrow> callout_state \<Rightarrow> ut_result \<times> callout_state" where
  "untimeout curthread lbolt cid s =
     (let i = callout_table s ! unat (cid AND CALLOUT_TABLE_MASK);
          (r, ct) = untimeout_table curthread lbolt cid (tables s ! i)
      in (r, s\<lparr>tables := (tables s)[i := ct]\<rparr>))"

text \<open>\<open>callout_schedule()\<close> returns the numbers of the tables for which an execution was dispatched.\<close>

fun schedule_tables :: "ulong \<Rightarrow> (nat \<times> nat) list \<Rightarrow> callout_state \<Rightarrow> (nat list \<times> callout_state) option" where
  "schedule_tables lbolt [] s = Some ([], s)"
| "schedule_tables lbolt ((t, f) # tfs) s =
     (let i = callout_table s ! CALLOUT_TABLE t f
      in case callout_schedule_1 lbolt (tables s ! i) of
           None \<Rightarrow> None
         | Some (d, ct) \<Rightarrow>
             map_option (\<lambda>(ds, s). (if d then i # ds else ds, s)) (schedule_tables lbolt tfs (s\<lparr>tables := (tables s)[i := ct]\<rparr>)))"

definition callout_schedule :: "ulong \<Rightarrow> callout_state \<Rightarrow> (nat list \<times> callout_state) option" where
  "callout_schedule lbolt s =
     (if cpr_stop_callout s then Some ([], s)
      else schedule_tables lbolt (List.product [0..<CALLOUT_NTYPES] [0..<callout_fanout s]) s)"

definition callout_cpr_callb :: "bool \<Rightarrow> callout_state \<Rightarrow> callout_state" where
  "callout_cpr_callb checkpoint s = s\<lparr>cpr_stop_callout := checkpoint\<rparr>"

end
