(* ===== verification/Callout_Loops.thy ===== *)
theory Callout_Loops
  imports Callout
begin

text \<open>
  The times and identifiers of callouts: signed comparison of times, the loops over the run times,
  which end and find the first time at which a callout is due, and the identifiers as a table
  number with a counter.
\<close>

subsection \<open>Signed comparison of times\<close>

lemma sint_inc:
  assumes "sint (x :: ulong) \<le> 0"
  shows "sint (x + 1) = sint x + 1"
proof -
  have "- (2 ^ 63) \<le> sint x" using sint_greater_eq [of x] by simp
  then show ?thesis using assms by (simp add: sint_word_ariths signed_take_bit_int_eq_self)
qed

lemma sint_diff_le:
  assumes "unat (a :: ulong) < 2 ^ 63" "unat b < 2 ^ 63"
  shows "sint (a - b) = int (unat a) - int (unat b)"
proof -
  have "int (unat a) < int (2 ^ 63)" "int (unat b) < int (2 ^ 63)" using assms by (simp_all only: of_nat_less_iff)
  then have u: "uint a < 2 ^ 63" "uint b < 2 ^ 63" by simp_all
  have "0 \<le> uint a" "0 \<le> uint b" by simp_all
  then have t: "signed_take_bit 63 (uint a) = uint a" "signed_take_bit 63 (uint b) = uint b"
    "signed_take_bit 63 (uint a - uint b) = uint a - uint b"
    using u by (intro signed_take_bit_int_eq_self; linarith)+
  then have "sint a = uint a" "sint b = uint b" by (simp_all add: sint_uint)
  then show ?thesis using t(3) by (simp add: sint_word_ariths)
qed

lemma unat_inc: "unat (a :: ulong) < 2 ^ 63 \<Longrightarrow> unat (a + 1) = unat a + 1"
  by (simp add: unat_word_ariths)

lemma callout_flag_bits:
  "bit CALLOUT_EXECUTING n \<longleftrightarrow> n = 63" "bit CALLOUT_LONGTERM n \<longleftrightarrow> n = 62" "bit CALLOUT_COUNTER_HIGH n \<longleftrightarrow> n = 61"
  unfolding CALLOUT_EXECUTING_def CALLOUT_LONGTERM_def CALLOUT_COUNTER_HIGH_def bit_push_bit_iff by (auto simp: bit_1_iff)

lemma is_executing_bit: "is_executing x \<longleftrightarrow> bit x 63"
proof
  assume "is_executing x"
  then obtain n where "bit (x AND CALLOUT_EXECUTING) n" by (auto simp: is_executing_def bit_eq_iff)
  then show "bit x 63" by (auto simp: bit_and_iff callout_flag_bits)
next
  assume "bit x 63"
  then have "bit (x AND CALLOUT_EXECUTING) 63" by (simp add: bit_and_iff callout_flag_bits)
  then show "is_executing x" by (auto simp: is_executing_def)
qed

lemma executing_bits:
  "CALLOUT_IDHASH (x OR CALLOUT_EXECUTING) = CALLOUT_IDHASH x"
  "is_executing (x OR CALLOUT_EXECUTING)"
proof -
  show "is_executing (x OR CALLOUT_EXECUTING)" by (simp add: is_executing_bit bit_or_iff callout_flag_bits)
  have m: "(511 :: ulong) = mask 9" by (simp add: mask_eq_exp_minus_1)
  show "CALLOUT_IDHASH (x OR CALLOUT_EXECUTING) = CALLOUT_IDHASH x"
    unfolding CALLOUT_IDHASH_def m
    by (rule bit_eqI) (auto simp: bit_and_iff bit_or_iff bit_drop_bit_eq bit_mask_iff callout_flag_bits)
qed

subsection \<open>The loops over the run times\<close>

definition turns :: "ulong \<Rightarrow> ulong \<Rightarrow> nat" where
  "turns runtime curtime = nat (1 - sint (runtime - curtime))"

lemma turns_dec: "sint (r - c) \<le> 0 \<Longrightarrow> turns (r + 1) c < turns r c"
proof -
  assume a: "sint (r - c) \<le> 0"
  have "r + 1 - c = (r - c) + 1" by simp
  then have "sint (r + 1 - c) = sint (r - c) + 1" using sint_inc [OF a] by metis
  then show ?thesis using a by (simp add: turns_def)
qed

lemma schedule_while_total: "\<exists>d t. schedule_while c ct = Some (d, ct\<lparr>ct_runtime := t\<rparr>)"
proof (induction "turns (ct_runtime ct) c" arbitrary: ct rule: less_induct)
  case less
  let ?r = "ct_runtime ct"
  let ?f = "find (is_due (ct_mem ct) ?r) (ct_lbhash ct (CALLOUT_LBHASH ?r))"
  consider "\<not> sint (?r - c) \<le> 0" | cp where "sint (?r - c) \<le> 0" "?f = Some cp" | "sint (?r - c) \<le> 0" "?f = None"
    by (cases ?f) auto
  then show ?case
  proof cases
    case 3
    then have "schedule_while c ct = schedule_while c (ct\<lparr>ct_runtime := ?r + 1\<rparr>)"
      by (subst schedule_while.simps) (simp add: Let_def)
    then show ?thesis using less [of "ct\<lparr>ct_runtime := ?r + 1\<rparr>"] turns_dec [OF 3(1)] by simp
  qed (auto simp: schedule_while.simps [of c ct] Let_def intro: exI [of _ ?r])
qed

text \<open>\<open>callout_execute()\<close> searches as \<open>callout_schedule_1()\<close> does, and starts what it finds.\<close>

definition start_found :: "nat \<Rightarrow> bool \<times> callout_table \<Rightarrow> exec_pc \<times> callout_table" where
  "start_found th r =
     (let ct = snd r
      in if fst r
         then case find (is_due (ct_mem ct) (ct_runtime ct)) (ct_lbhash ct (CALLOUT_LBHASH (ct_runtime ct))) of
                Some cp \<Rightarrow> (Exec_Running cp (ct_runtime ct), exec_start th cp ct)
              | None \<Rightarrow> (Exec_Done, ct)
         else (Exec_Done, ct))"

lemma exec_while_schedule: "exec_while th ct = map_option (start_found th) (schedule_while (ct_curtime ct) ct)"
proof (induction "turns (ct_runtime ct) (ct_curtime ct)" arbitrary: ct rule: less_induct)
  case less
  let ?r = "ct_runtime ct" and ?c = "ct_curtime ct"
  let ?f = "find (is_due (ct_mem ct) ?r) (ct_lbhash ct (CALLOUT_LBHASH ?r))"
  consider "\<not> sint (?r - ?c) \<le> 0" | cp where "sint (?r - ?c) \<le> 0" "?f = Some cp" | "sint (?r - ?c) \<le> 0" "?f = None"
    by (cases ?f) auto
  then show ?case
  proof cases
    case 3
    then have "schedule_while ?c ct = schedule_while ?c (ct\<lparr>ct_runtime := ?r + 1\<rparr>)"
      "exec_while th ct = exec_while th (ct\<lparr>ct_runtime := ?r + 1\<rparr>)"
      by (subst schedule_while.simps exec_while.simps, simp add: Let_def)+
    then show ?thesis using less [of "ct\<lparr>ct_runtime := ?r + 1\<rparr>"] turns_dec [OF 3(1)] by simp
  qed (simp_all add: schedule_while.simps [of ?c ct] exec_while.simps [of th ct] Let_def start_found_def)
qed

text \<open>What the search finds, for times below \<open>2 ^ 62\<close> ticks.\<close>

lemma schedule_while_finds:
  assumes "unat c < 2 ^ 62" "unat (ct_runtime ct) \<le> 2 ^ 62"
  shows "\<exists>d t. schedule_while c ct = Some (d, ct\<lparr>ct_runtime := t\<rparr>) \<and> unat (ct_runtime ct) \<le> unat t \<and>
    unat t \<le> max (unat (ct_runtime ct)) (unat c + 1) \<and>
    (\<forall>s. unat (ct_runtime ct) \<le> unat s \<and> unat s < unat t \<longrightarrow> find (is_due (ct_mem ct) s) (ct_lbhash ct (CALLOUT_LBHASH s)) = None) \<and>
    (if d then unat t \<le> unat c \<and> find (is_due (ct_mem ct) t) (ct_lbhash ct (CALLOUT_LBHASH t)) \<noteq> None else unat c < unat t)"
  using assms
proof (induction "turns (ct_runtime ct) c" arbitrary: ct rule: less_induct)
  case less
  let ?r = "ct_runtime ct"
  let ?f = "find (is_due (ct_mem ct) ?r) (ct_lbhash ct (CALLOUT_LBHASH ?r))"
  have cmp: "sint (?r - c) \<le> 0 \<longleftrightarrow> unat ?r \<le> unat c" using less.prems sint_diff_le [of ?r c] by (simp add: del: of_nat_unat)
  consider "\<not> unat ?r \<le> unat c" | cp where "unat ?r \<le> unat c" "?f = Some cp" | "unat ?r \<le> unat c" "?f = None"
    by (cases ?f) auto
  then show ?case
  proof cases
    case 3
    have i: "unat (?r + 1) = unat ?r + 1" using less.prems by (intro unat_inc) simp
    have e: "schedule_while c ct = schedule_while c (ct\<lparr>ct_runtime := ?r + 1\<rparr>)"
      using 3 cmp by (subst schedule_while.simps) (simp add: Let_def)
    define nx where "nx = ct\<lparr>ct_runtime := ?r + 1\<rparr>"
    have n: "ct_runtime nx = ?r + 1" "ct_mem nx = ct_mem ct" "ct_lbhash nx = ct_lbhash ct"
      "\<And>t. nx\<lparr>ct_runtime := t\<rparr> = ct\<lparr>ct_runtime := t\<rparr>" by (simp_all add: nx_def)
    have "turns (ct_runtime nx) c < turns ?r c" "unat (ct_runtime nx) \<le> 2 ^ 62"
      using turns_dec [of ?r c] cmp 3 i less.prems n by simp_all
    from less.hyps [OF this(1) less.prems(1) this(2), unfolded n i] obtain d t where dt:
      "schedule_while c nx = Some (d, ct\<lparr>ct_runtime := t\<rparr>)" "unat ?r + 1 \<le> unat t" "unat t \<le> max (unat ?r + 1) (unat c + 1)"
      "\<And>s. unat ?r + 1 \<le> unat s \<Longrightarrow> unat s < unat t \<Longrightarrow> find (is_due (ct_mem ct) s) (ct_lbhash ct (CALLOUT_LBHASH s)) = None"
      "if d then unat t \<le> unat c \<and> find (is_due (ct_mem ct) t) (ct_lbhash ct (CALLOUT_LBHASH t)) \<noteq> None else unat c < unat t"
      by blast
    have "find (is_due (ct_mem ct) s) (ct_lbhash ct (CALLOUT_LBHASH s)) = None" if "unat ?r \<le> unat s" "unat s < unat t" for s
    proof (cases "s = ?r")
      case True
      then show ?thesis using 3 by simp
    next
      case False
      then have "unat ?r \<noteq> unat s" by (metis word_unat_eq_iff)
      then show ?thesis using dt(4) that by simp
    qed
    then have q: "\<forall>s. unat ?r \<le> unat s \<and> unat s < unat t \<longrightarrow> find (is_due (ct_mem ct) s) (ct_lbhash ct (CALLOUT_LBHASH s)) = None"
      by blast
    have "schedule_while c ct = Some (d, ct\<lparr>ct_runtime := t\<rparr>)" using e dt(1) unfolding nx_def by (rule trans)
    moreover have "unat ?r \<le> unat t" "unat t \<le> max (unat ?r) (unat c + 1)" using dt(2,3) 3 by simp_all
    ultimately show ?thesis using q dt(5) by blast
  next
    case 1
    have "schedule_while c ct = Some (False, ct\<lparr>ct_runtime := ?r\<rparr>)"
      using 1 cmp by (subst schedule_while.simps) (simp add: Let_def)
    then show ?thesis using 1 by (intro exI [of _ False] exI [of _ ?r] conjI allI impI) simp_all
  next
    case 2
    have "schedule_while c ct = Some (True, ct\<lparr>ct_runtime := ?r\<rparr>)"
      using 2 cmp by (subst schedule_while.simps) (simp add: Let_def)
    then show ?thesis using 2 by (intro exI [of _ True] exI [of _ ?r] conjI allI impI) (simp_all, linarith)
  qed
qed

subsection \<open>Identifiers\<close>

text \<open>An identifier of table \<open>t\<close>: the table, a counter of 57 bits, its high bit, and the long-term bit.\<close>

definition mkid :: "nat \<Rightarrow> bool \<Rightarrow> nat \<Rightarrow> ulong" where
  "mkid t long c = word_of_nat (t + 16 * c + 2 ^ 61 + (if long then 2 ^ 62 else 0))"

lemma mkid_unat:
  assumes "t < 16" "c < 2 ^ 57"
  shows "unat (mkid t long c) = t + 16 * c + 2 ^ 61 + (if long then 2 ^ 62 else 0)"
proof -
  define n where "n = t + 16 * c + 2 ^ 61 + (if long then 2 ^ 62 else 0)"
  have "n < 2 ^ 64" using assms by (simp add: n_def)
  then have "unat (word_of_nat n :: ulong) = n" by (simp add: unsigned_of_nat take_bit_nat_eq_self)
  then show ?thesis unfolding mkid_def n_def .
qed

lemma bit_unat: "n < 64 \<Longrightarrow> bit (x :: ulong) n \<longleftrightarrow> odd (unat x div 2 ^ n)"
proof -
  assume "n < 64"
  then have "bit x n \<longleftrightarrow> bit (unat x) n" by (simp add: bit_unsigned_iff)
  then show ?thesis by (simp only: bit_iff_odd [of "unat x"])
qed

lemma mkid_bits:
  assumes "t < 16" "c < 2 ^ 57"
  shows "bit (mkid t long c) 61" "bit (mkid t long c) 62 \<longleftrightarrow> long" "\<not> bit (mkid t long c) 63"
    "unat (mkid t long c AND CALLOUT_TABLE_MASK) = t"
proof -
  define k where "k = t + 16 * c"
  have k: "k < 2 ^ 61" using assms by (simp add: k_def)
  have u: "unat (mkid t long c) = k + 2 ^ 61 + (if long then 2 ^ 62 else 0)" using mkid_unat [OF assms] by (simp add: k_def)
  have "unat (mkid t long c) div 2 ^ 61 = (if long then 3 else 1)" unfolding u using k by auto
  then show "bit (mkid t long c) 61" by (simp add: bit_unat)
  have "unat (mkid t long c) div 2 ^ 62 = (if long then 1 else 0)" unfolding u using k by auto
  then show "bit (mkid t long c) 62 \<longleftrightarrow> long" by (simp add: bit_unat)
  have "unat (mkid t long c) div 2 ^ 63 = 0" unfolding u using k by auto
  then show "\<not> bit (mkid t long c) 63" by (simp add: bit_unat)
  have "CALLOUT_TABLE_MASK = mask 4" by (simp add: CALLOUT_TABLE_MASK_def mask_eq_exp_minus_1)
  then have "mkid t long c AND CALLOUT_TABLE_MASK = take_bit 4 (mkid t long c)" by (simp add: take_bit_eq_mask)
  then have "unat (mkid t long c AND CALLOUT_TABLE_MASK) = take_bit 4 (unat (mkid t long c))" by (simp add: unsigned_take_bit_eq)
  also have "\<dots> = (t + 16 * (c + 2 ^ 57 + (if long then 2 ^ 58 else 0))) mod 16"
    using mkid_unat [OF assms, of long] by (simp add: take_bit_eq_mod add.assoc add.commute)
  also have "\<dots> = t" using assms(1) by (simp only: mod_mult_self2) simp
  finally show "unat (mkid t long c AND CALLOUT_TABLE_MASK) = t" .
qed

lemma or_high:
  "bit x 61 \<Longrightarrow> x OR CALLOUT_COUNTER_HIGH = x"
  "\<not> bit x 61 \<Longrightarrow> x OR CALLOUT_COUNTER_HIGH = x + CALLOUT_COUNTER_HIGH"
proof -
  show "bit x 61 \<Longrightarrow> x OR CALLOUT_COUNTER_HIGH = x"
    by (rule bit_eqI) (auto simp: bit_or_iff callout_flag_bits)
  assume "\<not> bit x 61"
  then have "x AND CALLOUT_COUNTER_HIGH = 0" by (intro bit_eqI) (auto simp: bit_and_iff callout_flag_bits)
  then show "x OR CALLOUT_COUNTER_HIGH = x + CALLOUT_COUNTER_HIGH" by (rule disjunctive_add_eq_or [symmetric])
qed

lemma next_mkid:
  assumes "t < 16" "c < 2 ^ 57"
  shows "next_id (mkid t long c) = mkid t long (if c = 0 then 2 ^ 57 - 1 else c - 1)"
proof (cases c)
  case 0
  have h: "CALLOUT_COUNTER_HIGH = 2 ^ 61" by (simp add: CALLOUT_COUNTER_HIGH_def)
  have s: "unat (mkid t long c - 16) = t + 2 ^ 61 + (if long then 2 ^ 62 else 0) - 16"
    using mkid_unat [OF assms] 0 by (subst unat_sub) (simp_all add: word_le_nat_alt)
  then have "unat (mkid t long c - 16) div 2 ^ 61 = (if long then 2 else 0)" using assms by (auto split: if_splits)
  then have "\<not> bit (mkid t long c - 16) 61" by (simp add: bit_unat)
  then have n: "next_id (mkid t long c) = mkid t long c - 16 + 2 ^ 61"
    using or_high(2) h by (simp add: next_id_def CALLOUT_COUNTER_LOW_def)
  have "mkid t long c - 16 + 2 ^ 61 = mkid t long (2 ^ 57 - 1)" using 0 by (simp add: mkid_def)
  then show ?thesis using n 0 by simp
next
  case (Suc d)
  have d: "d < 2 ^ 57" using Suc assms by simp
  have "mkid t long c - 16 = mkid t long d" by (simp add: mkid_def Suc)
  then show ?thesis using or_high(1) [OF mkid_bits(1) [OF assms(1) d]] Suc by (simp add: next_id_def CALLOUT_COUNTER_LOW_def)
qed

lemma next_mkid_iter:
  assumes "t < 16" "c < 2 ^ 57"
  shows "(next_id ^^ k) (mkid t long c) = mkid t long (nat ((int c - int k) mod 2 ^ 57))"
proof (induction k)
  case 0
  have "int c mod 2 ^ 57 = int c" using assms(2) by (intro mod_pos_pos_trivial) simp_all
  then show ?case by simp
next
  case (Suc k)
  define z where "z = (int c - int k) mod 2 ^ 57"
  have z: "0 \<le> z" "z < 2 ^ 57" by (simp_all add: z_def)
  have "(int c - int (Suc k)) mod 2 ^ 57 = (z - 1) mod 2 ^ 57" unfolding z_def by (simp add: mod_diff_left_eq algebra_simps)
  also have "\<dots> = (if z = 0 then 2 ^ 57 - 1 else z - 1)" using z by (simp add: mod_pos_pos_trivial zmod_minus1)
  finally have "nat ((int c - int (Suc k)) mod 2 ^ 57) = (if nat z = 0 then 2 ^ 57 - 1 else nat z - 1)" using z by auto
  moreover have "next_id (mkid t long (nat z)) = mkid t long (if nat z = 0 then 2 ^ 57 - 1 else nat z - 1)"
    using z by (intro next_mkid assms(1)) (simp add: nat_less_iff)
  ultimately show ?case using Suc by (simp only: funpow.simps comp_apply z_def)
qed

lemma mkid_inj:
  assumes "t < 16" "c < 2 ^ 57" "c' < 2 ^ 57" "mkid t long c = mkid t long c'"
  shows "c = c'"
proof -
  have "t + 16 * c + 2 ^ 61 + (if long then 2 ^ 62 else 0) = t + 16 * c' + 2 ^ 61 + (if long then 2 ^ 62 else 0)"
    using mkid_unat [OF assms(1,2), of long] mkid_unat [OF assms(1,3), of long] assms(4) by (simp only:)
  then show ?thesis by simp
qed

definition id_ok :: "nat \<Rightarrow> bool \<Rightarrow> ulong \<Rightarrow> bool" where
  "id_ok t long i \<longleftrightarrow> (\<exists>c < 2 ^ 57. i = mkid t long c)"

lemma id_ok_next: "t < 16 \<Longrightarrow> id_ok t long i \<Longrightarrow> id_ok t long (next_id i)"
proof -
  assume t: "t < 16" and "id_ok t long i"
  then obtain c where c: "c < 2 ^ 57" "i = mkid t long c" by (auto simp: id_ok_def)
  have "(if c = 0 then 2 ^ 57 - 1 else c - 1) < 2 ^ 57" using c(1) by (cases c) simp_all
  then show ?thesis using next_mkid [OF t c(1), of long] c(2) unfolding id_ok_def by metis
qed

lemma id_ok_bits:
  assumes "t < 16" "id_ok t long i"
  shows "bit i 61" "bit i 62 \<longleftrightarrow> long" "\<not> is_executing i" "unat (i AND CALLOUT_TABLE_MASK) = t" "i \<noteq> 0"
    "i AND (CALLOUT_COUNTER_HIGH OR CALLOUT_EXECUTING) = CALLOUT_COUNTER_HIGH"
proof -
  obtain c where c: "c < 2 ^ 57" "i = mkid t long c" using assms(2) by (auto simp: id_ok_def)
  note b = mkid_bits [OF assms(1) c(1), of long, folded c(2)]
  show "bit i 61" "bit i 62 \<longleftrightarrow> long" "unat (i AND CALLOUT_TABLE_MASK) = t" by (fact b)+
  show "\<not> is_executing i" using b(3) by (simp add: is_executing_bit)
  show "i \<noteq> 0" using b(1) by auto
  show "i AND (CALLOUT_COUNTER_HIGH OR CALLOUT_EXECUTING) = CALLOUT_COUNTER_HIGH"
    using b(1,3) by (intro bit_eqI) (auto simp: bit_and_iff bit_or_iff callout_flag_bits)
qed

end
