(* ===== verification/Callout_Inv.thy ===== *)
theory Callout_Inv
  imports Callout_Loops
begin

text \<open>
  The invariant of a callout table and the interleaved steps of the threads that use it: hash
  chains and freelist, the callouts that wait and those that are executed.
\<close>

subsection \<open>Chains and freelist\<close>

abbreviation xid_of :: "callout_table \<Rightarrow> nat \<Rightarrow> ulong" where "xid_of ct p \<equiv> c_xid (ct_mem ct ! p)"
abbreviation runtime_of :: "callout_table \<Rightarrow> nat \<Rightarrow> ulong" where "runtime_of ct p \<equiv> c_runtime (ct_mem ct ! p)"

text \<open>The callouts in use: those that are not on the freelist.\<close>

definition active :: "callout_table \<Rightarrow> nat set" where
  "active ct = {..<length (ct_mem ct)} - set (ct_freelist ct)"

definition chains_ok :: "callout_table \<Rightarrow> bool" where
  "chains_ok ct \<longleftrightarrow> distinct (ct_freelist ct) \<and> set (ct_freelist ct) \<subseteq> {..<length (ct_mem ct)} \<and>
     (\<forall>b. distinct (ct_idhash ct b) \<and> set (ct_idhash ct b) = {p \<in> active ct. CALLOUT_IDHASH (xid_of ct p) = b}) \<and>
     (\<forall>b. distinct (ct_lbhash ct b) \<and> set (ct_lbhash ct b) = {p \<in> active ct. CALLOUT_LBHASH (runtime_of ct p) = b})"

lemma chains_okD:
  assumes "chains_ok ct"
  shows "distinct (ct_freelist ct)" "set (ct_freelist ct) \<subseteq> {..<length (ct_mem ct)}"
    "distinct (ct_idhash ct b)" "set (ct_idhash ct b) = {p \<in> active ct. CALLOUT_IDHASH (xid_of ct p) = b}"
    "distinct (ct_lbhash ct b)" "set (ct_lbhash ct b) = {p \<in> active ct. CALLOUT_LBHASH (runtime_of ct p) = b}"
  using assms unfolding chains_ok_def by blast+

lemma active_bound: "p \<in> active ct \<Longrightarrow> p < length (ct_mem ct)"
  by (simp add: active_def)

lemma chain_remove:
  assumes "distinct l" "set l = {q \<in> A. h q = b}" "l' = (if b = h p then remove1 p l else l)"
  shows "distinct l' \<and> set l' = {q \<in> A - {p}. h q = b}"
  using assms by (auto simp: set_remove1_eq)

lemma chain_add:
  assumes "distinct l" "set l = {q \<in> A. h q = b}" "p \<notin> A" "\<And>q. q \<in> A \<Longrightarrow> h' q = h q" "l' = (if b = h' p then p # l else l)"
  shows "distinct l' \<and> set l' = {q \<in> insert p A. h' q = b}"
  using assms by auto

text \<open>Taking the structure \<open>p\<close> from the freelist or from new memory, and entering it into the chains.\<close>

definition enter :: "nat \<Rightarrow> callout \<Rightarrow> callout_table \<Rightarrow> callout_table" where
  "enter p c ct = CALLOUT_HASH_INSERT p (c_xid c) (c_runtime c) (ct\<lparr>ct_mem := (ct_mem ct)[p := c]\<rparr>)"

lemma enter_chains:
  assumes "chains_ok ct" "(ct_freelist ct = p # fl \<and> ct' = ct\<lparr>ct_freelist := fl\<rparr>) \<or>
    (p = length (ct_mem ct) \<and> ct' = ct\<lparr>ct_mem := ct_mem ct @ [callout_zero]\<rparr>)"
  shows "chains_ok (enter p c ct')" "active (enter p c ct') = insert p (active ct)" "p \<notin> active ct"
    "ct_mem (enter p c ct') ! p = c" "\<And>q. q \<in> active ct \<Longrightarrow> ct_mem (enter p c ct') ! q = ct_mem ct ! q"
proof -
  note d = chains_okD [OF assms(1)]
  have p: "p < length (ct_mem ct')" "p \<notin> active ct" using assms(2) d(2) by (auto simp: active_def)
  have fl: "distinct (ct_freelist ct')" "set (ct_freelist ct') \<subseteq> {..<length (ct_mem ct')}" "p \<notin> set (ct_freelist ct')"
    using assms(2) d(1,2) by auto
  have len: "length (ct_mem (enter p c ct')) = length (ct_mem ct')" "ct_freelist (enter p c ct') = ct_freelist ct'"
    by (simp_all add: enter_def CALLOUT_HASH_INSERT_def)
  have act: "active (enter p c ct') = insert p (active ct)"
    using assms(2) d(2) p fl unfolding active_def len by (auto simp: less_Suc_eq)
  have h: "ct_idhash ct' = ct_idhash ct" "ct_lbhash ct' = ct_lbhash ct" using assms(2) by auto
  have m: "ct_mem (enter p c ct') = (ct_mem ct')[p := c]" by (simp add: enter_def CALLOUT_HASH_INSERT_def)
  have mp: "ct_mem (enter p c ct') ! p = c" using p m by simp
  have mq: "ct_mem (enter p c ct') ! q = ct_mem ct ! q" if "q \<in> active ct" for q
  proof -
    have "q \<noteq> p" "q < length (ct_mem ct)" using that p(2) active_bound by auto
    then show ?thesis using m assms(2) by (auto simp: nth_append)
  qed
  have i: "distinct (ct_idhash (enter p c ct') b) \<and>
      set (ct_idhash (enter p c ct') b) = {q \<in> active (enter p c ct'). CALLOUT_IDHASH (xid_of (enter p c ct') q) = b}" for b
  proof -
    have "ct_idhash (enter p c ct') b = (if b = CALLOUT_IDHASH (c_xid c) then p # ct_idhash ct b else ct_idhash ct b)"
      by (simp add: enter_def CALLOUT_HASH_INSERT_def h)
    then show ?thesis unfolding act by (intro chain_add [OF d(3,4) [of b] p(2)]) (simp_all add: mp mq)
  qed
  have l: "distinct (ct_lbhash (enter p c ct') b) \<and>
      set (ct_lbhash (enter p c ct') b) = {q \<in> active (enter p c ct'). CALLOUT_LBHASH (runtime_of (enter p c ct') q) = b}" for b
  proof -
    have "ct_lbhash (enter p c ct') b = (if b = CALLOUT_LBHASH (c_runtime c) then p # ct_lbhash ct b else ct_lbhash ct b)"
      by (simp add: enter_def CALLOUT_HASH_INSERT_def h)
    then show ?thesis unfolding act by (intro chain_add [OF d(5,6) [of b] p(2)]) (simp_all add: mp mq)
  qed
  have f: "distinct (ct_freelist (enter p c ct'))" "set (ct_freelist (enter p c ct')) \<subseteq> {..<length (ct_mem (enter p c ct'))}"
    using fl by (simp_all add: len)
  show "chains_ok (enter p c ct')"
    unfolding chains_ok_def by (intro conjI allI f i [THEN conjunct1] i [THEN conjunct2] l [THEN conjunct1] l [THEN conjunct2])
  show "active (enter p c ct') = insert p (active ct)" "p \<notin> active ct" "ct_mem (enter p c ct') ! p = c"
    "\<And>q. q \<in> active ct \<Longrightarrow> ct_mem (enter p c ct') ! q = ct_mem ct ! q" by (fact act p(2) mp mq)+
qed

text \<open>Deleting a callout from the chains and putting it onto the freelist.\<close>

definition leave :: "nat \<Rightarrow> callout_table \<Rightarrow> callout_table" where
  "leave p ct = (let ct = CALLOUT_HASH_DELETE p (xid_of ct p) (runtime_of ct p) ct in ct\<lparr>ct_freelist := p # ct_freelist ct\<rparr>)"

lemma leave_chains:
  assumes "chains_ok ct" "p \<in> active ct"
  shows "chains_ok (leave p ct)" "active (leave p ct) = active ct - {p}" "ct_mem (leave p ct) = ct_mem ct"
proof -
  note d = chains_okD [OF assms(1)]
  have m: "ct_mem (leave p ct) = ct_mem ct" "ct_freelist (leave p ct) = p # ct_freelist ct"
    by (simp_all add: leave_def Let_def CALLOUT_HASH_DELETE_def)
  have act: "active (leave p ct) = active ct - {p}" by (auto simp: active_def m)
  have i: "distinct (ct_idhash (leave p ct) b) \<and>
      set (ct_idhash (leave p ct) b) = {q \<in> active (leave p ct). CALLOUT_IDHASH (xid_of (leave p ct) q) = b}" for b
  proof -
    have "ct_idhash (leave p ct) b = (if b = CALLOUT_IDHASH (xid_of ct p) then remove1 p (ct_idhash ct b) else ct_idhash ct b)"
      by (simp add: leave_def Let_def CALLOUT_HASH_DELETE_def)
    then show ?thesis unfolding act m by (rule chain_remove [OF d(3,4) [of b]])
  qed
  have l: "distinct (ct_lbhash (leave p ct) b) \<and>
      set (ct_lbhash (leave p ct) b) = {q \<in> active (leave p ct). CALLOUT_LBHASH (runtime_of (leave p ct) q) = b}" for b
  proof -
    have "ct_lbhash (leave p ct) b = (if b = CALLOUT_LBHASH (runtime_of ct p) then remove1 p (ct_lbhash ct b) else ct_lbhash ct b)"
      by (simp add: leave_def Let_def CALLOUT_HASH_DELETE_def)
    then show ?thesis unfolding act m by (rule chain_remove [OF d(5,6) [of b]])
  qed
  have f: "distinct (ct_freelist (leave p ct))" "set (ct_freelist (leave p ct)) \<subseteq> {..<length (ct_mem (leave p ct))}"
    using d(1,2) assms(2) by (simp_all add: m active_def)
  show "chains_ok (leave p ct)" unfolding chains_ok_def by (intro conjI allI f i [THEN conjunct1] i [THEN conjunct2] l [THEN conjunct1] l [THEN conjunct2])
  show "active (leave p ct) = active ct - {p}" "ct_mem (leave p ct) = ct_mem ct" by (fact act m)+
qed

text \<open>A change of a callout that keeps its chains.\<close>

lemma update_chains:
  assumes "chains_ok ct" "p \<in> active ct \<Longrightarrow> CALLOUT_IDHASH (c_xid c) = CALLOUT_IDHASH (xid_of ct p) \<and> c_runtime c = runtime_of ct p"
  shows "chains_ok (ct\<lparr>ct_mem := (ct_mem ct)[p := c]\<rparr>)" "active (ct\<lparr>ct_mem := (ct_mem ct)[p := c]\<rparr>) = active ct"
proof -
  note d = chains_okD [OF assms(1)]
  show a: "active (ct\<lparr>ct_mem := (ct_mem ct)[p := c]\<rparr>) = active ct" by (simp add: active_def)
  have q: "CALLOUT_IDHASH (c_xid ((ct_mem ct)[p := c] ! q)) = CALLOUT_IDHASH (xid_of ct q)"
    "c_runtime ((ct_mem ct)[p := c] ! q) = runtime_of ct q" if "q \<in> active ct" for q
    using assms(2) that active_bound [OF that] by (cases "q = p"; simp)+
  show "chains_ok (ct\<lparr>ct_mem := (ct_mem ct)[p := c]\<rparr>)"
    unfolding chains_ok_def a
  proof (intro conjI allI)
    fix b
    show "set (ct_idhash (ct\<lparr>ct_mem := (ct_mem ct)[p := c]\<rparr>) b) =
        {q \<in> active ct. CALLOUT_IDHASH (xid_of (ct\<lparr>ct_mem := (ct_mem ct)[p := c]\<rparr>) q) = b}" using d(4) [of b] q(1) by auto
    show "set (ct_lbhash (ct\<lparr>ct_mem := (ct_mem ct)[p := c]\<rparr>) b) =
        {q \<in> active ct. CALLOUT_LBHASH (runtime_of (ct\<lparr>ct_mem := (ct_mem ct)[p := c]\<rparr>) q) = b}" using d(6) [of b] q(2) by auto
  qed (use d(1,2,3,5) in simp_all)
qed

subsection \<open>Interleaved executions\<close>

text \<open>
  One table with the clock and the threads that execute callouts of it. Every operation happens
  while \<open>ct_lock\<close> is held; between \<open>exec_begin\<close> and \<open>exec_resume\<close> of a thread, while its handler runs,
  any other operation can happen, those of the handler among them.
\<close>

record callout_sys =
  cs_table :: callout_table
  cs_pc :: "nat \<Rightarrow> exec_pc"
  cs_lbolt :: ulong

inductive callout_step :: "callout_sys \<Rightarrow> callout_sys \<Rightarrow> bool" where
  tick: "unat (cs_lbolt s) + 1 < 2 ^ 62 \<Longrightarrow> callout_step s (s\<lparr>cs_lbolt := cs_lbolt s + 1\<rparr>)"
| timeout: "sint delta < 2 ^ 62 \<Longrightarrow> timeout_common kmem (cs_lbolt s) func arg delta (cs_table s) = Some (i, ct) \<Longrightarrow>
    callout_step s (s\<lparr>cs_table := ct\<rparr>)"
| untimeout: "\<not> is_executing i \<Longrightarrow> untimeout_table th (cs_lbolt s) i (cs_table s) = (r, ct) \<Longrightarrow>
    callout_step s (s\<lparr>cs_table := ct\<rparr>)"
| schedule: "callout_schedule_1 (cs_lbolt s) (cs_table s) = Some (d, ct) \<Longrightarrow> callout_step s (s\<lparr>cs_table := ct\<rparr>)"
| execute: "cs_pc s th = Exec_Done \<Longrightarrow> exec_begin th (cs_table s) = Some (pc, ct) \<Longrightarrow>
    callout_step s (s\<lparr>cs_table := ct, cs_pc := (cs_pc s)(th := pc)\<rparr>)"
| resume: "cs_pc s th = Exec_Running p r \<Longrightarrow> exec_resume th p r (cs_table s) = Some (pc, ct) \<Longrightarrow>
    callout_step s (s\<lparr>cs_table := ct, cs_pc := (cs_pc s)(th := pc)\<rparr>)"

text \<open>
  A callout that waits has an identifier of the table and its run time is still to come. One that
  is executed has the flag set, and the thread in \<open>c_executor\<close> runs it.
\<close>

definition callout_ok :: "nat \<Rightarrow> (nat \<Rightarrow> exec_pc) \<Rightarrow> ulong \<Rightarrow> nat \<Rightarrow> callout \<Rightarrow> bool" where
  "callout_ok t pc runtime p c \<longleftrightarrow> unat (c_runtime c) < 2 ^ 63 \<and>
     (if is_executing (c_xid c)
      then (\<exists>i long. id_ok t long i \<and> c_xid c = i OR CALLOUT_EXECUTING) \<and> pc (c_executor c) = Exec_Running p (c_runtime c)
      else (\<exists>long. id_ok t long (c_xid c)) \<and> unat runtime \<le> unat (c_runtime c))"

text \<open>
  A thread that runs the callout \<open>p\<close> for the time \<open>r\<close>: no callout before \<open>p\<close> on the chain is due at
  \<open>r\<close>, so that the search may go on from \<open>p\<close>.
\<close>

definition running_ok :: "callout_table \<Rightarrow> nat \<Rightarrow> nat \<Rightarrow> ulong \<Rightarrow> bool" where
  "running_ok ct th p r \<longleftrightarrow> p \<in> active ct \<and> is_executing (xid_of ct p) \<and> runtime_of ct p = r \<and>
     c_executor (ct_mem ct ! p) = th \<and> unat r \<le> unat (ct_curtime ct) \<and>
     (\<forall>q \<in> set (takeWhile (\<lambda>q. q \<noteq> p) (ct_lbhash ct (CALLOUT_LBHASH r))). \<not> is_due (ct_mem ct) r q)"

definition table_ok :: "nat \<Rightarrow> (nat \<Rightarrow> exec_pc) \<Rightarrow> ulong \<Rightarrow> callout_table \<Rightarrow> bool" where
  "table_ok t pc lbolt ct \<longleftrightarrow> t < 16 \<and> chains_ok ct \<and> id_ok t False (ct_short_id ct) \<and> id_ok t True (ct_long_id ct) \<and>
     unat lbolt < 2 ^ 62 \<and> unat (ct_curtime ct) \<le> unat lbolt \<and> unat (ct_runtime ct) \<le> unat (ct_curtime ct) + 1 \<and>
     (\<forall>p \<in> active ct. callout_ok t pc (ct_runtime ct) p (ct_mem ct ! p)) \<and>
     (\<forall>th p r. pc th = Exec_Running p r \<longrightarrow> running_ok ct th p r)"

lemma table_okD:
  assumes "table_ok t pc lbolt ct"
  shows "t < 16" "chains_ok ct" "id_ok t False (ct_short_id ct)" "id_ok t True (ct_long_id ct)" "unat lbolt < 2 ^ 62"
    "unat (ct_curtime ct) \<le> unat lbolt" "unat (ct_runtime ct) \<le> unat (ct_curtime ct) + 1"
    "\<And>p. p \<in> active ct \<Longrightarrow> callout_ok t pc (ct_runtime ct) p (ct_mem ct ! p)"
    "\<And>th p r. pc th = Exec_Running p r \<Longrightarrow> running_ok ct th p r"
  using assms unfolding table_ok_def by blast+

lemma table_okI:
  assumes "t < 16" "chains_ok ct" "id_ok t False (ct_short_id ct)" "id_ok t True (ct_long_id ct)" "unat lbolt < 2 ^ 62"
    "unat (ct_curtime ct) \<le> unat lbolt" "unat (ct_runtime ct) \<le> unat (ct_curtime ct) + 1"
    "\<And>p. p \<in> active ct \<Longrightarrow> callout_ok t pc (ct_runtime ct) p (ct_mem ct ! p)"
    "\<And>th p r. pc th = Exec_Running p r \<Longrightarrow> running_ok ct th p r"
  shows "table_ok t pc lbolt ct"
  using assms unfolding table_ok_def by blast

lemma front_remove1: "distinct l \<Longrightarrow> q \<noteq> p \<Longrightarrow> set (takeWhile (\<lambda>x. x \<noteq> p) (remove1 q l)) \<subseteq> set (takeWhile (\<lambda>x. x \<noteq> p) l)"
  by (induction l) auto

lemma find_front: "find P l = Some p \<Longrightarrow> q \<in> set (takeWhile (\<lambda>x. x \<noteq> p) l) \<Longrightarrow> \<not> P q"
  by (induction l) (auto split: if_splits)

text \<open>\<open>timeout()\<close>: the new callout comes in front, but it is not due yet.\<close>

lemma timeout_runtime:
  assumes "unat (lbolt :: ulong) < 2 ^ 62" "sint delta < 2 ^ 62" "d = (if sint delta \<le> 0 then 1 else delta)"
  shows "unat (lbolt + d) = unat lbolt + unat d" "unat (lbolt + d) < 2 ^ 63" "0 < unat d" "sint d = int (unat d)" "unat d < 2 ^ 62"
proof -
  have d: "0 < sint d" "sint d < 2 ^ 62" using assms(2,3) by auto
  then have "\<not> bit d 63" using bit_last_iff [of d] by simp
  then have "even (unat d div 2 ^ 63)" by (simp add: bit_unat)
  moreover have "unat d < 2 ^ LENGTH(64)" by (rule unsigned_less)
  then have "unat d div 2 ^ 63 < 2" by (simp add: less_mult_imp_div_less)
  ultimately have "unat d div 2 ^ 63 = 0" by (metis even_iff_mod_2_eq_zero mod_less)
  then have "unat d < 2 ^ 63" by (simp add: div_eq_0_iff)
  then show s: "sint d = int (unat d)" using sint_diff_le [of d 0] by simp
  have u: "0 < unat d" "unat d < 2 ^ 62" using d unfolding s by (simp_all del: of_nat_unat)
  then show "0 < unat d" "unat d < 2 ^ 62" by simp_all
  show "unat (lbolt + d) = unat lbolt + unat d" using assms(1) u by (simp add: unat_word_ariths)
  then show "unat (lbolt + d) < 2 ^ 63" using assms(1) u by simp
qed


lemma timeout_cases:
  assumes "timeout_common kmem lbolt func arg delta ct = Some (i, ct')"
  obtains p fl ct1 long d c where
    "(ct_freelist ct = p # fl \<and> ct1 = ct\<lparr>ct_freelist := fl\<rparr>) \<or> (p = length (ct_mem ct) \<and> ct1 = ct\<lparr>ct_mem := ct_mem ct @ [callout_zero]\<rparr>)"
    "d = (if sint delta \<le> 0 then 1 else delta)" "long \<longleftrightarrow> CALLOUT_LONGTERM_TICKS < sint d"
    "i = next_id (if long then ct_long_id ct else ct_short_id ct)" "c_xid c = i" "c_runtime c = lbolt + d"
    "ct' = enter p c (if long then ct1\<lparr>ct_long_id := i\<rparr> else ct1\<lparr>ct_short_id := i\<rparr>)"
proof -
  obtain p ct1 where a: "(case ct_freelist ct of [] \<Rightarrow> callout_alloc kmem ct | cp # fl \<Rightarrow> Some (cp, ct\<lparr>ct_freelist := fl\<rparr>)) = Some (p, ct1)"
    using assms unfolding timeout_common_def by (cases "case ct_freelist ct of [] \<Rightarrow> callout_alloc kmem ct | cp # fl \<Rightarrow> Some (cp, ct\<lparr>ct_freelist := fl\<rparr>)") auto
  define d where "d = (if sint delta \<le> 0 then 1 else delta)"
  define long where "long \<longleftrightarrow> CALLOUT_LONGTERM_TICKS < sint d"
  have s: "(ct_freelist ct = p # tl (ct_freelist ct) \<and> ct1 = ct\<lparr>ct_freelist := tl (ct_freelist ct)\<rparr>) \<or>
      (p = length (ct_mem ct) \<and> ct1 = ct\<lparr>ct_mem := ct_mem ct @ [callout_zero]\<rparr>)"
    using a by (auto simp: callout_alloc_def split: list.splits if_splits)
  then have k: "ct_long_id ct1 = ct_long_id ct" "ct_short_id ct1 = ct_short_id ct" by auto
  define i0 where "i0 = next_id (if long then ct_long_id ct else ct_short_id ct)"
  define c where "c = (ct_mem ct1 ! p)\<lparr>c_func := func, c_arg := arg, c_runtime := lbolt + d, c_xid := i0\<rparr>"
  have r: "i = i0" "ct' = enter p c (if long then ct1\<lparr>ct_long_id := i\<rparr> else ct1\<lparr>ct_short_id := i\<rparr>)"
    using assms unfolding timeout_common_def a
    by (auto simp: Let_def k d_def [symmetric] long_def [symmetric] i0_def c_def enter_def)
  show thesis by (rule that [OF s d_def long_def]) (use r in \<open>simp_all add: i0_def c_def\<close>)
qed

lemma enter_ids:
  "ct_short_id (enter p c ct) = ct_short_id ct" "ct_long_id (enter p c ct) = ct_long_id ct"
  "ct_curtime (enter p c ct) = ct_curtime ct" "ct_runtime (enter p c ct) = ct_runtime ct"
  by (simp_all add: enter_def CALLOUT_HASH_INSERT_def)

lemma ids_chains [simp]:
  "chains_ok (ct\<lparr>ct_long_id := i\<rparr>) = chains_ok ct" "chains_ok (ct\<lparr>ct_short_id := i\<rparr>) = chains_ok ct"
  "active (ct\<lparr>ct_long_id := i\<rparr>) = active ct" "active (ct\<lparr>ct_short_id := i\<rparr>) = active ct"
  "enter p c (ct\<lparr>ct_long_id := i\<rparr>) = (enter p c ct)\<lparr>ct_long_id := i\<rparr>"
  "enter p c (ct\<lparr>ct_short_id := i\<rparr>) = (enter p c ct)\<lparr>ct_short_id := i\<rparr>"
  by (simp_all add: chains_ok_def active_def enter_def CALLOUT_HASH_INSERT_def)

lemma times_chains [simp]:
  "chains_ok (ct\<lparr>ct_runtime := r\<rparr>) = chains_ok ct" "chains_ok (ct\<lparr>ct_curtime := r\<rparr>) = chains_ok ct"
  "active (ct\<lparr>ct_runtime := r\<rparr>) = active ct" "active (ct\<lparr>ct_curtime := r\<rparr>) = active ct"
  by (simp_all add: chains_ok_def active_def)

lemma enter_lbhash: "ct_lbhash (enter p c ct) b = (if b = CALLOUT_LBHASH (c_runtime c) then p # ct_lbhash ct b else ct_lbhash ct b)"
  by (simp add: enter_def CALLOUT_HASH_INSERT_def)

lemma timeout_table_ok:
  assumes "table_ok t pc lbolt ct" "sint delta < 2 ^ 62" "timeout_common kmem lbolt func arg delta ct = Some (i, ct')"
  shows "table_ok t pc lbolt ct' \<and> (\<exists>long. id_ok t long i)"
proof -
  note k = table_okD [OF assms(1)]
  from assms(3) obtain p fl ct1 long d c where s:
    "(ct_freelist ct = p # fl \<and> ct1 = ct\<lparr>ct_freelist := fl\<rparr>) \<or> (p = length (ct_mem ct) \<and> ct1 = ct\<lparr>ct_mem := ct_mem ct @ [callout_zero]\<rparr>)"
    "d = (if sint delta \<le> 0 then 1 else delta)" "i = next_id (if long then ct_long_id ct else ct_short_id ct)"
    "c_xid c = i" "c_runtime c = lbolt + d" "ct' = enter p c (if long then ct1\<lparr>ct_long_id := i\<rparr> else ct1\<lparr>ct_short_id := i\<rparr>)"
    by (rule timeout_cases)
  note e = enter_chains [OF k(2) s(1)]
  note rt = timeout_runtime [OF k(5) assms(2) s(2)]
  have i: "id_ok t long i" using id_ok_next [OF k(1)] k(3,4) s(3) by (cases long) auto
  define ct2 where "ct2 = enter p c ct1"
  have c2: "ct_mem ct' = ct_mem ct2" "ct_lbhash ct' = ct_lbhash ct2" "active ct' = active ct2" "chains_ok ct' = chains_ok ct2"
    "ct_curtime ct' = ct_curtime ct" "ct_runtime ct' = ct_runtime ct"
    using s(1,6) by (auto simp: ct2_def enter_ids)
  have ids: "id_ok t False (ct_short_id ct')" "id_ok t True (ct_long_id ct')"
    using s(1,6) i k(3,4) by (auto simp: enter_ids)
  have new: "callout_ok t pc (ct_runtime ct) p c"
    using rt(1-3) k(6,7) i id_ok_bits(3) [OF k(1) i] s(4,5) by (auto simp: callout_ok_def)
  have run: "running_ok ct' th q r" if "pc th = Exec_Running q r" for th q r
  proof -
    from k(9) [OF that] have q: "q \<in> active ct" "is_executing (xid_of ct q)" "runtime_of ct q = r" "c_executor (ct_mem ct ! q) = th"
      "unat r \<le> unat (ct_curtime ct)" "\<And>x. x \<in> set (takeWhile (\<lambda>x. x \<noteq> q) (ct_lbhash ct (CALLOUT_LBHASH r))) \<Longrightarrow> \<not> is_due (ct_mem ct) r x"
      by (auto simp: running_ok_def)
    have pq: "p \<noteq> q" using q(1) e(3) by auto
    have "r \<noteq> lbolt + d" using q(5) k(6) rt(1,3) by auto
    then have np: "\<not> is_due (ct_mem ct2) r p" using e(4) s(5) by (simp add: is_due_def ct2_def)
    have lb: "ct_lbhash ct2 b = (if b = CALLOUT_LBHASH (lbolt + d) then p # ct_lbhash ct b else ct_lbhash ct b)" for b
      using s(1,5) unfolding ct2_def by (auto simp: enter_lbhash)
    have "\<not> is_due (ct_mem ct2) r x" if "x \<in> set (takeWhile (\<lambda>x. x \<noteq> q) (ct_lbhash ct2 (CALLOUT_LBHASH r)))" for x
    proof (cases "x = p")
      case False
      then have x: "x \<in> set (takeWhile (\<lambda>x. x \<noteq> q) (ct_lbhash ct (CALLOUT_LBHASH r)))" using that pq unfolding lb by (simp split: if_splits)
      then have "x \<in> active ct" using chains_okD(6) [OF k(2), of "CALLOUT_LBHASH r"] set_takeWhileD by fastforce
      then show ?thesis using q(6) [OF x] e(5) by (simp add: is_due_def ct2_def)
    qed (simp add: np)
    then show ?thesis unfolding running_ok_def c2 using q e(2,5) by (simp add: ct2_def)
  qed
  have "callout_ok t pc (ct_runtime ct') q (ct_mem ct' ! q)" if "q \<in> active ct'" for q
    using that k(8) [of q] new e(2,4,5) unfolding c2 ct2_def by (cases "q = p") auto
  moreover have "chains_ok ct'" using c2(4) e(1) by (simp add: ct2_def)
  ultimately have "table_ok t pc lbolt ct'"
    using k(1,5,6,7) ids run by (intro table_okI) (simp_all add: c2(5,6))
  then show ?thesis using i by blast
qed


text \<open>\<open>untimeout()\<close>: a waiting callout leaves the table; otherwise nothing changes.\<close>

lemma untimeout_find_Some: "untimeout_find mem i l = Some p \<Longrightarrow> p \<in> set l \<and> (c_xid (mem ! p) = i \<or> c_xid (mem ! p) = i OR CALLOUT_EXECUTING)"
  by (induction l) (auto split: if_splits)

lemma untimeout_cases:
  assumes "chains_ok ct" "untimeout_table th lbolt i ct = (r, ct')"
  shows "ct' = ct \<or> (\<exists>p \<in> active ct. xid_of ct p = i \<and> ct' = leave p ct)"
proof (cases "untimeout_find (ct_mem ct) i (ct_idhash ct (CALLOUT_IDHASH i))")
  case None
  then show ?thesis using assms(2) by (auto simp: untimeout_table_def split: if_splits)
next
  case (Some p)
  then have "p \<in> active ct" using untimeout_find_Some [OF Some] chains_okD(4) [OF assms(1)] by auto
  then show ?thesis using Some assms(2) by (auto simp: untimeout_table_def Let_def leave_def split: if_splits)
qed

lemma leave_fields:
  "ct_short_id (leave p ct) = ct_short_id ct" "ct_long_id (leave p ct) = ct_long_id ct"
  "ct_curtime (leave p ct) = ct_curtime ct" "ct_runtime (leave p ct) = ct_runtime ct"
  "ct_lbhash (leave p ct) b = (if b = CALLOUT_LBHASH (runtime_of ct p) then remove1 p (ct_lbhash ct b) else ct_lbhash ct b)"
  by (simp_all add: leave_def Let_def CALLOUT_HASH_DELETE_def)

lemma leave_running:
  assumes "chains_ok ct" "p \<in> active ct" "running_ok ct th q r" "q \<noteq> p"
  shows "running_ok (leave p ct) th q r"
proof -
  note l = leave_chains [OF assms(1,2)]
  have "set (takeWhile (\<lambda>x. x \<noteq> q) (ct_lbhash (leave p ct) b)) \<subseteq> set (takeWhile (\<lambda>x. x \<noteq> q) (ct_lbhash ct b))" for b
    using front_remove1 [OF chains_okD(5) [OF assms(1), of b], of p q] assms(4)
    by (cases "b = CALLOUT_LBHASH (runtime_of ct p)") (simp_all add: leave_fields)
  from this [of "CALLOUT_LBHASH r"] show ?thesis using assms(3,4) l unfolding running_ok_def by (auto simp: leave_fields(3))
qed

lemma untimeout_table_ok:
  assumes "table_ok t pc lbolt ct" "\<not> is_executing i" "untimeout_table th lbolt i ct = (r, ct')"
  shows "table_ok t pc lbolt ct'"
proof -
  note k = table_okD [OF assms(1)]
  consider "ct' = ct" | p where "p \<in> active ct" "xid_of ct p = i" "ct' = leave p ct" using untimeout_cases [OF k(2) assms(3)] by blast
  then show ?thesis
  proof cases
    case 2
    note l = leave_chains [OF k(2) 2(1)]
    have "running_ok ct' th q s" if "pc th = Exec_Running q s" for th q s
    proof -
      have "q \<noteq> p" using k(9) [OF that] 2(2) assms(2) by (auto simp: running_ok_def)
      then show ?thesis using leave_running [OF k(2) 2(1) k(9) [OF that]] 2(3) by simp
    qed
    then show ?thesis using k l 2(3) by (intro table_okI) (simp_all add: leave_fields)
  qed (use assms(1) in simp)
qed

text \<open>Searching: the run time advances over times for which nothing waits.\<close>

lemma due_found:
  assumes "chains_ok ct" "p \<in> active ct" "\<not> is_executing (xid_of ct p)"
  shows "find (is_due (ct_mem ct) (runtime_of ct p)) (ct_lbhash ct (CALLOUT_LBHASH (runtime_of ct p))) \<noteq> None"
proof -
  have "p \<in> set (ct_lbhash ct (CALLOUT_LBHASH (runtime_of ct p)))" using chains_okD(6) [OF assms(1)] assms(2) by blast
  moreover have "is_due (ct_mem ct) (runtime_of ct p) p" using assms(3) by (simp add: is_due_def)
  ultimately show ?thesis by (auto simp: find_None_iff)
qed

lemma search_table_ok:
  assumes "table_ok t pc lbolt ct" "unat c \<le> unat lbolt" "unat (ct_curtime ct) \<le> unat c"
    "schedule_while c (ct\<lparr>ct_curtime := c\<rparr>) = Some (d, ct')"
  shows "table_ok t pc lbolt ct' \<and> ct_curtime ct' = c \<and> ct_mem ct' = ct_mem ct \<and> ct_lbhash ct' = ct_lbhash ct \<and> active ct' = active ct \<and>
    (d \<longrightarrow> unat (ct_runtime ct') \<le> unat c \<and> find (is_due (ct_mem ct) (ct_runtime ct')) (ct_lbhash ct (CALLOUT_LBHASH (ct_runtime ct'))) \<noteq> None)"
proof -
  note k = table_okD [OF assms(1)]
  have b: "unat c < 2 ^ 62" "unat (ct_runtime (ct\<lparr>ct_curtime := c\<rparr>)) \<le> 2 ^ 62" using k(5,6,7) assms(2) by simp_all
  define c1 where "c1 = ct\<lparr>ct_curtime := c\<rparr>"
  have c1: "ct_runtime c1 = ct_runtime ct" "ct_mem c1 = ct_mem ct" "ct_lbhash c1 = ct_lbhash ct" by (simp_all add: c1_def)
  have "\<exists>d' e. schedule_while c c1 = Some (d', c1\<lparr>ct_runtime := e\<rparr>) \<and> unat (ct_runtime ct) \<le> unat e \<and>
    unat e \<le> max (unat (ct_runtime ct)) (unat c + 1) \<and>
    (\<forall>s. unat (ct_runtime ct) \<le> unat s \<and> unat s < unat e \<longrightarrow> find (is_due (ct_mem ct) s) (ct_lbhash ct (CALLOUT_LBHASH s)) = None) \<and>
    (if d' then unat e \<le> unat c \<and> find (is_due (ct_mem ct) e) (ct_lbhash ct (CALLOUT_LBHASH e)) \<noteq> None else unat c < unat e)"
    using schedule_while_finds [OF b(1), of c1, unfolded c1] b(2) by (simp add: c1_def)
  moreover have "schedule_while c c1 = Some (d, ct')" using assms(4) by (simp add: c1_def)
  ultimately obtain e where e: "ct' = c1\<lparr>ct_runtime := e\<rparr>"
    "unat (ct_runtime ct) \<le> unat e" "unat e \<le> max (unat (ct_runtime ct)) (unat c + 1)"
    "\<And>s. unat (ct_runtime ct) \<le> unat s \<Longrightarrow> unat s < unat e \<Longrightarrow> find (is_due (ct_mem ct) s) (ct_lbhash ct (CALLOUT_LBHASH s)) = None"
    "if d then unat e \<le> unat c \<and> find (is_due (ct_mem ct) e) (ct_lbhash ct (CALLOUT_LBHASH e)) \<noteq> None else unat c < unat e" by (metis option.inject prod.inject)
  have ok: "callout_ok t pc e p (ct_mem ct ! p)" if "p \<in> active ct" for p
  proof (cases "is_executing (xid_of ct p)")
    case False
    then have "\<not> unat (runtime_of ct p) < unat e"
      using due_found [OF k(2) that False] e(4) k(8) [OF that] by (auto simp: callout_ok_def)
    then show ?thesis using k(8) [OF that] False by (auto simp: callout_ok_def)
  qed (use k(8) [OF that] in \<open>auto simp: callout_ok_def\<close>)
  have run: "running_ok ct' th q s" if "pc th = Exec_Running q s" for th q s
    using k(9) [OF that] assms(3) by (simp add: running_ok_def e(1) c1_def)
  have "table_ok t pc lbolt ct'" using k ok run assms(2,3) e(3) by (intro table_okI) (simp_all add: e(1) c1_def)
  then show ?thesis using e(5) by (simp add: e(1) c1_def)
qed

lemma schedule_table_ok:
  assumes "table_ok t pc lbolt ct" "callout_schedule_1 lbolt ct = Some (d, ct')"
  shows "table_ok t pc lbolt ct'"
  using search_table_ok [OF assms(1) order.refl table_okD(6) [OF assms(1)]] assms(2) by (simp add: callout_schedule_1_def)


text \<open>Starting the first callout that is due, and what a handler's return does.\<close>

lemma start_table_ok:
  assumes "table_ok t pc lbolt ct" "pc th = Exec_Done" "find (is_due (ct_mem ct) r) l = Some p" "p \<in> active ct"
    "unat r \<le> unat (ct_curtime ct)"
    "\<And>q. q \<in> set (takeWhile (\<lambda>q. q \<noteq> p) (ct_lbhash ct (CALLOUT_LBHASH r))) \<Longrightarrow> \<not> is_due (ct_mem ct) r q"
  shows "table_ok t (pc(th := Exec_Running p r)) lbolt (exec_start th p ct)"
proof -
  note k = table_okD [OF assms(1)]
  have "is_due (ct_mem ct) r p" using assms(3) by (auto simp: find_Some_iff)
  then have p: "runtime_of ct p = r" "\<not> is_executing (xid_of ct p)" by (simp_all add: is_due_def)
  define c where "c = (ct_mem ct ! p)\<lparr>c_executor := th, c_xid := xid_of ct p OR CALLOUT_EXECUTING\<rparr>"
  have s: "exec_start th p ct = ct\<lparr>ct_mem := (ct_mem ct)[p := c]\<rparr>" by (simp add: exec_start_def c_def)
  have cc: "is_executing (c_xid c)" "c_runtime c = r" "c_executor c = th" "CALLOUT_IDHASH (c_xid c) = CALLOUT_IDHASH (xid_of ct p)"
    using p executing_bits by (simp_all add: c_def)
  have u: "chains_ok (ct\<lparr>ct_mem := (ct_mem ct)[p := c]\<rparr>)" "active (ct\<lparr>ct_mem := (ct_mem ct)[p := c]\<rparr>) = active ct"
    using update_chains [OF k(2), of p c] cc p by simp_all
  have mem: "(ct_mem ct)[p := c] ! q = (if q = p then c else ct_mem ct ! q)" for q using active_bound [OF assms(4)] by (simp add: nth_list_update)
  have due: "is_due ((ct_mem ct)[p := c]) s q \<Longrightarrow> is_due (ct_mem ct) s q" for s q
    using cc(1) by (auto simp: is_due_def mem split: if_splits)
  have ok: "callout_ok t (pc(th := Exec_Running p r)) (ct_runtime ct) q ((ct_mem ct)[p := c] ! q)" if "q \<in> active ct" for q
  proof (cases "q = p")
    case True
    obtain long where "id_ok t long (xid_of ct p)" using k(8) [OF assms(4)] p by (auto simp: callout_ok_def)
    moreover have "c_xid c = xid_of ct p OR CALLOUT_EXECUTING" by (simp add: c_def)
    moreover have "unat r < 2 ^ 63" using k(8) [OF assms(4)] p(1) by (simp add: callout_ok_def)
    ultimately have "callout_ok t (pc(th := Exec_Running p r)) (ct_runtime ct) p c" using cc(1-3) by (auto simp: callout_ok_def)
    then show ?thesis using True mem by simp
  next
    case False
    then show ?thesis using k(8) [OF that] assms(2) by (auto simp: callout_ok_def mem)
  qed
  have run: "running_ok (ct\<lparr>ct_mem := (ct_mem ct)[p := c]\<rparr>) x q s" if "(pc(th := Exec_Running p r)) x = Exec_Running q s" for x q s
  proof (cases "x = th")
    case True
    then have "q = p" "s = r" using that by simp_all
    then show ?thesis using True assms(4,5,6) cc due unfolding running_ok_def u(2) by (auto simp: mem)
  next
    case False
    then have q: "running_ok ct x q s" using that k(9) by simp
    then have "q \<noteq> p" using p(2) by (auto simp: running_ok_def)
    then show ?thesis using q due unfolding running_ok_def u(2) by (auto simp: mem)
  qed
  show ?thesis unfolding s using k(1,3-7) u ok run by (intro table_okI) simp_all
qed

lemma advance_table_ok:
  assumes "table_ok t pc lbolt ct" "unat (ct_runtime ct) \<le> unat (ct_curtime ct)"
    "\<And>q. q \<in> active ct \<Longrightarrow> \<not> is_due (ct_mem ct) (ct_runtime ct) q"
  shows "table_ok t pc lbolt (ct\<lparr>ct_runtime := ct_runtime ct + 1\<rparr>)"
proof -
  note k = table_okD [OF assms(1)]
  have i: "unat (ct_runtime ct + 1) = unat (ct_runtime ct) + 1" using k(5,6,7) by (intro unat_inc) simp
  have "callout_ok t pc (ct_runtime ct + 1) q (ct_mem ct ! q)" if "q \<in> active ct" for q
  proof (cases "is_executing (xid_of ct q)")
    case False
    then have "runtime_of ct q \<noteq> ct_runtime ct" using assms(3) [OF that] by (simp add: is_due_def)
    then have "unat (runtime_of ct q) \<noteq> unat (ct_runtime ct)" by (metis word_unat_eq_iff)
    then show ?thesis using k(8) [OF that] False i by (auto simp: callout_ok_def)
  qed (use k(8) [OF that] in \<open>auto simp: callout_ok_def\<close>)
  moreover have "running_ok (ct\<lparr>ct_runtime := ct_runtime ct + 1\<rparr>) x q s" if "pc x = Exec_Running q s" for x q s
    using k(9) [OF that] by (simp add: running_ok_def)
  ultimately show ?thesis using k i assms(2) by (intro table_okI) simp_all
qed

lemma exec_while_table_ok:
  assumes "table_ok t pc lbolt ct" "pc th = Exec_Done" "exec_while th ct = Some (pc', ct')"
  shows "table_ok t (pc(th := pc')) lbolt ct'"
proof -
  note k = table_okD [OF assms(1)]
  obtain d ct1 where s: "schedule_while (ct_curtime ct) ct = Some (d, ct1)" "start_found th (d, ct1) = (pc', ct')"
    using assms(3) exec_while_schedule [of th ct] by (auto simp: map_option_case split: option.splits)
  have "schedule_while (ct_curtime ct) (ct\<lparr>ct_curtime := ct_curtime ct\<rparr>) = Some (d, ct1)" using s(1) by simp
  from search_table_ok [OF assms(1) k(6) order.refl this]
  have t: "table_ok t pc lbolt ct1" "ct_curtime ct1 = ct_curtime ct" "ct_mem ct1 = ct_mem ct" "ct_lbhash ct1 = ct_lbhash ct" "active ct1 = active ct"
    "d \<longrightarrow> unat (ct_runtime ct1) \<le> unat (ct_curtime ct) \<and> find (is_due (ct_mem ct) (ct_runtime ct1)) (ct_lbhash ct (CALLOUT_LBHASH (ct_runtime ct1))) \<noteq> None"
    by simp_all
  show ?thesis
  proof (cases d)
    case False
    then have "pc' = Exec_Done" "ct' = ct1" using s(2) by (auto simp: start_found_def Let_def)
    then show ?thesis using t(1) assms(2) by (simp add: fun_upd_idem)
  next
    case True
    then obtain p where p: "find (is_due (ct_mem ct1) (ct_runtime ct1)) (ct_lbhash ct1 (CALLOUT_LBHASH (ct_runtime ct1))) = Some p"
      using t by auto
    then have r: "pc' = Exec_Running p (ct_runtime ct1)" "ct' = exec_start th p ct1" using s(2) True by (auto simp: start_found_def Let_def)
    have "p \<in> active ct1" using p chains_okD(6) [OF table_okD(2) [OF t(1)]] by (metis (mono_tags, lifting) find_Some_iff mem_Collect_eq nth_mem)
    then show ?thesis unfolding r using t True find_front [OF p] by (intro start_table_ok [OF t(1) assms(2) p]) simp_all
  qed
qed

text \<open>The table after the return of the handler of \<open>p\<close>, and how the search goes on.\<close>

definition finish :: "nat \<Rightarrow> callout_table \<Rightarrow> callout_table" where
  "finish p ct = (leave p ct)\<lparr>ct_mem := (ct_mem ct)[p := (ct_mem ct ! p)\<lparr>c_xid := 0\<rparr>]\<rparr>"

lemma finish_fields:
  "ct_curtime (finish p ct) = ct_curtime ct" "ct_runtime (finish p ct) = ct_runtime ct"
  "ct_short_id (finish p ct) = ct_short_id ct" "ct_long_id (finish p ct) = ct_long_id ct"
  "ct_lbhash (finish p ct) = ct_lbhash (leave p ct)" "q \<noteq> p \<Longrightarrow> ct_mem (finish p ct) ! q = ct_mem ct ! q"
  by (simp_all add: finish_def leave_fields)

lemma finish_chains:
  assumes "chains_ok ct" "p \<in> active ct"
  shows "chains_ok (finish p ct)" "active (finish p ct) = active ct - {p}"
proof -
  note l = leave_chains [OF assms]
  have "p \<notin> active (leave p ct)" using l(2) by simp
  then show "chains_ok (finish p ct)" "active (finish p ct) = active ct - {p}"
    using update_chains [OF l(1), of p "(ct_mem ct ! p)\<lparr>c_xid := 0\<rparr>"] l(2,3) by (simp_all add: finish_def)
qed

lemma exec_resume_eq:
  assumes "chains_ok ct" "p \<in> active ct" "runtime_of ct p = r"
  obtains A B where "ct_lbhash ct (CALLOUT_LBHASH r) = A @ p # B" "p \<notin> set A" "ct_lbhash (finish p ct) (CALLOUT_LBHASH r) = A @ B"
    "takeWhile (\<lambda>q. q \<noteq> p) (ct_lbhash ct (CALLOUT_LBHASH r)) = A" "distinct (A @ B)"
    "exec_resume th p r ct = (case find (is_due (ct_mem (finish p ct)) r) B of
       Some q \<Rightarrow> Some (Exec_Running q r, exec_start th q (finish p ct))
     | None \<Rightarrow> exec_while th (if ct_runtime (finish p ct) = r then (finish p ct)\<lparr>ct_runtime := r + 1\<rparr> else finish p ct))"
proof -
  obtain A B where AB: "ct_lbhash ct (CALLOUT_LBHASH r) = A @ p # B" "p \<notin> set A"
    using split_list_first [of p "ct_lbhash ct (CALLOUT_LBHASH r)"] chains_okD(6) [OF assms(1), of "CALLOUT_LBHASH r"] assms(2,3) by blast
  have tw: "takeWhile (\<lambda>q. q \<noteq> p) (A @ p # B) = A" "tl (dropWhile (\<lambda>q. q \<noteq> p) (A @ p # B)) = B" "remove1 p (A @ p # B) = A @ B"
    using AB(2) by (auto simp: takeWhile_append dropWhile_append remove1_append)
  have d: "distinct (A @ B)" using chains_okD(5) [OF assms(1), of "CALLOUT_LBHASH r"] AB(1) by simp
  have lb: "ct_lbhash (finish p ct) (CALLOUT_LBHASH r) = A @ B" using assms(3) AB(1) tw(3) by (simp add: finish_fields leave_fields)
  have "(CALLOUT_HASH_DELETE p (xid_of ct p) r ct)\<lparr>ct_freelist := p # ct_freelist (CALLOUT_HASH_DELETE p (xid_of ct p) r ct),
      ct_mem := (ct_mem (CALLOUT_HASH_DELETE p (xid_of ct p) r ct))
        [p := (ct_mem (CALLOUT_HASH_DELETE p (xid_of ct p) r ct) ! p)\<lparr>c_xid := 0\<rparr>]\<rparr> = finish p ct"
    using assms(3) by (simp add: finish_def leave_def CALLOUT_HASH_DELETE_def)
  then have "exec_resume th p r ct = (case find (is_due (ct_mem (finish p ct)) r) B of
       Some q \<Rightarrow> Some (Exec_Running q r, exec_start th q (finish p ct))
     | None \<Rightarrow> exec_while th (if ct_runtime (finish p ct) = r then (finish p ct)\<lparr>ct_runtime := r + 1\<rparr> else finish p ct))"
    unfolding exec_resume_def AB(1) tw(2) Let_def by (simp only:)
  then show thesis using that [OF AB lb _ d] tw(1) AB(1) by simp
qed

lemma finish_table_ok:
  assumes "table_ok t pc lbolt ct" "pc th = Exec_Running p r"
  shows "table_ok t (pc(th := Exec_Done)) lbolt (finish p ct)"
proof -
  note k = table_okD [OF assms(1)]
  have p: "p \<in> active ct" using k(9) [OF assms(2)] by (simp add: running_ok_def)
  note l = leave_chains [OF k(2) p] and u = finish_chains [OF k(2) p] and f = finish_fields [where p = p and ct = ct]
  show ?thesis
  proof (intro table_okI)
    show "callout_ok t (pc(th := Exec_Done)) (ct_runtime (finish p ct)) q (ct_mem (finish p ct) ! q)" if "q \<in> active (finish p ct)" for q
      using that k(8) [of q] f(6) [of q] assms(2) by (auto simp: u(2) f(2) callout_ok_def)
    show "running_ok (finish p ct) x q s" if "(pc(th := Exec_Done)) x = Exec_Running q s" for x q s
    proof -
      have x: "x \<noteq> th" "pc x = Exec_Running q s" using that by (auto split: if_splits)
      then have q: "q \<noteq> p" using k(9) [OF x(2)] k(9) [OF assms(2)] by (auto simp: running_ok_def)
      then have r: "running_ok (leave p ct) x q s" by (intro leave_running [OF k(2) p k(9) [OF x(2)]])
      have "\<not> is_due (ct_mem (finish p ct)) s y" if y: "y \<in> set (takeWhile (\<lambda>y. y \<noteq> q) (ct_lbhash (finish p ct) (CALLOUT_LBHASH s)))" for y
      proof -
        have "y \<in> active (finish p ct)" using set_takeWhileD [OF y] chains_okD(6) [OF u(1), of "CALLOUT_LBHASH s"] by blast
        then have "ct_mem (finish p ct) ! y = ct_mem ct ! y" using f(6) [of y] u(2) by simp
        then show ?thesis using r y unfolding running_ok_def is_due_def f(5) l(3) by auto
      qed
      then show ?thesis using r f(6) [OF q] u(2) l f(1) unfolding running_ok_def by (simp add: leave_fields(3))
    qed
  qed (use k u f in simp_all)
qed

lemma exec_resume_table_ok:
  assumes "table_ok t pc lbolt ct" "pc th = Exec_Running p r" "exec_resume th p r ct = Some (pc', ct')"
  shows "table_ok t (pc(th := pc')) lbolt ct'"
proof -
  note k = table_okD [OF assms(1)]
  from k(9) [OF assms(2)] have p: "p \<in> active ct" "runtime_of ct p = r" "unat r \<le> unat (ct_curtime ct)"
    "\<And>q. q \<in> set (takeWhile (\<lambda>q. q \<noteq> p) (ct_lbhash ct (CALLOUT_LBHASH r))) \<Longrightarrow> \<not> is_due (ct_mem ct) r q"
    by (simp_all add: running_ok_def)
  note u = finish_chains [OF k(2) p(1)] and f = finish_fields [where p = p and ct = ct] and t1 = finish_table_ok [OF assms(1,2)]
  obtain A B where "ct_lbhash ct (CALLOUT_LBHASH r) = A @ p # B" and AB: "p \<notin> set A" "ct_lbhash (finish p ct) (CALLOUT_LBHASH r) = A @ B"
    "takeWhile (\<lambda>q. q \<noteq> p) (ct_lbhash ct (CALLOUT_LBHASH r)) = A" "distinct (A @ B)"
    and res: "exec_resume th p r ct = (case find (is_due (ct_mem (finish p ct)) r) B of
       Some q \<Rightarrow> Some (Exec_Running q r, exec_start th q (finish p ct))
     | None \<Rightarrow> exec_while th (if ct_runtime (finish p ct) = r then (finish p ct)\<lparr>ct_runtime := r + 1\<rparr> else finish p ct))"
    by (rule exec_resume_eq [OF k(2) p(1,2)])
  have chain: "q \<in> set (A @ B) \<longleftrightarrow> q \<in> active (finish p ct) \<and> CALLOUT_LBHASH (runtime_of (finish p ct) q) = CALLOUT_LBHASH r" for q
    using chains_okD(6) [OF u(1), of "CALLOUT_LBHASH r"] AB(2) by auto
  have nA: "\<not> is_due (ct_mem (finish p ct)) r q" if "q \<in> set A" for q
  proof -
    have "q \<noteq> p" using that AB(1) by auto
    then show ?thesis using p(4) [unfolded AB(3), OF that] f(6) [of q] by (simp add: is_due_def)
  qed
  show ?thesis
  proof (cases "find (is_due (ct_mem (finish p ct)) r) B")
    case (Some q)
    have q: "q \<in> set B" using Some by (auto simp: find_Some_iff)
    then have "q \<notin> set A" "q \<in> active (finish p ct)" using AB(4) chain by auto
    moreover from this have "takeWhile (\<lambda>x. x \<noteq> q) (A @ B) = A @ takeWhile (\<lambda>x. x \<noteq> q) B" by (auto simp: takeWhile_append)
    ultimately have "table_ok t ((pc(th := Exec_Done))(th := Exec_Running q r)) lbolt (exec_start th q (finish p ct))"
      using find_front [OF Some] nA p(3) f(1) AB(2) by (intro start_table_ok [OF t1 _ Some]) auto
    then show ?thesis using assms(3) res Some by auto
  next
    case None
    define ct2 where "ct2 = (if ct_runtime (finish p ct) = r then (finish p ct)\<lparr>ct_runtime := r + 1\<rparr> else finish p ct)"
    have "\<not> is_due (ct_mem (finish p ct)) r q" if "q \<in> active (finish p ct)" for q
      using that chain [of q] nA [of q] None by (auto simp: find_None_iff is_due_def)
    then have t2: "table_ok t (pc(th := Exec_Done)) lbolt ct2"
      using advance_table_ok [OF t1] t1 p(3) f(1) by (auto simp: ct2_def)
    have "exec_while th ct2 = Some (pc', ct')" using assms(3) res None by (simp add: ct2_def)
    from exec_while_table_ok [OF t2 _ this] show ?thesis by simp
  qed
qed

lemma callout_step_ok:
  "callout_step s s' \<Longrightarrow> table_ok t (cs_pc s) (cs_lbolt s) (cs_table s) \<Longrightarrow> table_ok t (cs_pc s') (cs_lbolt s') (cs_table s')"
proof (induction rule: callout_step.induct)
  case (tick s)
  have "unat (cs_lbolt s + 1) = unat (cs_lbolt s) + 1" using tick(1) by (intro unat_inc) simp
  then show ?case using tick by (auto simp: table_ok_def)
next
  case (timeout delta kmem s func arg i ct)
  then show ?case using timeout_table_ok by simp
next
  case (untimeout i th s r ct)
  then show ?case using untimeout_table_ok by simp
next
  case (schedule s d ct)
  then show ?case using schedule_table_ok by simp
next
  case (execute s th pc ct)
  then show ?case using exec_while_table_ok [OF execute(3,1)] by (simp add: exec_begin_def fun_upd_def)
next
  case (resume s th p r pc ct)
  then show ?case using exec_resume_table_ok [OF resume(3,1)] by (simp add: fun_upd_def)
qed

end
