(* ===== verification/Callout_Theorems.thy ===== *)
theory Callout_Theorems
  imports Callout_Inv
begin

text \<open>
  The properties of callouts: what holds in every interleaving, that scheduling is complete and
  ends, the form of the identifiers, and cancelling.
\<close>

subsection \<open>Identifiers lead to their table\<close>

text \<open>Each entry of \<open>callout_table\<close> is a table whose identifiers carry the number of an entry for the same table.\<close>

definition ids_of :: "nat \<Rightarrow> callout_table \<Rightarrow> bool" where
  "ids_of u ct \<longleftrightarrow> u < 16 \<and> id_ok u False (ct_short_id ct) \<and> id_ok u True (ct_long_id ct)"

definition routed :: "callout_state \<Rightarrow> bool" where
  "routed s \<longleftrightarrow> length (callout_table s) = 16 \<and>
     (\<forall>i < 16. callout_table s ! i < length (tables s) \<and>
        (\<exists>u. callout_table s ! u = callout_table s ! i \<and> ids_of u (tables s ! (callout_table s ! i))))"

lemma table_zero_ids:
  assumes "u < 16"
  shows "ids_of u (table_zero u lbolt q)"
proof -
  have m: "mkid u False 0 = word_of_nat u + CALLOUT_COUNTER_HIGH" "mkid u True 0 = mkid u False 0 + CALLOUT_LONGTERM"
    by (simp_all add: mkid_def CALLOUT_COUNTER_HIGH_def CALLOUT_LONGTERM_def)
  have u: "unat (word_of_nat u :: ulong) = u" using assms by (simp add: unsigned_of_nat take_bit_nat_eq_self)
  then have "\<not> bit (word_of_nat u :: ulong) 61" using assms bit_unat [of 61 "word_of_nat u"] by simp
  then have s: "word_of_nat u OR CALLOUT_COUNTER_HIGH = mkid u False 0" using or_high(2) m(1) by simp
  have "\<not> bit (mkid u False 0) 62" using mkid_bits(2) [OF assms, of 0 False] by simp
  then have "mkid u False 0 AND CALLOUT_LONGTERM = 0" by (intro bit_eqI) (auto simp: bit_and_iff callout_flag_bits)
  then have "mkid u False 0 OR CALLOUT_LONGTERM = mkid u True 0" using m(2) disjunctive_add_eq_or by metis
  then show ?thesis using s assms by (auto simp: ids_of_def table_zero_def Let_def id_ok_def intro!: exI [of _ 0])
qed

text \<open>What \<open>callout_init()\<close> builds: the tables in order, the entries beyond the fan-out wrap around.\<close>

lemma replicate_eq_16: "replicate 16 x = [x, x, x, x, x, x, x, x, x, x, x, x, x, x, x, x]"
  by (simp add: numeral_eq_Suc)

lemma even_upts:
  "[0..<2] = [0, 1 :: nat]"
  "[0..<4] = [0, 1, 2, 3 :: nat]"
  "[0..<6] = [0, 1, 2, 3, 4, 5 :: nat]"
  "[0..<8] = [0, 1, 2, 3, 4, 5, 6, 7 :: nat]"
  "[0..<10] = [0, 1, 2, 3, 4, 5, 6, 7, 8, 9 :: nat]"
  "[0..<12] = [0, 1, 2, 3, 4, 5, 6, 7, 8, 9, 10, 11 :: nat]"
  "[0..<14] = [0, 1, 2, 3, 4, 5, 6, 7, 8, 9, 10, 11, 12, 13 :: nat]"
  "[0..<16] = [0, 1, 2, 3, 4, 5, 6, 7, 8, 9, 10, 11, 12, 13, 14, 15 :: nat]"
  by (simp_all add: upt_rec numeral_eq_Suc)

lemma callout_init_tables:
  assumes "1 \<le> n"
  shows "callout_table (callout_init n lbolt) =
      map (\<lambda>i. (i div 8) * min 8 n + (i mod 8) mod min 8 n) [0..<16] \<and>
    tables (callout_init n lbolt) =
      map (\<lambda>j. table_zero ((j div min 8 n) * 8 + j mod min 8 n) lbolt (j div min 8 n = 1)) [0..<2 * min 8 n]"
proof -
  define k where "k = min 8 n"
  have "k = 1 \<or> k = 2 \<or> k = 3 \<or> k = 4 \<or> k = 5 \<or> k = 6 \<or> k = 7 \<or> k = 8" using assms by (auto simp: k_def)
  then show ?thesis
    unfolding callout_init_def CALLOUT_FANOUT_def CALLOUT_NTYPES_def k_def [symmetric]
    by (elim disjE) (simp_all add: even_upts init_one_def CALLOUT_TABLE_def CALLOUT_NORMAL_def replicate_eq_16 flip: numeral_2_eq_2)
qed


lemma callout_init_routed:
  assumes "1 \<le> n"
  shows "routed (callout_init n lbolt)"
proof -
  define k where "k = min 8 n"
  have k: "1 \<le> k" "k \<le> 8" using assms by (auto simp: k_def)
  define s where "s = callout_init n lbolt"
  have t: "callout_table s = map (\<lambda>i. (i div 8) * k + (i mod 8) mod k) [0..<16]"
    "tables s = map (\<lambda>j. table_zero ((j div k) * 8 + j mod k) lbolt (j div k = 1)) [0..<2 * k]"
    using callout_init_tables [OF assms, of lbolt] by (simp_all add: s_def k_def)
  have "callout_table s ! i < length (tables s) \<and>
      (\<exists>u. callout_table s ! u = callout_table s ! i \<and> ids_of u (tables s ! (callout_table s ! i)))" if i: "i < 16" for i
  proof -
    define a b where "a = i div 8" and "b = (i mod 8) mod k"
    have a: "a < 2" using i by (simp add: a_def less_mult_imp_div_less)
    have b: "b < k" using k by (simp add: b_def)
    have ct: "callout_table s ! i = a * k + b" using i by (simp add: t a_def b_def)
    have u: "a * 8 + b < 16" "(a * 8 + b) div 8 = a" "(a * 8 + b) mod 8 = b" using a b k by auto
    have cu: "callout_table s ! (a * 8 + b) = a * k + b" using u b by (simp add: t)
    have "a = 0 \<or> a = 1" using a by auto
    then have l: "a * k + b < 2 * k" using b by auto
    have "(a * k + b) div k = a" "(a * k + b) mod k = b" using b k by simp_all
    then have "tables s ! (a * k + b) = table_zero (a * 8 + b) lbolt (a = 1)" using l by (simp add: t)
    then have "ids_of (a * 8 + b) (tables s ! (callout_table s ! i))" unfolding ct using table_zero_ids [OF u(1)] by simp
    then show ?thesis using ct cu l by (auto simp: t(2))
  qed
  then show ?thesis unfolding routed_def s_def [symmetric] by (simp add: t(1))
qed

lemma timeout_ids:
  assumes "timeout_common kmem lbolt func arg delta ct = Some (i, ct')" "ids_of u ct"
  shows "(\<exists>long. id_ok u long i) \<and> ids_of u ct'"
proof -
  obtain p fl ct1 long d c where s:
    "(ct_freelist ct = p # fl \<and> ct1 = ct\<lparr>ct_freelist := fl\<rparr>) \<or> (p = length (ct_mem ct) \<and> ct1 = ct\<lparr>ct_mem := ct_mem ct @ [callout_zero]\<rparr>)"
    "d = (if sint delta \<le> 0 then 1 else delta)" "long \<longleftrightarrow> CALLOUT_LONGTERM_TICKS < sint d" "i = next_id (if long then ct_long_id ct else ct_short_id ct)"
    "c_xid c = i" "c_runtime c = lbolt + d" "ct' = enter p c (if long then ct1\<lparr>ct_long_id := i\<rparr> else ct1\<lparr>ct_short_id := i\<rparr>)"
    by (rule timeout_cases [OF assms(1)])
  have u: "u < 16" "id_ok u False (ct_short_id ct)" "id_ok u True (ct_long_id ct)" using assms(2) by (simp_all add: ids_of_def)
  have "id_ok u long i" using id_ok_next [OF u(1)] u(2,3) s(4) by (cases long) auto
  then show ?thesis using u s(1,7) by (auto simp: ids_of_def enter_ids)
qed

lemma routed_update:
  assumes "routed s" "j < 16" "\<And>u. ids_of u (tables s ! (callout_table s ! j)) \<Longrightarrow> ids_of u ct"
  shows "routed (s\<lparr>tables := (tables s)[callout_table s ! j := ct]\<rparr>)"
proof -
  have "\<exists>u. callout_table s ! u = callout_table s ! i \<and> ids_of u ((tables s)[callout_table s ! j := ct] ! (callout_table s ! i))" if i: "i < 16" for i
  proof -
    obtain u where "callout_table s ! u = callout_table s ! i" "ids_of u (tables s ! (callout_table s ! i))"
      using assms(1) i unfolding routed_def by blast
    moreover have "callout_table s ! j < length (tables s)" using assms(1,2) by (auto simp: routed_def)
    ultimately show ?thesis using assms(3) by (cases "callout_table s ! i = callout_table s ! j") auto
  qed
  then show ?thesis using assms(1) by (auto simp: routed_def)
qed

definition callout_start :: "nat \<Rightarrow> ulong \<Rightarrow> bool \<Rightarrow> callout_sys" where
  "callout_start t lbolt taskq = \<lparr>cs_table = table_zero t lbolt taskq, cs_pc = (\<lambda>_. Exec_Done), cs_lbolt = lbolt\<rparr>"

lemma callout_reach_ok:
  assumes "callout_step\<^sup>*\<^sup>* (callout_start t lbolt q) s" "t < 16" "unat lbolt < 2 ^ 62"
  shows "table_ok t (cs_pc s) (cs_lbolt s) (cs_table s)"
proof -
  define z where "z = table_zero t lbolt q"
  have "chains_ok z" "active z = {}" "ct_curtime z = lbolt" "ct_runtime z = lbolt"
    by (simp_all add: z_def table_zero_def Let_def chains_ok_def active_def)
  moreover have "id_ok t False (ct_short_id z)" "id_ok t True (ct_long_id z)" using table_zero_ids [OF assms(2)] by (simp_all add: z_def ids_of_def)
  ultimately have z: "table_ok t (\<lambda>_. Exec_Done) lbolt z" using assms(2,3) by (intro table_okI) simp_all
  show ?thesis using assms(1)
  proof (induction rule: rtranclp_induct)
    case base
    then show ?case using z by (simp add: callout_start_def z_def)
  next
    case (step x y)
    then show ?case using callout_step_ok by blast
  qed
qed

definition waiting :: "callout_table \<Rightarrow> nat set" where
  "waiting ct = {p \<in> active ct. \<not> is_executing (xid_of ct p)}"

lemma schedule_then_execute:
  assumes "table_ok t pc lbolt ct"
  shows "\<exists>d ct'. callout_schedule_1 lbolt ct = Some (d, ct') \<and> (d \<longleftrightarrow> (\<exists>p \<in> waiting ct. unat (runtime_of ct p) \<le> unat lbolt)) \<and>
    (d \<longrightarrow> (\<exists>p r ct''. exec_begin th ct' = Some (Exec_Running p r, ct'') \<and> p \<in> waiting ct \<and> r = runtime_of ct p \<and>
       (\<forall>q \<in> waiting ct. unat r \<le> unat (runtime_of ct q))))"
proof -
  obtain d ct' where s: "callout_schedule_1 lbolt ct = Some (d, ct')"
    using schedule_while_total [of lbolt "ct\<lparr>ct_curtime := lbolt\<rparr>"] by (auto simp: callout_schedule_1_def)
  note k = table_okD [OF assms]
  have b: "unat lbolt < 2 ^ 62" "unat (ct_runtime (ct\<lparr>ct_curtime := lbolt\<rparr>)) \<le> 2 ^ 62" using k(5,6,7) by simp_all
  from search_table_ok [OF assms order.refl k(6) s [unfolded callout_schedule_1_def]]
  have t: "table_ok t pc lbolt ct'" "ct_curtime ct' = lbolt" "ct_mem ct' = ct_mem ct" "ct_lbhash ct' = ct_lbhash ct" "active ct' = active ct"
    "d \<longrightarrow> unat (ct_runtime ct') \<le> unat lbolt \<and> find (is_due (ct_mem ct) (ct_runtime ct')) (ct_lbhash ct (CALLOUT_LBHASH (ct_runtime ct'))) \<noteq> None"
    by simp_all
  have late: "unat lbolt < unat (ct_runtime ct')" if "\<not> d"
    using schedule_while_finds [OF b] s that unfolding callout_schedule_1_def by auto
  have w: "unat (ct_runtime ct') \<le> unat (runtime_of ct q)" if "q \<in> waiting ct" for q
    using table_okD(8) [OF t(1), of q] that t(3,5) by (auto simp: waiting_def callout_ok_def)
  show ?thesis
  proof (cases d)
    case False
    then show ?thesis using s w late by force
  next
    case True
    define r where "r = ct_runtime ct'"
    obtain p where p: "find (is_due (ct_mem ct') r) (ct_lbhash ct' (CALLOUT_LBHASH r)) = Some p" using t True by (auto simp: r_def)
    then have d: "is_due (ct_mem ct) r p" "p \<in> set (ct_lbhash ct (CALLOUT_LBHASH r))" using t(3,4) by (auto simp: find_Some_iff)
    then have wp: "p \<in> waiting ct" "r = runtime_of ct p" using chains_okD(6) [OF k(2)] by (auto simp: waiting_def is_due_def)
    have "sint (r - lbolt) \<le> 0" using t(6) True k(5) sint_diff_le [of r lbolt] by (simp add: r_def del: of_nat_unat)
    then have "exec_begin th ct' = Some (Exec_Running p r, exec_start th p ct')"
      unfolding exec_begin_def using p t(2) by (subst exec_while.simps) (simp add: Let_def r_def)
    moreover have "\<forall>q \<in> waiting ct. unat r \<le> unat (runtime_of ct q)" using w by (simp add: r_def)
    ultimately have "\<exists>p r ct''. exec_begin th ct' = Some (Exec_Running p r, ct'') \<and> p \<in> waiting ct \<and> r = runtime_of ct p \<and>
        (\<forall>q \<in> waiting ct. unat r \<le> unat (runtime_of ct q))" using wp by blast
    moreover have "unat (runtime_of ct p) \<le> unat lbolt" using t(6) True wp(2) by (simp add: r_def)
    ultimately show ?thesis using s True wp(1) by blast
  qed
qed

subsection \<open>Properties\<close>

text \<open>
  C30: However timeouts, cancellations, ticks of the clock, scheduling and the threads that execute
  callouts interleave, the hash chains and the freelist stay consistent, a callout is never run
  before its time nor by two threads, and no callout that waits is ever missed: its run time has not been
  passed by the table.
\<close>

theorem callout_never_early_or_missed:
  assumes "callout_step\<^sup>*\<^sup>* (callout_start t lbolt q) s" "t < 16" "unat lbolt < 2 ^ 62"
  shows "chains_ok (cs_table s) \<and>
    (\<forall>th p r. cs_pc s th = Exec_Running p r \<longrightarrow> p \<in> active (cs_table s) \<and> runtime_of (cs_table s) p = r \<and> unat r \<le> unat (cs_lbolt s) \<and>
       is_executing (xid_of (cs_table s) p) \<and> c_executor (ct_mem (cs_table s) ! p) = th) \<and>
    (\<forall>p \<in> waiting (cs_table s). unat (ct_runtime (cs_table s)) \<le> unat (runtime_of (cs_table s) p))"
proof -
  note k = table_okD [OF callout_reach_ok [OF assms]]
  have "cs_pc s th = Exec_Running p r \<Longrightarrow> unat r \<le> unat (cs_lbolt s)" for th p r using k(6) k(9) [of th p r] by (simp add: running_ok_def)
  then show ?thesis using k(2,8,9) by (auto simp: running_ok_def callout_ok_def waiting_def)
qed

text \<open>A run in which a callout is set for the next tick, the clock ticks, and a thread starts it.\<close>

definition example_table :: callout_table where
  "example_table = snd (the (timeout_common (\<lambda>_. True) 100 7 0 1 (table_zero 3 100 True)))"

lemma example_reach: "callout_step (callout_start 3 100 True) ((callout_start 3 100 True)\<lparr>cs_table := example_table\<rparr>)"
proof -
  have "timeout_common (\<lambda>_. True) 100 7 0 1 (table_zero 3 100 True) = Some (fst (the (timeout_common (\<lambda>_. True) 100 7 0 1 (table_zero 3 100 True))), example_table)"
    unfolding example_table_def by (simp add: timeout_common_def callout_alloc_def table_zero_def Let_def)
  then show ?thesis by (intro callout_step.timeout [of 1 "\<lambda>_. True" _ 7 0]) (simp_all add: callout_start_def)
qed

lemma example_waiting: "waiting example_table = {0}" "runtime_of example_table 0 = 101"
  by (auto simp: example_table_def timeout_common_def callout_alloc_def table_zero_def Let_def waiting_def active_def
      CALLOUT_HASH_INSERT_def CALLOUT_LONGTERM_TICKS_def callout_zero_def is_executing_def CALLOUT_EXECUTING_def next_id_def
      CALLOUT_COUNTER_LOW_def CALLOUT_COUNTER_HIGH_def)

theorem callout_never_early_or_missed_witness:
  "\<exists>s. callout_step\<^sup>*\<^sup>* (callout_start 3 100 True) s \<and> cs_table s = example_table \<and> waiting (cs_table s) = {0} \<and>
     (\<forall>p \<in> waiting (cs_table s). unat (ct_runtime (cs_table s)) \<le> unat (runtime_of (cs_table s) p))"
proof -
  define s where "s = (callout_start 3 100 True)\<lparr>cs_table := example_table\<rparr>"
  have r: "callout_step\<^sup>*\<^sup>* (callout_start 3 100 True) s" using example_reach by (simp add: s_def)
  then show ?thesis using callout_never_early_or_missed [OF r] example_waiting by (intro exI [of _ s]) (simp add: s_def)
qed

text \<open>
  C31: On each tick \<open>callout_schedule_1()\<close> dispatches an execution exactly when a waiting callout is
  due, and the execution then starts one whose run time is the earliest of all that wait.
\<close>

theorem callout_schedule_complete:
  assumes "callout_step\<^sup>*\<^sup>* (callout_start t lbolt q) s" "t < 16" "unat lbolt < 2 ^ 62"
  shows "\<exists>d ct'. callout_schedule_1 (cs_lbolt s) (cs_table s) = Some (d, ct') \<and>
    (d \<longleftrightarrow> (\<exists>p \<in> waiting (cs_table s). unat (runtime_of (cs_table s) p) \<le> unat (cs_lbolt s))) \<and>
    (d \<longrightarrow> (\<exists>p r ct''. exec_begin th ct' = Some (Exec_Running p r, ct'') \<and> p \<in> waiting (cs_table s) \<and> r = runtime_of (cs_table s) p \<and>
       (\<forall>q \<in> waiting (cs_table s). unat r \<le> unat (runtime_of (cs_table s) q))))"
  by (rule schedule_then_execute [OF callout_reach_ok [OF assms]])

theorem callout_schedule_complete_witness:
  "\<exists>ct' ct''. callout_schedule_1 101 example_table = Some (True, ct') \<and> exec_begin 9 ct' = Some (Exec_Running 0 101, ct'')"
proof -
  define s where "s = (callout_start 3 100 True)\<lparr>cs_table := example_table\<rparr>"
  define s' where "s' = s\<lparr>cs_lbolt := cs_lbolt s + 1\<rparr>"
  have l: "cs_lbolt s = 100" "cs_lbolt s' = 101" "cs_table s' = example_table" by (simp_all add: s'_def s_def callout_start_def)
  have "callout_step s s'" unfolding s'_def by (rule callout_step.tick) (simp add: l(1))
  then have "callout_step\<^sup>*\<^sup>* (callout_start 3 100 True) s'" using example_reach by (simp add: s_def rtranclp.rtrancl_into_rtrancl)
  from callout_schedule_complete [OF this, of 9] show ?thesis by (auto simp: l example_waiting)
qed

text \<open>
  C32: The loops of \<open>callout_schedule_1()\<close> and \<open>callout_execute()\<close> over the run times end, whatever the
  table and the clock are: scheduling returns, and an execution reaches its next handler or returns.
\<close>

theorem callout_loops_terminate:
  "(\<exists>r. callout_schedule_1 lbolt ct = Some r) \<and> (\<exists>r. exec_begin th ct = Some r) \<and> (\<exists>r. exec_resume th p runtime ct = Some r)"
proof -
  have e: "\<exists>r. exec_while th ct = Some r" for ct
    using schedule_while_total [of "ct_curtime ct" ct] exec_while_schedule [of th ct] by auto
  then have "\<exists>r. exec_resume th p runtime ct = Some r" unfolding exec_resume_def Let_def by (auto split: option.split)
  then show ?thesis using e schedule_while_total [of lbolt "ct\<lparr>ct_curtime := lbolt\<rparr>"] by (auto simp: callout_schedule_1_def exec_begin_def)
qed

text \<open>
  C33: A timeout's identifier has its form: it is not zero, its high counter bit is set and the
  executing bit is not, and its low bits lead \<open>untimeout()\<close> back to the table of the callout. So
  \<open>untimeout()\<close> never panics on it, at any later time.
\<close>

theorem timeout_id_type:
  assumes "routed s" "t < CALLOUT_NTYPES" "timeout_type t kmem cpu lbolt func arg delta s = Some (i, s')"
  shows "routed s' \<and> i \<noteq> 0 \<and> \<not> is_executing i \<and> callout_table s' ! unat (i AND CALLOUT_TABLE_MASK) = callout_table s ! CALLOUT_TABLE t cpu \<and>
    fst (untimeout th lbolt' i s'') \<noteq> Ut_Panic"
proof -
  define j where "j = CALLOUT_TABLE t cpu"
  define ct where "ct = tables s ! (callout_table s ! j)"
  have j: "j < 16" using assms(2) mod_less_divisor [of 8 cpu] by (auto simp: j_def CALLOUT_TABLE_def CALLOUT_NTYPES_def less_Suc_eq numeral_2_eq_2)
  obtain ct' where c: "timeout_common kmem lbolt func arg delta ct = Some (i, ct')" "s' = s\<lparr>tables := (tables s)[callout_table s ! j := ct']\<rparr>"
    using assms(3) by (auto simp: timeout_type_def Let_def j_def ct_def)
  obtain u where u: "callout_table s ! u = callout_table s ! j" "ids_of u ct" using assms(1) j unfolding routed_def ct_def by blast
  obtain long where i: "id_ok u long i" using timeout_ids [OF c(1) u(2)] by blast
  have "routed s'" unfolding c(2) using timeout_ids [OF c(1)] by (intro routed_update [OF assms(1) j]) (simp add: ct_def)
  moreover have u16: "u < 16" using u(2) by (simp add: ids_of_def)
  note b = id_ok_bits [OF u16 i]
  have "fst (untimeout th lbolt' i s'') \<noteq> Ut_Panic"
    using b(6) by (auto simp: untimeout_def untimeout_table_def Let_def split: prod.splits option.splits if_splits)
  ultimately show ?thesis using b(3,4,5) u(1) by (simp add: c(2) j_def)
qed

theorem timeout_id_type_witness:
  "case timeout_type 1 (\<lambda>_. True) 5 100 7 0 1 (callout_init 4 100) of
     None \<Rightarrow> False | Some (i, s') \<Rightarrow> i \<noteq> 0 \<and> routed s'"
proof -
  define s where "s = callout_init 4 100"
  have r: "routed s" unfolding s_def by (rule callout_init_routed) simp
  have "timeout_type 1 (\<lambda>_. True) 5 100 7 0 1 s \<noteq> None"
    by (simp add: timeout_type_def timeout_common_def callout_alloc_def Let_def split: list.split)
  then obtain i s' where e: "timeout_type 1 (\<lambda>_. True) 5 100 7 0 1 s = Some (i, s')" by auto
  from timeout_id_type [OF r _ this] show ?thesis using e by (simp add: s_def CALLOUT_NTYPES_def)
qed

text \<open>
  C34: Successive identifiers of a kind are distinct until the counter of 57 bits has wrapped.
\<close>

theorem callout_ids_distinct:
  assumes "t < 16" "id_ok t long i" "m < 2 ^ 57" "n < 2 ^ 57" "(next_id ^^ m) i = (next_id ^^ n) i"
  shows "m = n"
proof -
  obtain c where c: "c < 2 ^ 57" "i = mkid t long c" using assms(2) by (auto simp: id_ok_def)
  define a where "a k = (int c - int k) mod 2 ^ 57" for k
  have a: "0 \<le> a k" "a k < 2 ^ 57" for k by (simp_all add: a_def)
  have "mkid t long (nat (a m)) = mkid t long (nat (a n))"
    using assms(5) next_mkid_iter [OF assms(1) c(1), of _ long] c(2) by (simp add: a_def)
  then have "nat (a m) = nat (a n)" using a by (intro mkid_inj [OF assms(1)]) (auto simp: nat_less_iff)
  then have "(int c - int m) mod 2 ^ 57 = (int c - int n) mod 2 ^ 57" using a [of m] a [of n] by (simp add: a_def)
  then have "(2 ^ 57 :: int) dvd (int n - int m)" by (simp add: mod_eq_dvd_iff)
  then show ?thesis using assms(3,4) zdvd_imp_le [of "2 ^ 57" "int n - int m"] zdvd_imp_le [of "2 ^ 57" "int m - int n"]
    by (cases m n rule: linorder_cases) (auto simp: dvd_diff_commute)
qed

theorem callout_ids_distinct_witness: "next_id (mkid 3 False 5) \<noteq> mkid 3 False 5"
proof -
  have "id_ok 3 False (mkid 3 False 5)" unfolding id_ok_def by (intro exI [of _ 5]) simp
  from callout_ids_distinct [OF _ this, of 1 0] show ?thesis by auto
qed

text \<open>
  C35: Cancelling a timeout at once returns the ticks that are left, at least one, and restores the hash
  chains and the set of callouts in use.
\<close>

theorem timeout_untimeout_roundtrip:
  assumes "chains_ok ct" "timeout_common kmem lbolt func arg delta ct = Some (i, ct1)"
  shows "case untimeout_table th lbolt i ct1 of (r, ct2) \<Rightarrow>
    r = Ut_Left (if sint delta \<le> 0 then 1 else delta) \<and> ct_idhash ct2 = ct_idhash ct \<and> ct_lbhash ct2 = ct_lbhash ct \<and> active ct2 = active ct"
proof -
  obtain p fl ct0 long d c where s:
    "(ct_freelist ct = p # fl \<and> ct0 = ct\<lparr>ct_freelist := fl\<rparr>) \<or> (p = length (ct_mem ct) \<and> ct0 = ct\<lparr>ct_mem := ct_mem ct @ [callout_zero]\<rparr>)"
    "d = (if sint delta \<le> 0 then 1 else delta)" "long \<longleftrightarrow> CALLOUT_LONGTERM_TICKS < sint d" "i = next_id (if long then ct_long_id ct else ct_short_id ct)"
    "c_xid c = i" "c_runtime c = lbolt + d" "ct1 = enter p c (if long then ct0\<lparr>ct_long_id := i\<rparr> else ct0\<lparr>ct_short_id := i\<rparr>)"
    by (rule timeout_cases [OF assms(2)])
  define e where "e = enter p c ct0"
  have n: "chains_ok e" "active e = insert p (active ct)" "p \<notin> active ct" "ct_mem e ! p = c"
    using enter_chains(1-4) [OF assms(1) s(1)] by (simp_all add: e_def)
  have f: "ct_mem ct1 = ct_mem e" "ct_idhash ct1 = ct_idhash e" "ct_lbhash ct1 = ct_lbhash e" "active ct1 = active e" "chains_ok ct1"
    using s(7) n(1) by (auto simp: e_def)
  have h: "ct_idhash e = (ct_idhash ct)(CALLOUT_IDHASH i := p # ct_idhash ct (CALLOUT_IDHASH i))"
    "ct_lbhash e = (ct_lbhash ct)(CALLOUT_LBHASH (lbolt + d) := p # ct_lbhash ct (CALLOUT_LBHASH (lbolt + d)))"
    using s(1,5,6) by (auto simp: e_def enter_def CALLOUT_HASH_INSERT_def)
  have x: "xid_of ct1 p = i" "runtime_of ct1 p = lbolt + d" using n(4) s(5,6) f(1) by simp_all
  have "untimeout_find (ct_mem ct1) i (ct_idhash ct1 (CALLOUT_IDHASH i)) = Some p" using x by (simp add: f(2) h)
  moreover have "0 < sint d" using s(2) by auto
  ultimately have u: "untimeout_table th lbolt i ct1 = (Ut_Left d, leave p ct1)"
    by (simp add: untimeout_table_def x Let_def leave_def)
  have "p \<in> active ct1" using n(2) f(4) by simp
  from leave_chains(2) [OF f(5) this] have "active (leave p ct1) = active ct" using n(2,3) f(4) by auto
  moreover have "ct_idhash (leave p ct1) = ct_idhash ct" "ct_lbhash (leave p ct1) = ct_lbhash ct"
    by (simp_all add: leave_def Let_def CALLOUT_HASH_DELETE_def x f(2,3) h)
  ultimately show ?thesis using u s(2) by simp
qed

theorem timeout_untimeout_roundtrip_witness:
  "case timeout_common (\<lambda>_. True) 100 7 0 25 (table_zero 3 100 True) of
     None \<Rightarrow> False | Some (i, ct) \<Rightarrow> fst (untimeout_table 9 100 i ct) = Ut_Left 25"
proof -
  define z where "z = table_zero 3 100 True"
  have c: "chains_ok z" by (simp add: z_def table_zero_def Let_def chains_ok_def active_def)
  have "timeout_common (\<lambda>_. True) 100 7 0 25 z \<noteq> None" by (simp add: timeout_common_def callout_alloc_def Let_def split: list.split)
  then obtain i ct where e: "timeout_common (\<lambda>_. True) 100 7 0 25 z = Some (i, ct)" by auto
  from timeout_untimeout_roundtrip [OF c e, of 9] show ?thesis using e by (simp add: z_def split: prod.splits)
qed

end
