(* ===== verification/Cyclic_Heap.thy ===== *)
theory Cyclic_Heap
  imports Kernel_Prelude
begin

section \<open>The heap of cyclics\<close>

text \<open>
  The array heap of \<open>uts/common/os/cyclic.c\<close>: the loops of \<open>cyclic_upheap()\<close> and \<open>cyclic_downheap()\<close>
  over the array \<open>cyp_heap\<close> of indices, where \<open>key\<close> gives the expiration time of an index. Both end
  and restore the order of a heap in which it fails at one place only.
\<close>

subsection \<open>The two loops\<close>

definition CYC_HEAP_PARENT :: "nat \<Rightarrow> nat" where "CYC_HEAP_PARENT ndx = (ndx - 1) div 2"
definition CYC_HEAP_RIGHT :: "nat \<Rightarrow> nat" where "CYC_HEAP_RIGHT ndx = (ndx + 1) * 2"
definition CYC_HEAP_LEFT :: "nat \<Rightarrow> nat" where "CYC_HEAP_LEFT ndx = (ndx + 1) * 2 - 1"

lemma parent_less: "0 < CYC_HEAP_PARENT i \<Longrightarrow> CYC_HEAP_PARENT i < i"
  by (auto simp: CYC_HEAP_PARENT_def)

function upheap_loop :: "(nat \<Rightarrow> int) \<Rightarrow> nat \<Rightarrow> nat list \<Rightarrow> bool \<times> nat list" where
  "upheap_loop key heap_current heap =
     (let heap_parent = CYC_HEAP_PARENT heap_current;
          current = heap ! heap_current;
          parent = heap ! heap_parent
      in if key current \<ge> key parent then (False, heap)
         else let heap = heap[heap_parent := current, heap_current := parent]
              in if heap_parent = 0 then (True, heap) else upheap_loop key heap_parent heap)"
  by auto
termination by (relation "measure (\<lambda>(key, i, heap). i)") (auto simp: parent_less)

function downheap_loop :: "(nat \<Rightarrow> int) \<Rightarrow> nat \<Rightarrow> nat \<Rightarrow> nat list \<Rightarrow> nat list" where
  "downheap_loop key nelems heap_me heap =
     (let heap_left = CYC_HEAP_LEFT heap_me
      in if heap_left \<ge> nelems then heap
         else let left = heap ! heap_left;
                  me = heap ! heap_me;
                  heap_right = CYC_HEAP_RIGHT heap_me
              in if heap_right < nelems \<and> key (heap ! heap_right) < key left
                 then let right = heap ! heap_right
                      in if key me \<le> key right then heap
                         else downheap_loop key nelems heap_right (heap[heap_right := me, heap_me := right])
                 else if key me \<le> key left then heap
                      else downheap_loop key nelems heap_left (heap[heap_left := me, heap_me := left]))"
  by auto
termination by (relation "measure (\<lambda>(key, nelems, i, heap). nelems - i)") (auto simp: CYC_HEAP_LEFT_def CYC_HEAP_RIGHT_def)

declare upheap_loop.simps [simp del] downheap_loop.simps [simp del]

subsection \<open>Heap order\<close>

abbreviation par :: "nat \<Rightarrow> nat" where "par \<equiv> CYC_HEAP_PARENT"

definition heap_ord :: "(nat \<Rightarrow> int) \<Rightarrow> nat \<Rightarrow> nat list \<Rightarrow> bool" where
  "heap_ord key n h \<longleftrightarrow> (\<forall>j. 0 < j \<and> j < n \<longrightarrow> key (h ! par j) \<le> key (h ! j))"

text \<open>The order holds but for the place \<open>i\<close>, whose children are not before its parent.\<close>

definition hole :: "(nat \<Rightarrow> int) \<Rightarrow> nat \<Rightarrow> nat \<Rightarrow> nat list \<Rightarrow> bool" where
  "hole key n i h \<longleftrightarrow> (\<forall>j. 0 < j \<and> j < n \<and> j \<noteq> i \<and> par j \<noteq> i \<longrightarrow> key (h ! par j) \<le> key (h ! j)) \<and>
     (0 < i \<longrightarrow> (\<forall>j. 0 < j \<and> j < n \<and> par j = i \<longrightarrow> key (h ! par i) \<le> key (h ! j)))"

lemma par_lt: "0 < j \<Longrightarrow> par j < j"
  by (auto simp: CYC_HEAP_PARENT_def)

lemma children: "0 < j \<Longrightarrow> par j = i \<longleftrightarrow> j = CYC_HEAP_LEFT i \<or> j = CYC_HEAP_RIGHT i"
  by (auto simp: CYC_HEAP_PARENT_def CYC_HEAP_LEFT_def CYC_HEAP_RIGHT_def)

lemma left_right: "i < CYC_HEAP_LEFT i" "i < CYC_HEAP_RIGHT i" "par (CYC_HEAP_LEFT i) = i" "par (CYC_HEAP_RIGHT i) = i"
  "CYC_HEAP_RIGHT i = Suc (CYC_HEAP_LEFT i)"
  by (auto simp: CYC_HEAP_PARENT_def CYC_HEAP_LEFT_def CYC_HEAP_RIGHT_def)

lemma heap_root_min:
  assumes "heap_ord key n h" "j < n"
  shows "key (h ! 0) \<le> key (h ! j)"
  using assms(2)
proof (induction j rule: less_induct)
  case (less j)
  show ?case
  proof (cases "j = 0")
    case False
    then have "key (h ! 0) \<le> key (h ! par j)" using less par_lt [of j] by simp
    also have "\<dots> \<le> key (h ! j)" using assms(1) less.prems False by (simp add: heap_ord_def)
    finally show ?thesis .
  qed simp
qed

lemma heap_ord_hole: "heap_ord key n h \<Longrightarrow> i < n \<Longrightarrow> hole key n i h"
  unfolding heap_ord_def hole_def using par_lt by (metis order.trans)

text \<open>An exchange of two places is a permutation.\<close>

lemma swap_perm: "a < length h \<Longrightarrow> b < length h \<Longrightarrow> mset (h[a := h ! b, b := h ! a]) = mset h"
  using mset_swap [of b h a] by (cases "a = b") (auto simp: list_update_swap)

lemma upheap_loop_perm:
  assumes "i < length h"
  shows "mset (snd (upheap_loop key i h)) = mset h \<and> length (snd (upheap_loop key i h)) = length h \<and>
    (\<forall>j > i. snd (upheap_loop key i h) ! j = h ! j)"
  using assms
proof (induction key i h rule: upheap_loop.induct)
  case (1 key i h)
  show ?case
  proof (cases "key (h ! i) \<ge> key (h ! par i)")
    case True
    then show ?thesis by (subst (1 2 3) upheap_loop.simps) (simp add: Let_def)
  next
    case False
    define h' where "h' = h[par i := h ! i, i := h ! par i]"
    have i: "0 < i" using False by (cases i) (auto simp: CYC_HEAP_PARENT_def)
    have p: "par i < i" "par i < length h" using par_lt [OF i] 1(2) by simp_all
    have m: "mset h' = mset h" "length h' = length h" using swap_perm [OF p(2) 1(2)] by (simp_all add: h'_def)
    have n: "\<forall>j > i. h' ! j = h ! j" using p(1) by (simp add: h'_def)
    show ?thesis
    proof (cases "par i = 0")
      case True
      then have "upheap_loop key i h = (True, h')" using False by (subst upheap_loop.simps) (simp add: Let_def h'_def)
      then show ?thesis using m n by simp
    next
      case g: False
      then have "upheap_loop key i h = upheap_loop key (par i) h'" using False by (subst upheap_loop.simps) (simp add: Let_def h'_def)
      moreover have "mset (snd (upheap_loop key (par i) h')) = mset h' \<and> length (snd (upheap_loop key (par i) h')) = length h' \<and>
          (\<forall>j > par i. snd (upheap_loop key (par i) h') ! j = h' ! j)"
        using 1(1) [OF refl refl refl _ _ g] False p m(2) by (simp add: h'_def)
      ultimately show ?thesis using m n p(1) by simp
    qed
  qed
qed


lemma heap_ord_closed:
  assumes "hole key n i h" "0 < i \<Longrightarrow> key (h ! par i) \<le> key (h ! i)" "\<And>j. 0 < j \<Longrightarrow> j < n \<Longrightarrow> par j = i \<Longrightarrow> key (h ! i) \<le> key (h ! j)"
  shows "heap_ord key n h"
  unfolding heap_ord_def
proof (intro allI impI)
  fix j assume j: "0 < j \<and> j < n"
  show "key (h ! par j) \<le> key (h ! j)"
  proof (cases "j = i \<or> par j = i")
    case True
    then show ?thesis using assms(2,3) j by auto
  next
    case False
    then show ?thesis using assms(1) j unfolding hole_def by blast
  qed
qed

lemma hole_up:
  assumes "hole key n i h" "0 < i" "i < n" "n \<le> length h" "key (h ! i) < key (h ! par i)"
  shows "hole key n (par i) (h[par i := h ! i, i := h ! par i])"
    "0 < j \<Longrightarrow> j < n \<Longrightarrow> par j = par i \<Longrightarrow> key (h[par i := h ! i, i := h ! par i] ! par i) \<le> key (h[par i := h ! i, i := h ! par i] ! j)"
proof -
  define p where "p = par i"
  define h' where "h' = h[p := h ! i, i := h ! p]"
  have p: "p < i" "i < length h" using par_lt [OF assms(2)] assms(3,4) by (simp_all add: p_def)
  have h': "h' ! p = h ! i" "h' ! i = h ! p" "\<And>j. j \<noteq> p \<Longrightarrow> j \<noteq> i \<Longrightarrow> h' ! j = h ! j" using p by (simp_all add: h'_def)
  have o: "key (h ! par j) \<le> key (h ! j)" if "0 < j" "j < n" "j \<noteq> i" "par j \<noteq> i" for j using assms(1) that by (auto simp: hole_def)
  have c: "key (h ! p) \<le> key (h ! j)" if "0 < j" "j < n" "par j = i" for j using assms(1,2) that by (auto simp: hole_def p_def)
  have 1: "key (h' ! par j) \<le> key (h' ! j)" if j: "0 < j" "j < n" "j \<noteq> p" "par j \<noteq> p" for j
  proof (cases "par j = i")
    case True
    then have "i < j" using par_lt [of j] j(1) by simp
    then show ?thesis using True c [OF j(1,2) True] h'(2) h'(3) [of j] j(3) by simp
  next
    case False
    moreover have "j \<noteq> i" using j(4) by (auto simp: p_def)
    ultimately show ?thesis using o [OF j(1,2)] h'(3) [of j] h'(3) [of "par j"] j(3,4) by simp
  qed
  have 2: "key (h' ! par p) \<le> key (h' ! j)" if j: "0 < p" "0 < j" "j < n" "par j = p" for j
  proof -
    have pp: "par p < p" using par_lt [OF j(1)] .
    then have q: "h' ! par p = h ! par p" using p(1) h'(3) by simp
    have k: "key (h ! par p) \<le> key (h ! p)" using o [of p] j(1) pp p assms(3) by simp
    show ?thesis
    proof (cases "j = i")
      case False
      then have "key (h ! p) \<le> key (h ! j)" "h' ! j = h ! j" using o [of j] j p(1) h'(3) [of j] par_lt [of j] by auto
      then show ?thesis using q k by simp
    qed (use q k h' in simp)
  qed
  show "hole key n (par i) (h[par i := h ! i, i := h ! par i])" using 1 2 unfolding hole_def h'_def p_def by blast
  show "key (h[par i := h ! i, i := h ! par i] ! par i) \<le> key (h[par i := h ! i, i := h ! par i] ! j)" if j: "0 < j" "j < n" "par j = par i" for j
  proof (cases "j = i")
    case True
    then show ?thesis using assms(5) h' by (simp add: h'_def p_def)
  next
    case False
    then have "key (h ! p) \<le> key (h ! j)" "h' ! j = h ! j" using o [of j] j p(1) h'(3) [of j] par_lt [of j] by (auto simp: p_def)
    then show ?thesis using assms(5) h'(1) by (simp add: h'_def p_def)
  qed
qed

lemma upheap_loop_ord:
  assumes "hole key n i h" "0 < i" "i < n" "n \<le> length h" "\<And>j. 0 < j \<Longrightarrow> j < n \<Longrightarrow> par j = i \<Longrightarrow> key (h ! i) \<le> key (h ! j)"
  shows "heap_ord key n (snd (upheap_loop key i h)) \<and> snd (upheap_loop key i h) ! 0 = (if fst (upheap_loop key i h) then h ! i else h ! 0)"
  using assms
proof (induction key i h rule: upheap_loop.induct)
  case (1 key i h)
  note hl = 1(2) and i = 1(3,4,5) and ch = 1(6)
  show ?case
  proof (cases "key (h ! i) \<ge> key (h ! par i)")
    case True
    then have "upheap_loop key i h = (False, h)" by (subst upheap_loop.simps) (simp add: Let_def)
    moreover have "heap_ord key n h"
    proof (rule heap_ord_closed [OF hl])
      show "key (h ! par i) \<le> key (h ! i)" by (rule True)
      show "key (h ! i) \<le> key (h ! j)" if "0 < j" "j < n" "par j = i" for j by (rule ch [OF that])
    qed
    ultimately show ?thesis by simp
  next
    case False
    define h' where "h' = h[par i := h ! i, i := h ! par i]"
    have p: "par i < i" using par_lt [OF i(1)] .
    have k: "key (h ! i) < key (h ! par i)" using False by simp
    note hl' = hole_up(1) [OF hl i k, folded h'_def] and ch' = hole_up(2) [OF hl i k, folded h'_def]
    have hp: "h' ! par i = h ! i" using p i by (simp add: h'_def)
    show ?thesis
    proof (cases "par i = 0")
      case True
      then have "upheap_loop key i h = (True, h')" using False by (subst upheap_loop.simps) (simp add: Let_def h'_def)
      moreover have "heap_ord key n h'"
      proof (rule heap_ord_closed [OF hl'])
        show "key (h' ! par (par i)) \<le> key (h' ! par i)" if "0 < par i" using that True by simp
        show "key (h' ! par i) \<le> key (h' ! j)" if "0 < j" "j < n" "par j = par i" for j by (rule ch' [OF that])
      qed
      ultimately show ?thesis using hp True by simp
    next
      case g: False
      then have u: "upheap_loop key i h = upheap_loop key (par i) h'" using False by (subst upheap_loop.simps) (simp add: Let_def h'_def)
      have z: "h' ! 0 = h ! 0" using g p by (simp add: h'_def)
      have pp: "0 < par i" "par i < n" "n \<le> length h'" using g p i by (simp_all add: h'_def)
      show ?thesis unfolding u hp [symmetric] z [symmetric] by (rule 1(1) [OF refl refl refl False refl g, folded h'_def, OF hl' pp ch'])
    qed
  qed
qed

text \<open>If the element is not before its parent the loop does nothing; otherwise it leaves its place.\<close>

lemma upheap_loop_moves:
  assumes "0 < i" "i < length h" "distinct h"
  shows "key (h ! par i) \<le> key (h ! i) \<Longrightarrow> upheap_loop key i h = (False, h)"
    "key (h ! i) < key (h ! par i) \<Longrightarrow> snd (upheap_loop key i h) ! i \<noteq> h ! i"
proof -
  show "key (h ! par i) \<le> key (h ! i) \<Longrightarrow> upheap_loop key i h = (False, h)" by (subst upheap_loop.simps) (simp add: Let_def)
  assume k: "key (h ! i) < key (h ! par i)"
  define h' where "h' = h[par i := h ! i, i := h ! par i]"
  have p: "par i < i" using par_lt [OF assms(1)] .
  have h': "h' ! i = h ! par i" "length h' = length h" using p assms(2) by (simp_all add: h'_def)
  have "snd (upheap_loop key i h) ! i = h' ! i"
  proof (cases "par i = 0")
    case True
    then show ?thesis using k by (subst upheap_loop.simps) (simp add: Let_def h'_def)
  next
    case False
    then have "upheap_loop key i h = upheap_loop key (par i) h'" using k by (subst upheap_loop.simps) (simp add: Let_def h'_def)
    then show ?thesis using upheap_loop_perm [of "par i" h' key] p h'(2) assms(2) by simp
  qed
  then show "snd (upheap_loop key i h) ! i \<noteq> h ! i" using h' p assms by (simp add: nth_eq_iff_index_eq)
qed


text \<open>One turn of \<open>cyclic_downheap()\<close>: it stops, or descends to the child that expires first.\<close>

definition down_child :: "(nat \<Rightarrow> int) \<Rightarrow> nat \<Rightarrow> nat \<Rightarrow> nat list \<Rightarrow> nat" where
  "down_child key n i h =
     (if CYC_HEAP_RIGHT i < n \<and> key (h ! CYC_HEAP_RIGHT i) < key (h ! CYC_HEAP_LEFT i) then CYC_HEAP_RIGHT i else CYC_HEAP_LEFT i)"

lemma downheap_turn:
  "downheap_loop key n i h =
     (if n \<le> CYC_HEAP_LEFT i \<or> key (h ! i) \<le> key (h ! down_child key n i h) then h
      else downheap_loop key n (down_child key n i h) (h[down_child key n i h := h ! i, i := h ! down_child key n i h]))"
  by (subst downheap_loop.simps) (simp add: Let_def down_child_def)

lemma down_child:
  assumes "CYC_HEAP_LEFT i < n"
  shows "i < down_child key n i h" "down_child key n i h < n" "par (down_child key n i h) = i"
    "\<And>j. 0 < j \<Longrightarrow> j < n \<Longrightarrow> par j = i \<Longrightarrow> key (h ! down_child key n i h) \<le> key (h ! j)"
  using assms by (auto simp: down_child_def left_right(1-4) children)

lemma downheap_loop_perm:
  assumes "i < n" "n \<le> length h"
  shows "mset (downheap_loop key n i h) = mset h \<and> length (downheap_loop key n i h) = length h \<and>
    (\<forall>j. n \<le> j \<longrightarrow> downheap_loop key n i h ! j = h ! j) \<and> (\<forall>j < i. downheap_loop key n i h ! j = h ! j)"
  using assms
proof (induction "n - i" arbitrary: i h rule: less_induct)
  case less
  define c where "c = down_child key n i h"
  show ?case
  proof (cases "n \<le> CYC_HEAP_LEFT i \<or> key (h ! i) \<le> key (h ! c)")
    case True
    then have "downheap_loop key n i h = h" using downheap_turn [of key n i h] by (simp add: c_def)
    then show ?thesis by simp
  next
    case False
    define h' where "h' = h[c := h ! i, i := h ! c]"
    have c: "i < c" "c < n" using down_child(1,2) [of i n key h] False by (simp_all add: c_def)
    have e: "downheap_loop key n i h = downheap_loop key n c h'" using downheap_turn [of key n i h] False by (simp add: c_def h'_def)
    have h': "mset h' = mset h" "length h' = length h" "\<And>j. j \<noteq> i \<Longrightarrow> j \<noteq> c \<Longrightarrow> h' ! j = h ! j"
      using swap_perm [of c h i] c less.prems by (simp_all add: h'_def)
    have "n - c < n - i" "n \<le> length h'" using c less.prems h'(2) by simp_all
    from less.hyps [OF this(1) c(2) this(2)] show ?thesis unfolding e using h' c less.prems by auto
  qed
qed

lemma hole_down:
  assumes "hole key n i h" "i < n" "n \<le> length h" "CYC_HEAP_LEFT i < n" "c = down_child key n i h" "h' = h[c := h ! i, i := h ! c]"
    "0 < i \<Longrightarrow> key (h ! par i) \<le> key (h ! i)" "key (h ! c) < key (h ! i)"
  shows "hole key n c h'" "key (h' ! par c) \<le> key (h' ! c)"
proof -
  have c: "i < c" "c < n" "par c = i" "\<And>j. 0 < j \<Longrightarrow> j < n \<Longrightarrow> par j = i \<Longrightarrow> key (h ! c) \<le> key (h ! j)"
    using down_child [OF assms(4)] assms(5) by simp_all
  have h': "h' ! c = h ! i" "h' ! i = h ! c" "\<And>j. j \<noteq> i \<Longrightarrow> j \<noteq> c \<Longrightarrow> h' ! j = h ! j" using c assms(3,6) by simp_all
  have o: "key (h ! par j) \<le> key (h ! j)" if "0 < j" "j < n" "j \<noteq> i" "par j \<noteq> i" for j using assms(1) that by (auto simp: hole_def)
  have ch: "key (h ! par i) \<le> key (h ! j)" if "0 < i" "0 < j" "j < n" "par j = i" for j using assms(1) that unfolding hole_def by blast
  have 1: "key (h' ! par j) \<le> key (h' ! j)" if j: "0 < j" "j < n" "j \<noteq> c" "par j \<noteq> c" for j
  proof (cases "j = i")
    case True
    then have "par j < i" "h' ! par j = h ! par i" using par_lt [OF j(1)] h'(3) [of "par j"] c(1) by simp_all
    then show ?thesis using True ch [of c] j(1) c h'(2) by simp
  next
    case False
    show ?thesis
    proof (cases "par j = i")
      case True
      then show ?thesis using c(4) [OF j(1,2)] h'(2) h'(3) [OF False j(3)] by simp
    next
      case g: False
      then show ?thesis using o [OF j(1,2) False g] h'(3) [OF False j(3)] h'(3) [OF g j(4)] by simp
    qed
  qed
  have 2: "key (h' ! par c) \<le> key (h' ! j)" if j: "0 < j" "j < n" "par j = c" for j
  proof -
    have "c < j" using par_lt [OF j(1)] j(3) by simp
    then show ?thesis using o [OF j(1,2)] j(3) c(1,3) h'(2) h'(3) [of j] by simp
  qed
  show "hole key n c h'" unfolding hole_def using 1 2 by blast
  show "key (h' ! par c) \<le> key (h' ! c)" using assms(8) c(3) h' by simp
qed

lemma downheap_loop_ord:
  assumes "hole key n i h" "i < n" "n \<le> length h" "0 < i \<Longrightarrow> key (h ! par i) \<le> key (h ! i)"
  shows "heap_ord key n (downheap_loop key n i h)"
  using assms
proof (induction "n - i" arbitrary: i h rule: less_induct)
  case less
  define c where "c = down_child key n i h"
  show ?case
  proof (cases "n \<le> CYC_HEAP_LEFT i \<or> key (h ! i) \<le> key (h ! c)")
    case True
    have "heap_ord key n h"
    proof (rule heap_ord_closed [OF less.prems(1)])
      show "key (h ! par i) \<le> key (h ! i)" if "0 < i" by (rule less.prems(4) [OF that])
      show "key (h ! i) \<le> key (h ! j)" if j: "0 < j" "j < n" "par j = i" for j
      proof -
        have l: "CYC_HEAP_LEFT i < n" using j left_right(5) [of i] children [OF j(1), of i] by auto
        then show ?thesis using True down_child(4) [OF l j, of key h] by (simp add: c_def)
      qed
    qed
    moreover have "downheap_loop key n i h = h" using downheap_turn [of key n i h] True by (simp add: c_def)
    ultimately show ?thesis by simp
  next
    case False
    define h' where "h' = h[c := h ! i, i := h ! c]"
    have l: "CYC_HEAP_LEFT i < n" "key (h ! c) < key (h ! i)" using False by simp_all
    have c: "i < c" "c < n" using down_child(1,2) [OF l(1), of key h] by (simp_all add: c_def)
    have e: "downheap_loop key n i h = downheap_loop key n c h'" using downheap_turn [of key n i h] False by (simp add: c_def h'_def)
    note d = hole_down [OF less.prems(1-3) l(1) c_def h'_def less.prems(4) l(2)]
    have "n - c < n - i" "n \<le> length h'" using c less.prems by (simp_all add: h'_def)
    from less.hyps [OF this(1) d(1) c(2) this(2) d(2)] show ?thesis unfolding e .
  qed
qed

end
