(* ===== verification/Cyclic.thy ===== *)
theory Cyclic
  imports Cyclic_Heap
begin

section \<open>The cyclic subsystem: cyclic.c\<close>

text \<open>
  The per-CPU interval timers of \<open>uts/common/os/cyclic.c\<close>. A \<open>hrtime_t\<close> is an integer, and every sum of
  the code is reduced to 64 bits by \<open>hr\<close>. The cyclics of a CPU are a list; the pointer to it, which
  \<open>cyclic_expand()\<close> exchanges while soft interrupts may hold the old one, is the number of expansions
  so far (\<open>cyp_gen\<close>), and the list of the expansion before stays in \<open>cyp_old\<close>. What the subsystem asks
  of the backend and the handlers it calls are the events of the CPU, in order.
\<close>

subsection \<open>Constants and structures\<close>

definition CY_LOW_LEVEL :: nat where "CY_LOW_LEVEL = 0"
definition CY_LOCK_LEVEL :: nat where "CY_LOCK_LEVEL = 1"
definition CY_HIGH_LEVEL :: nat where "CY_HIGH_LEVEL = 2"
definition CY_SOFT_LEVELS :: nat where "CY_SOFT_LEVELS = 2"
definition CY_DEFAULT_PERCPU :: nat where "CY_DEFAULT_PERCPU = 1"
definition NANOSEC :: int where "NANOSEC = 1000000000"

type_synonym cy_flags = "16 word"

definition CYF_FREE :: cy_flags where "CYF_FREE = 1"
definition CYF_CPU_BOUND :: cy_flags where "CYF_CPU_BOUND = 2"
definition CYF_PART_BOUND :: cy_flags where "CYF_PART_BOUND = 4"

definition hr :: "int \<Rightarrow> int" where "hr t = signed_take_bit 63 t"

datatype cyc_state = CYS_ONLINE | CYS_OFFLINE | CYS_EXPANDING | CYS_REMOVING | CYS_SUSPENDED

record cyclic =
  cy_expire :: int
  cy_interval :: int
  cy_handler :: nat
  cy_arg :: ulong
  cy_pend :: uint32
  cy_flags :: cy_flags
  cy_level :: nat

record cyc_handler =
  cyh_func :: nat
  cyh_arg :: ulong
  cyh_level :: nat

record cyc_time =
  cyt_when :: int
  cyt_interval :: int

record cyc_pcbuffer =
  cypc_buf :: "nat list"
  cypc_prodndx :: uint32
  cypc_consndx :: uint32
  cypc_sizemask :: uint32

record cyc_softbuf =
  cys_hard :: bool
  cys_soft :: bool
  cys_buf :: "bool \<Rightarrow> cyc_pcbuffer"

datatype cyc_event =
  Cyb_enable | Cyb_disable | Cyb_reprogram int | Cyb_softint nat | Cyb_suspend | Cyb_resume
| Handler nat nat ulong

record cyc_cpu =
  cyp_heap :: "nat list"
  cyp_cyclics :: "cyclic list"
  cyp_gen :: nat
  cyp_old :: "cyclic list"
  cyp_nelems :: nat
  cyp_size :: nat
  cyp_state :: cyc_state
  cyp_softbuf :: "nat \<Rightarrow> cyc_softbuf"
  cyp_modify_wait :: nat
  cyp_modify_levels :: uint32
  cyp_rpend :: uint32
  cyp_events :: "cyc_event list"

definition emit :: "cyc_event \<Rightarrow> cyc_cpu \<Rightarrow> cyc_cpu" where
  "emit e cpu = cpu\<lparr>cyp_events := cyp_events cpu @ [e]\<rparr>"

definition cyclic_zero :: cyclic where
  "cyclic_zero = \<lparr>cy_expire = 0, cy_interval = 0, cy_handler = 0, cy_arg = 0, cy_pend = 0, cy_flags = 0, cy_level = 0\<rparr>"

definition set_cyclic :: "nat \<Rightarrow> cyclic \<Rightarrow> cyc_cpu \<Rightarrow> cyc_cpu" where
  "set_cyclic ndx c cpu = cpu\<lparr>cyp_cyclics := (cyp_cyclics cpu)[ndx := c]\<rparr>"

subsection \<open>Heap operations\<close>

definition expire_of :: "cyc_cpu \<Rightarrow> nat \<Rightarrow> int" where
  "expire_of cpu ndx = cy_expire (cyp_cyclics cpu ! ndx)"

definition cyclic_upheap :: "nat \<Rightarrow> cyc_cpu \<Rightarrow> bool \<times> cyc_cpu" where
  "cyclic_upheap ndx cpu =
     (if ndx = 0 then (True, cpu)
      else let (root, heap) = upheap_loop (expire_of cpu) ndx (cyp_heap cpu) in (root, cpu\<lparr>cyp_heap := heap\<rparr>))"

definition cyclic_downheap :: "nat \<Rightarrow> cyc_cpu \<Rightarrow> cyc_cpu" where
  "cyclic_downheap ndx cpu = cpu\<lparr>cyp_heap := downheap_loop (expire_of cpu) (cyp_nelems cpu) ndx (cyp_heap cpu)\<rparr>"

subsection \<open>Expiry\<close>

definition pc_enqueue :: "nat \<Rightarrow> cyc_pcbuffer \<Rightarrow> cyc_pcbuffer" where
  "pc_enqueue ndx pc =
     pc\<lparr>cypc_buf := (cypc_buf pc)[unat (cypc_prodndx pc AND cypc_sizemask pc) := ndx], cypc_prodndx := cypc_prodndx pc + 1\<rparr>"

definition cyclic_expire :: "nat \<Rightarrow> cyc_cpu \<Rightarrow> cyc_cpu" where
  "cyclic_expire ndx cpu =
     (let cyclic = cyp_cyclics cpu ! ndx; level = cy_level cyclic
      in if level = CY_HIGH_LEVEL then emit (Handler level (cy_handler cyclic) (cy_arg cyclic)) cpu
         else if cy_pend cyclic = 0
         then let softbuf = cyp_softbuf cpu level;
                  softbuf = softbuf\<lparr>cys_buf := (cys_buf softbuf)(cys_hard softbuf := pc_enqueue ndx (cys_buf softbuf (cys_hard softbuf)))\<rparr>
              in emit (Cyb_softint level)
                   ((set_cyclic ndx (cyclic\<lparr>cy_pend := 1\<rparr>) cpu)\<lparr>cyp_softbuf := (cyp_softbuf cpu)(level := softbuf)\<rparr>)
         else let pend = cy_pend cyclic + 1; pend = (if pend = 0 then - 1 else pend)
              in emit (Cyb_softint level) (set_cyclic ndx (cyclic\<lparr>cy_pend := pend\<rparr>) cpu))"

definition next_expire :: "int \<Rightarrow> int \<Rightarrow> int \<Rightarrow> int" where
  "next_expire now expire interval =
     (let exp = hr (expire + interval)
      in if hr (now - exp) > NANOSEC then hr (exp + hr ((hr (now - exp) div interval + 1) * interval)) else exp)"

partial_function (option) fire_loop :: "int \<Rightarrow> cyc_cpu \<Rightarrow> (int \<times> cyc_cpu) option" where
  "fire_loop now cpu =
     (let ndx = cyp_heap cpu ! 0; exp = expire_of cpu ndx
      in if exp > now then Some (exp, cpu)
         else let cpu = cyclic_expire ndx cpu;
                  cyclic = cyp_cyclics cpu ! ndx;
                  cpu = set_cyclic ndx (cyclic\<lparr>cy_expire := next_expire now exp (cy_interval cyclic)\<rparr>) cpu
              in fire_loop now (cyclic_downheap 0 cpu))"

definition cyclic_fire :: "int \<Rightarrow> cyc_cpu \<Rightarrow> cyc_cpu option" where
  "cyclic_fire now cpu =
     (if cyp_nelems cpu = 0 then Some cpu
      else map_option (\<lambda>(exp, cpu). emit (Cyb_reprogram exp) cpu) (fire_loop now cpu))"


subsection \<open>Soft interrupts\<close>

text \<open>
  \<open>cyclic_softint()\<close> as a machine whose steps are the reads and writes of shared data and the calls
  of handlers, so that interrupts at a higher level can come between any two of them. Its local
  variables are the place in the code, the pointer \<open>cyclics\<close> (as the number of the expansion) and \<open>resized\<close>.
\<close>

datatype soft_pc =
  Soft_Idle
| Soft_Top
| Soft_While uint32
| Soft_Call uint32 nat nat ulong
| Soft_Reread uint32 nat nat ulong
| Soft_Cas uint32 nat nat ulong uint32
| Soft_Rpend uint32 nat nat ulong uint32
| Soft_Next uint32
| Soft_Check

record soft_local =
  sl_pc :: soft_pc
  sl_gen :: nat
  sl_resized :: bool

definition cyclics_at :: "nat \<Rightarrow> cyc_cpu \<Rightarrow> cyclic list" where
  "cyclics_at g cpu = (if g = cyp_gen cpu then cyp_cyclics cpu else cyp_old cpu)"

definition set_pend_at :: "nat \<Rightarrow> nat \<Rightarrow> uint32 \<Rightarrow> cyc_cpu \<Rightarrow> cyc_cpu" where
  "set_pend_at g ndx pend cpu =
     (if g = cyp_gen cpu
      then cpu\<lparr>cyp_cyclics := (cyp_cyclics cpu)[ndx := (cyp_cyclics cpu ! ndx)\<lparr>cy_pend := pend\<rparr>]\<rparr>
      else cpu\<lparr>cyp_old := (cyp_old cpu)[ndx := (cyp_old cpu ! ndx)\<lparr>cy_pend := pend\<rparr>]\<rparr>)"

definition soft_pcbuf :: "nat \<Rightarrow> cyc_cpu \<Rightarrow> cyc_pcbuffer" where
  "soft_pcbuf level cpu = cys_buf (cyp_softbuf cpu level) (cys_soft (cyp_softbuf cpu level))"

definition sema_v_modify :: "cyc_cpu \<Rightarrow> cyc_cpu" where
  "sema_v_modify cpu = cpu\<lparr>cyp_modify_wait := cyp_modify_wait cpu + 1\<rparr>"

definition soft_consume :: "nat \<Rightarrow> uint32 \<Rightarrow> cyc_cpu \<Rightarrow> cyc_cpu" where
  "soft_consume level consndx cpu =
     (let softbuf = cyp_softbuf cpu level; pc = soft_pcbuf level cpu
      in cpu\<lparr>cyp_softbuf := (cyp_softbuf cpu)(level :=
               softbuf\<lparr>cys_buf := (cys_buf softbuf)(cys_soft softbuf := pc\<lparr>cypc_consndx := consndx\<rparr>)\<rparr>)\<rparr>)"

definition soft_switch :: "nat \<Rightarrow> cyc_cpu \<Rightarrow> cyc_cpu" where
  "soft_switch level cpu =
     (let softbuf = cyp_softbuf cpu level
      in cpu\<lparr>cyp_softbuf := (cyp_softbuf cpu)(level := softbuf\<lparr>cys_soft := cys_hard softbuf\<rparr>)\<rparr>)"

definition soft_done :: "nat \<Rightarrow> cyc_cpu \<Rightarrow> cyc_cpu" where
  "soft_done level cpu =
     (let nlev = cyp_modify_levels cpu + 1; cpu = cpu\<lparr>cyp_modify_levels := nlev\<rparr>
      in if nlev = of_nat CY_SOFT_LEVELS then sema_v_modify cpu
         else if level \<noteq> CY_LOW_LEVEL then emit (Cyb_softint (level - 1)) cpu
         else cpu)"

fun soft_step :: "nat \<Rightarrow> soft_local \<times> cyc_cpu \<Rightarrow> soft_local \<times> cyc_cpu" where
  "soft_step level (l, cpu) =
     (case sl_pc l of
        Soft_Idle \<Rightarrow> (\<lparr>sl_pc = Soft_Top, sl_gen = cyp_gen cpu, sl_resized = False\<rparr>, cpu)
      | Soft_Top \<Rightarrow> (l\<lparr>sl_pc := Soft_While (cypc_consndx (soft_pcbuf level cpu))\<rparr>, cpu)
      | Soft_While consndx \<Rightarrow>
          (let pc = soft_pcbuf level cpu
           in if consndx = cypc_prodndx pc then (l\<lparr>sl_pc := Soft_Check\<rparr>, cpu)
              else let ndx = cypc_buf pc ! unat (consndx AND cypc_sizemask pc);
                       cyclic = cyclics_at (sl_gen l) cpu ! ndx
                   in (l\<lparr>sl_pc := Soft_Call consndx ndx (cy_handler cyclic) (cy_arg cyclic)\<rparr>, cpu))
      | Soft_Call consndx ndx handler arg \<Rightarrow> (l\<lparr>sl_pc := Soft_Reread consndx ndx handler arg\<rparr>, emit (Handler level handler arg) cpu)
      | Soft_Reread consndx ndx handler arg \<Rightarrow>
          (let cyclic = cyclics_at (sl_gen l) cpu ! ndx; pend = cy_pend cyclic
           in if pend = 0
              then if cyp_state cpu = CYS_REMOVING
                   then (l\<lparr>sl_pc := Soft_Rpend consndx ndx (cy_handler cyclic) (cy_arg cyclic) (cyp_rpend cpu - 1)\<rparr>, cpu)
                   else (l\<lparr>sl_gen := cyp_gen cpu\<rparr>, cpu)
              else (l\<lparr>sl_pc := Soft_Cas consndx ndx handler arg pend\<rparr>, cpu))
      | Soft_Cas consndx ndx handler arg pend \<Rightarrow>
          (if cy_pend (cyclics_at (sl_gen l) cpu ! ndx) \<noteq> pend then (l\<lparr>sl_pc := Soft_Reread consndx ndx handler arg\<rparr>, cpu)
           else let npend = pend - 1; cpu = set_pend_at (sl_gen l) ndx npend cpu
                in if sint npend > 0 then (l\<lparr>sl_pc := Soft_Call consndx ndx handler arg\<rparr>, cpu)
                   else (l\<lparr>sl_pc := Soft_Next consndx\<rparr>, cpu))
      | Soft_Rpend consndx ndx handler arg n \<Rightarrow>
          (if n = 0 then (l\<lparr>sl_pc := Soft_Next consndx\<rparr>, sema_v_modify cpu)
           else (l\<lparr>sl_pc := Soft_Rpend consndx ndx handler arg (n - 1)\<rparr>, emit (Handler level handler arg) cpu))
      | Soft_Next consndx \<Rightarrow> (l\<lparr>sl_pc := Soft_While (consndx + 1)\<rparr>, soft_consume level (consndx + 1) cpu)
      | Soft_Check \<Rightarrow>
          (if cys_soft (cyp_softbuf cpu level) \<noteq> cys_hard (cyp_softbuf cpu level)
           then (\<lparr>sl_pc = Soft_Top, sl_gen = cyp_gen cpu, sl_resized = True\<rparr>, soft_switch level cpu)
           else (l\<lparr>sl_pc := Soft_Idle\<rparr>, if sl_resized l then soft_done level cpu else cpu)))"

text \<open>A whole soft interrupt with no interrupt in between.\<close>

partial_function (option) soft_run :: "nat \<Rightarrow> soft_local \<times> cyc_cpu \<Rightarrow> cyc_cpu option" where
  "soft_run level s =
     (case soft_step level s of (l, cpu) \<Rightarrow> if sl_pc l = Soft_Idle then Some cpu else soft_run level (l, cpu))"

definition soft_idle :: soft_local where
  "soft_idle = \<lparr>sl_pc = Soft_Idle, sl_gen = 0, sl_resized = False\<rparr>"

definition cyclic_softint :: "nat \<Rightarrow> cyc_cpu \<Rightarrow> cyc_cpu option" where
  "cyclic_softint level cpu = soft_run level (soft_idle, cpu)"

subsection \<open>Expanding\<close>

definition pc_new :: "nat \<Rightarrow> cyc_pcbuffer" where
  "pc_new n = \<lparr>cypc_buf = replicate n 0, cypc_prodndx = 0, cypc_consndx = 0, cypc_sizemask = of_nat (n - 1)\<rparr>"

definition on_softbufs :: "(cyc_softbuf \<Rightarrow> cyc_softbuf) \<Rightarrow> cyc_cpu \<Rightarrow> cyc_cpu" where
  "on_softbufs f cpu = cpu\<lparr>cyp_softbuf := (\<lambda>i. if i < CY_SOFT_LEVELS then f (cyp_softbuf cpu i) else cyp_softbuf cpu i)\<rparr>"

definition cyclic_expand_xcall :: "nat \<Rightarrow> cyc_cpu \<Rightarrow> cyc_cpu" where
  "cyclic_expand_xcall new_size cpu =
     (let n = cyp_size cpu;
          new_heap = take n (cyp_heap cpu) @ [n..<new_size];
          new_cyclics = take n (cyp_cyclics cpu) @ replicate (new_size - n) (cyclic_zero\<lparr>cy_flags := CYF_FREE\<rparr>);
          old = map (\<lambda>c. c\<lparr>cy_pend := 0\<rparr>) (cyp_cyclics cpu);
          cpu = cpu\<lparr>cyp_heap := new_heap, cyp_cyclics := new_cyclics, cyp_old := old, cyp_gen := cyp_gen cpu + 1, cyp_size := new_size\<rparr>;
          cpu = on_softbufs (\<lambda>s. s\<lparr>cys_hard := \<not> cys_hard s\<rparr>) cpu
      in emit (Cyb_softint (CY_HIGH_LEVEL - 1)) cpu)"

definition expand_start :: "cyc_cpu \<Rightarrow> cyc_cpu" where
  "expand_start cpu =
     (let new_size = (if cyp_size cpu * 2 = 0 then CY_DEFAULT_PERCPU else cyp_size cpu * 2);
          cpu = on_softbufs (\<lambda>s. s\<lparr>cys_buf := (cys_buf s)(\<not> cys_hard s := pc_new new_size)\<rparr>) (cpu\<lparr>cyp_state := CYS_EXPANDING\<rparr>)
      in cyclic_expand_xcall new_size (cpu\<lparr>cyp_modify_levels := 0\<rparr>))"

definition expand_finish :: "cyc_cpu \<Rightarrow> cyc_cpu" where
  "expand_finish cpu =
     (on_softbufs (\<lambda>s. s\<lparr>cys_buf := (cys_buf s)(\<not> cys_hard s := (cys_buf s (\<not> cys_hard s))\<lparr>cypc_buf := []\<rparr>)\<rparr>) cpu)
       \<lparr>cyp_old := [], cyp_state := CYS_ONLINE\<rparr>"

text \<open>
  What happens on the CPU while the caller waits for the semaphore is the argument \<open>wait\<close>; the caller takes the
  unit that was posted.
\<close>

definition sema_p_modify :: "(cyc_cpu \<Rightarrow> cyc_cpu) \<Rightarrow> cyc_cpu \<Rightarrow> cyc_cpu" where
  "sema_p_modify wait cpu = (let cpu = wait cpu in cpu\<lparr>cyp_modify_wait := cyp_modify_wait cpu - 1\<rparr>)"

definition cyclic_expand :: "(cyc_cpu \<Rightarrow> cyc_cpu) \<Rightarrow> cyc_cpu \<Rightarrow> cyc_cpu" where
  "cyclic_expand wait cpu = expand_finish (sema_p_modify wait (expand_start cpu))"

subsection \<open>Adding and removing\<close>

definition cyclic_add_xcall :: "int \<Rightarrow> cyc_handler \<Rightarrow> cyc_time \<Rightarrow> cy_flags \<Rightarrow> cyc_cpu \<Rightarrow> nat \<times> cyc_cpu" where
  "cyclic_add_xcall now hdlr when flags cpu =
     (let nelems = cyp_nelems cpu;
          cpu = cpu\<lparr>cyp_nelems := nelems + 1\<rparr>;
          cpu = (if nelems = 0 then emit Cyb_enable cpu else cpu);
          ndx = cyp_heap cpu ! nelems;
          interval = cyt_interval when;
          exp = (if cyt_when when = 0 then hr ((now div interval + 1) * interval) else cyt_when when);
          cyclic = (cyp_cyclics cpu ! ndx)\<lparr>cy_interval := interval, cy_expire := exp, cy_handler := cyh_func hdlr,
                     cy_arg := cyh_arg hdlr, cy_level := cyh_level hdlr, cy_flags := flags\<rparr>;
          (root, cpu) = cyclic_upheap nelems (set_cyclic ndx cyclic cpu)
      in (ndx, if root then emit (Cyb_reprogram exp) cpu else cpu))"

definition cyclic_add_here ::
  "(cyc_cpu \<Rightarrow> cyc_cpu) \<Rightarrow> int \<Rightarrow> cyc_handler \<Rightarrow> cyc_time \<Rightarrow> cy_flags \<Rightarrow> cyc_cpu \<Rightarrow> nat \<times> cyc_cpu" where
  "cyclic_add_here wait now hdlr when flags cpu =
     cyclic_add_xcall now hdlr when flags (if cyp_nelems cpu = cyp_size cpu then cyclic_expand wait cpu else cpu)"

fun index_in :: "nat \<Rightarrow> nat list \<Rightarrow> nat" where
  "index_in ndx [] = 0"
| "index_in ndx (x # xs) = (if x = ndx then 0 else Suc (index_in ndx xs))"

definition remove_heap :: "nat \<Rightarrow> nat \<Rightarrow> cyc_cpu \<Rightarrow> cyc_cpu" where
  "remove_heap i nelems cpu =
     (let last = cyp_heap cpu ! nelems;
          cpu = cpu\<lparr>cyp_heap := (cyp_heap cpu)[i := last, nelems := cyp_heap cpu ! i]\<rparr>;
          reprogram = (\<lambda>cpu. emit (Cyb_reprogram (expire_of cpu (cyp_heap cpu ! 0))) cpu)
      in if i = 0 then reprogram (cyclic_downheap 0 cpu)
         else let (root, cpu) = cyclic_upheap i cpu
              in if root then reprogram cpu
                 else if cyp_heap cpu ! i = last then cyclic_downheap i cpu
                 else cpu)"

definition cyclic_remove_xcall :: "nat \<Rightarrow> cyc_cpu \<Rightarrow> (cyc_time \<times> cyc_cpu) option" where
  "cyclic_remove_xcall ndx cpu =
     (let nelems = cyp_nelems cpu;
          cyclic = cyp_cyclics cpu ! ndx;
          when = \<lparr>cyt_when = cy_expire cyclic, cyt_interval = cy_interval cyclic\<rparr>;
          cpu = (if cy_pend cyclic \<noteq> 0 then cpu\<lparr>cyp_rpend := cy_pend cyclic\<rparr> else cpu);
          cpu = set_cyclic ndx (cyclic\<lparr>cy_pend := 0, cy_flags := CYF_FREE\<rparr>) cpu;
          i = index_in ndx (take nelems (cyp_heap cpu))
      in if i = nelems then None
         else let nelems = nelems - 1;
                  cpu = cpu\<lparr>cyp_nelems := nelems\<rparr>;
                  cpu = (if nelems = 0 then emit Cyb_disable cpu else cpu)
              in Some (when, if i = nelems then cpu else remove_heap i nelems cpu))"

definition cyclic_remove_here :: "(cyc_cpu \<Rightarrow> cyc_cpu) \<Rightarrow> nat \<Rightarrow> cyc_cpu \<Rightarrow> (cyc_time \<times> cyc_cpu) option" where
  "cyclic_remove_here wait ndx cpu =
     (case cyclic_remove_xcall ndx (cpu\<lparr>cyp_state := CYS_REMOVING\<rparr>) of
        None \<Rightarrow> None
      | Some (when, cpu) \<Rightarrow>
          (let cpu = (if cyp_rpend cpu \<noteq> 0 then sema_p_modify wait cpu else cpu)
           in Some (when, cpu\<lparr>cyp_rpend := 0, cyp_state := CYS_ONLINE\<rparr>)))"

subsection \<open>Configuration, suspending\<close>

definition cyclic_configure :: cyc_cpu where
  "cyclic_configure =
     \<lparr>cyp_heap = [0], cyp_cyclics = [cyclic_zero\<lparr>cy_flags := CYF_FREE\<rparr>], cyp_gen = 0, cyp_old = [], cyp_nelems = 0,
      cyp_size = 1, cyp_state = CYS_OFFLINE,
      cyp_softbuf = (\<lambda>_. \<lparr>cys_hard = False, cys_soft = False,
        cys_buf = (\<lambda>b. \<lparr>cypc_buf = (if b then [] else [0]), cypc_prodndx = 0, cypc_consndx = 0, cypc_sizemask = 0\<rparr>)\<rparr>),
      cyp_modify_wait = 0, cyp_modify_levels = 0, cyp_rpend = 0, cyp_events = []\<rparr>"

definition cyclic_online :: "cyc_cpu \<Rightarrow> cyc_cpu" where
  "cyclic_online cpu = cpu\<lparr>cyp_state := CYS_ONLINE\<rparr>"

definition cyclic_suspend_xcall :: "cyc_cpu \<Rightarrow> cyc_cpu" where
  "cyclic_suspend_xcall cpu =
     (let cpu = (if cyp_nelems cpu > 0 then emit Cyb_disable cpu else cpu);
          cpu = (if cyp_state cpu = CYS_ONLINE then cpu\<lparr>cyp_state := CYS_SUSPENDED\<rparr> else cpu)
      in emit Cyb_suspend cpu)"

definition cyclic_resume_xcall :: "cyc_cpu \<Rightarrow> cyc_cpu" where
  "cyclic_resume_xcall cpu =
     (let state = cyp_state cpu;
          cpu = emit Cyb_resume cpu;
          cpu = (if cyp_nelems cpu > 0
                 then emit (Cyb_reprogram (expire_of cpu (cyp_heap cpu ! 0))) (emit Cyb_enable cpu)
                 else cpu)
      in if state = CYS_SUSPENDED then cpu\<lparr>cyp_state := CYS_ONLINE\<rparr> else cpu)"

end
