(* ===== verification/Cyclic_Inv.thy ===== *)
theory Cyclic_Inv
  imports Cyclic
begin

section \<open>The invariant of the cyclics of a CPU\<close>

text \<open>
  The heap array is a permutation of the indices of the cyclics; its first \<open>cyp_nelems\<close> entries are
  the cyclics in use, in heap order, and the others are the free list. Times stay below \<open>2 ^ 62\<close>, so that
  no sum of the code wraps.
\<close>

definition inuse :: "cyc_cpu \<Rightarrow> nat set" where
  "inuse cpu = set (take (cyp_nelems cpu) (cyp_heap cpu))"

definition time_ok :: "cyclic \<Rightarrow> bool" where
  "time_ok c \<longleftrightarrow> 0 \<le> cy_expire c \<and> cy_expire c \<le> 2 ^ 62 \<and> 0 < cy_interval c \<and> cy_interval c \<le> 2 ^ 61"

definition now_ok :: "int \<Rightarrow> bool" where
  "now_ok now \<longleftrightarrow> 0 \<le> now \<and> now \<le> 2 ^ 61"

definition used_ok :: "cyclic \<Rightarrow> bool" where
  "used_ok c \<longleftrightarrow> time_ok c \<and> cy_flags c AND CYF_FREE = 0 \<and> cy_level c \<le> CY_HIGH_LEVEL"

definition free_ok :: "cyclic \<Rightarrow> bool" where
  "free_ok c \<longleftrightarrow> cy_flags c = CYF_FREE \<and> cy_pend c = 0"

definition cyc_shape :: "cyc_cpu \<Rightarrow> bool" where
  "cyc_shape cpu \<longleftrightarrow> distinct (cyp_heap cpu) \<and> set (cyp_heap cpu) = {..<cyp_size cpu} \<and> length (cyp_cyclics cpu) = cyp_size cpu \<and>
     0 < cyp_size cpu \<and> cyp_nelems cpu \<le> cyp_size cpu \<and> (\<forall>i \<in> inuse cpu. used_ok (cyp_cyclics cpu ! i)) \<and>
     (\<forall>i < cyp_size cpu. i \<notin> inuse cpu \<longrightarrow> free_ok (cyp_cyclics cpu ! i))"

definition heap_ok :: "cyc_cpu \<Rightarrow> bool" where
  "heap_ok cpu \<longleftrightarrow> heap_ord (expire_of cpu) (cyp_nelems cpu) (cyp_heap cpu)"

definition cyc_ok :: "cyc_cpu \<Rightarrow> bool" where
  "cyc_ok cpu \<longleftrightarrow> cyc_shape cpu \<and> heap_ok cpu"

lemma cyc_shapeD:
  assumes "cyc_shape cpu"
  shows "length (cyp_heap cpu) = cyp_size cpu" "distinct (cyp_heap cpu)" "set (cyp_heap cpu) = {..<cyp_size cpu}"
    "length (cyp_cyclics cpu) = cyp_size cpu" "cyp_nelems cpu \<le> cyp_size cpu" "0 < cyp_size cpu"
    "\<And>i. i \<in> inuse cpu \<Longrightarrow> used_ok (cyp_cyclics cpu ! i)"
    "\<And>i. i < cyp_size cpu \<Longrightarrow> i \<notin> inuse cpu \<Longrightarrow> free_ok (cyp_cyclics cpu ! i)"
  using assms distinct_card [of "cyp_heap cpu"] by (simp_all add: cyc_shape_def)

text \<open>An index in use has a place in the heap, and the root expires first.\<close>

lemma inuse_nth: "i \<in> inuse cpu \<longleftrightarrow> (\<exists>k < cyp_nelems cpu. k < length (cyp_heap cpu) \<and> cyp_heap cpu ! k = i)"
  by (auto simp: inuse_def in_set_conv_nth)

lemma inuse_bound: "cyc_shape cpu \<Longrightarrow> i \<in> inuse cpu \<Longrightarrow> i < cyp_size cpu"
  using cyc_shapeD(3) [of cpu] by (auto simp: inuse_def dest: in_set_takeD)

lemma place_inuse: "cyc_shape cpu \<Longrightarrow> k < cyp_nelems cpu \<Longrightarrow> cyp_heap cpu ! k \<in> inuse cpu"
  using cyc_shapeD(1,5) [of cpu] by (auto simp: inuse_nth)

lemma place_free:
  assumes "cyc_shape cpu" "cyp_nelems cpu \<le> k" "k < cyp_size cpu"
  shows "cyp_heap cpu ! k \<notin> inuse cpu"
proof
  assume "cyp_heap cpu ! k \<in> inuse cpu"
  then obtain j where "j < cyp_nelems cpu" "j < length (cyp_heap cpu)" "cyp_heap cpu ! j = cyp_heap cpu ! k" by (auto simp: inuse_nth)
  then show False using cyc_shapeD(1,2) [OF assms(1)] assms(2,3) by (simp add: nth_eq_iff_index_eq)
qed

lemma finite_inuse [simp]: "finite (inuse cpu)" by (simp add: inuse_def)

lemma inuse_empty: "cyc_shape cpu \<Longrightarrow> inuse cpu = {} \<longleftrightarrow> cyp_nelems cpu = 0"
  using cyc_shapeD(1,6) [of cpu] by (auto simp: inuse_def)

lemma card_inuse: "cyc_shape cpu \<Longrightarrow> card (inuse cpu) = cyp_nelems cpu"
  using cyc_shapeD(1,2,5) [of cpu] by (simp add: inuse_def distinct_card)

lemma root_earliest:
  assumes "cyc_ok cpu" "i \<in> inuse cpu"
  shows "expire_of cpu (cyp_heap cpu ! 0) \<le> expire_of cpu i"
proof -
  obtain k where "k < cyp_nelems cpu" "cyp_heap cpu ! k = i" using assms(2) by (auto simp: inuse_nth)
  then show ?thesis using heap_root_min [of "expire_of cpu" "cyp_nelems cpu" "cyp_heap cpu" k] assms(1) by (simp add: cyc_ok_def heap_ok_def)
qed

subsection \<open>What keeps the invariant\<close>

text \<open>A change of pend counts of cyclics in use, and of anything but the heap and the cyclics.\<close>

definition timing :: "cyclic \<Rightarrow> cyclic" where
  "timing c = c\<lparr>cy_pend := 0\<rparr>"

definition pend_only :: "cyc_cpu \<Rightarrow> cyc_cpu \<Rightarrow> bool" where
  "pend_only cpu cpu' \<longleftrightarrow> cyp_heap cpu' = cyp_heap cpu \<and> cyp_nelems cpu' = cyp_nelems cpu \<and> cyp_size cpu' = cyp_size cpu \<and>
     length (cyp_cyclics cpu') = length (cyp_cyclics cpu) \<and>
     (\<forall>i < length (cyp_cyclics cpu). timing (cyp_cyclics cpu' ! i) = timing (cyp_cyclics cpu ! i) \<and>
        (i \<notin> inuse cpu \<longrightarrow> cyp_cyclics cpu' ! i = cyp_cyclics cpu ! i))"

lemma pend_only_refl [simp]: "pend_only cpu cpu" by (simp add: pend_only_def)

lemma pend_only_inuse: "pend_only cpu cpu' \<Longrightarrow> inuse cpu' = inuse cpu" by (simp add: pend_only_def inuse_def)

lemma pend_only_trans: "pend_only a b \<Longrightarrow> pend_only b c \<Longrightarrow> pend_only a c"
  by (simp add: pend_only_def inuse_def)

lemma timing_fields:
  assumes "timing c = timing d"
  shows "cy_expire c = cy_expire d" "cy_interval c = cy_interval d" "cy_handler c = cy_handler d" "cy_arg c = cy_arg d"
    "cy_flags c = cy_flags d" "cy_level c = cy_level d" "time_ok c = time_ok d" "used_ok c = used_ok d"
  using assms by (cases c; cases d; simp add: timing_def used_ok_def time_ok_def)+

lemma heap_ord_cong:
  assumes "\<And>i. i \<in> set (take n h) \<Longrightarrow> key i = key' i" "n \<le> length h"
  shows "heap_ord key n h = heap_ord key' n h"
proof -
  have "key (h ! j) = key' (h ! j)" if "j < n" for j
  proof -
    have "h ! j \<in> set (take n h)" using that assms(2) by (auto simp: in_set_conv_nth intro!: exI [of _ j])
    then show ?thesis by (rule assms(1))
  qed
  then have "key (h ! par j) \<le> key (h ! j) \<longleftrightarrow> key' (h ! par j) \<le> key' (h ! j)" if "0 < j" "j < n" for j
    using that par_lt [OF that(1)] by simp
  then show ?thesis unfolding heap_ord_def by blast
qed

lemma pend_only_shape:
  assumes "cyc_shape cpu" "pend_only cpu cpu'"
  shows "cyc_shape cpu'"
proof -
  note k = cyc_shapeD [OF assms(1)]
  have u: "inuse cpu' = inuse cpu" by (rule pend_only_inuse [OF assms(2)])
  have s: "cyp_heap cpu' = cyp_heap cpu" "cyp_nelems cpu' = cyp_nelems cpu" "cyp_size cpu' = cyp_size cpu"
    "length (cyp_cyclics cpu') = length (cyp_cyclics cpu)" using assms(2) by (simp_all add: pend_only_def)
  have t: "timing (cyp_cyclics cpu' ! i) = timing (cyp_cyclics cpu ! i)" if "i < cyp_size cpu" for i
    using assms(2) k(4) that by (simp add: pend_only_def)
  have "used_ok (cyp_cyclics cpu' ! i)" if "i \<in> inuse cpu" for i
    using timing_fields(8) [OF t [OF inuse_bound [OF assms(1) that]]] k(7) [OF that] by simp
  moreover have "free_ok (cyp_cyclics cpu' ! i)" if "i < cyp_size cpu" "i \<notin> inuse cpu" for i
    using assms(2) k(4) k(8) [OF that] that by (simp add: pend_only_def)
  ultimately show ?thesis using s u k(2,3,4,5,6) by (simp add: cyc_shape_def)
qed

lemma pend_only_expire: "cyc_shape cpu \<Longrightarrow> pend_only cpu cpu' \<Longrightarrow> i < cyp_size cpu \<Longrightarrow> expire_of cpu' i = expire_of cpu i"
  using timing_fields(1) [of "cyp_cyclics cpu' ! i" "cyp_cyclics cpu ! i"] cyc_shapeD(4) [of cpu] by (simp add: pend_only_def expire_of_def)

lemma pend_only_ok:
  assumes "cyc_ok cpu" "pend_only cpu cpu'"
  shows "cyc_ok cpu'"
proof -
  have sh: "cyc_shape cpu" using assms(1) by (simp add: cyc_ok_def)
  have "heap_ord (expire_of cpu') (cyp_nelems cpu) (cyp_heap cpu) = heap_ord (expire_of cpu) (cyp_nelems cpu) (cyp_heap cpu)"
  proof (rule heap_ord_cong)
    show "expire_of cpu' i = expire_of cpu i" if "i \<in> set (take (cyp_nelems cpu) (cyp_heap cpu))" for i
      using pend_only_expire [OF sh assms(2)] inuse_bound [OF sh] that by (simp add: inuse_def)
  qed (use cyc_shapeD(1,5) [OF sh] in simp)
  then show ?thesis using assms pend_only_shape [OF sh assms(2)] by (simp add: cyc_ok_def heap_ok_def pend_only_def)
qed

text \<open>A permutation of the places in use.\<close>

lemma reheap:
  assumes "cyc_shape cpu" "mset h = mset (cyp_heap cpu)" "\<And>j. cyp_nelems cpu \<le> j \<Longrightarrow> h ! j = cyp_heap cpu ! j"
  shows "inuse (cpu\<lparr>cyp_heap := h\<rparr>) = inuse cpu" "cyc_shape (cpu\<lparr>cyp_heap := h\<rparr>)"
proof -
  note k = cyc_shapeD [OF assms(1)]
  let ?n = "cyp_nelems cpu" and ?g = "cyp_heap cpu"
  have l: "length h = length ?g" by (rule mset_eq_length [OF assms(2)])
  have d: "drop ?n h = drop ?n ?g" using l assms(3) by (intro nth_equalityI) simp_all
  have "mset (take ?n h @ drop ?n h) = mset (take ?n ?g @ drop ?n ?g)" using assms(2) by (simp only: append_take_drop_id)
  then have "mset (take ?n h) = mset (take ?n ?g)" unfolding mset_append d by simp
  from mset_eq_setD [OF this] show u: "inuse (cpu\<lparr>cyp_heap := h\<rparr>) = inuse cpu" by (simp add: inuse_def)
  show "cyc_shape (cpu\<lparr>cyp_heap := h\<rparr>)" using k mset_eq_setD [OF assms(2)] mset_eq_imp_distinct_iff [OF assms(2)] u by (simp add: cyc_shape_def)
qed

text \<open>A new value for a cyclic in use.\<close>

lemma set_cyclic_simps [simp]:
  "cyp_heap (set_cyclic i c cpu) = cyp_heap cpu" "cyp_nelems (set_cyclic i c cpu) = cyp_nelems cpu" "cyp_size (set_cyclic i c cpu) = cyp_size cpu"
  "cyp_cyclics (set_cyclic i c cpu) = (cyp_cyclics cpu)[i := c]" "cyp_events (set_cyclic i c cpu) = cyp_events cpu"
  "inuse (set_cyclic i c cpu) = inuse cpu" "cyp_softbuf (set_cyclic i c cpu) = cyp_softbuf cpu"
  by (simp_all add: set_cyclic_def inuse_def)

lemma emit_simps [simp]:
  "cyp_heap (emit e cpu) = cyp_heap cpu" "cyp_nelems (emit e cpu) = cyp_nelems cpu" "cyp_size (emit e cpu) = cyp_size cpu"
  "cyp_cyclics (emit e cpu) = cyp_cyclics cpu" "cyp_events (emit e cpu) = cyp_events cpu @ [e]" "inuse (emit e cpu) = inuse cpu"
  "cyp_softbuf (emit e cpu) = cyp_softbuf cpu" "expire_of (emit e cpu) = expire_of cpu"
  by (simp_all add: emit_def inuse_def expire_of_def fun_eq_iff)

lemma emit_pend_only [simp]: "pend_only cpu (emit e cpu)" by (simp add: pend_only_def)

lemma set_shape:
  assumes "cyc_shape cpu" "i \<in> inuse cpu" "used_ok c"
  shows "cyc_shape (set_cyclic i c cpu)"
proof -
  note k = cyc_shapeD [OF assms(1)]
  have "used_ok ((cyp_cyclics cpu)[i := c] ! j)" if "j \<in> inuse cpu" for j
    using k(4) k(7) [OF that] assms(3) inuse_bound [OF assms(1) that] by (cases "i = j") simp_all
  moreover have "free_ok ((cyp_cyclics cpu)[i := c] ! j)" if "j < cyp_size cpu" "j \<notin> inuse cpu" for j
    using k(8) [OF that] assms(2) that(2) by (metis nth_list_update_neq)
  ultimately show ?thesis using k(2,3,4,5,6) by (simp add: cyc_shape_def)
qed

text \<open>A later time for the root, and \<open>cyclic_downheap()\<close> from there.\<close>

lemma downheap_ok:
  assumes "cyc_shape cpu" "i < cyp_nelems cpu" "hole (expire_of cpu) (cyp_nelems cpu) i (cyp_heap cpu)"
    "0 < i \<Longrightarrow> expire_of cpu (cyp_heap cpu ! par i) \<le> expire_of cpu (cyp_heap cpu ! i)"
  shows "cyc_ok (cyclic_downheap i cpu)" "inuse (cyclic_downheap i cpu) = inuse cpu"
proof -
  let ?h = "downheap_loop (expire_of cpu) (cyp_nelems cpu) i (cyp_heap cpu)"
  have n: "cyp_nelems cpu \<le> length (cyp_heap cpu)" using cyc_shapeD(1,5) [OF assms(1)] by simp
  note p = downheap_loop_perm [OF assms(2) n, of "expire_of cpu"]
  have m: "mset ?h = mset (cyp_heap cpu)" using p by simp
  have s: "?h ! j = cyp_heap cpu ! j" if "cyp_nelems cpu \<le> j" for j using p that by blast
  have e: "expire_of (cyclic_downheap i cpu) = expire_of cpu" by (simp add: cyclic_downheap_def expire_of_def fun_eq_iff)
  show "inuse (cyclic_downheap i cpu) = inuse cpu" unfolding cyclic_downheap_def by (rule reheap(1) [OF assms(1) m s])
  have "cyc_shape (cyclic_downheap i cpu)" unfolding cyclic_downheap_def by (rule reheap(2) [OF assms(1) m s])
  moreover have "heap_ok (cyclic_downheap i cpu)"
    using downheap_loop_ord [OF assms(3,2) n assms(4)] unfolding heap_ok_def e by (simp add: cyclic_downheap_def)
  ultimately show "cyc_ok (cyclic_downheap i cpu)" by (simp add: cyc_ok_def)
qed

lemma hole_root:
  assumes "heap_ord key n h" "distinct h" "n \<le> length h" "\<And>j. j \<noteq> h ! 0 \<Longrightarrow> key' j = key j"
  shows "hole key' n 0 h"
proof -
  have e: "key' (h ! j) = key (h ! j)" if "j < n" "0 < j" for j
  proof (rule assms(4))
    have "0 < length h" using that assms(3) by linarith
    then show "h ! j \<noteq> h ! 0" using that assms(2,3) nth_eq_iff_index_eq [of h j 0] by simp
  qed
  have "key' (h ! par j) \<le> key' (h ! j)" if j: "0 < j" "j < n" "par j \<noteq> 0" for j
  proof -
    have "par j < n" using par_lt [OF j(1)] j(2) by simp
    moreover have "key (h ! par j) \<le> key (h ! j)" using assms(1) j by (simp add: heap_ord_def)
    ultimately show ?thesis using e [OF j(2,1)] e [of "par j"] j(3) by simp
  qed
  then show ?thesis by (simp add: hole_def)
qed

lemma reroot_ok:
  assumes "cyc_ok cpu" "0 < cyp_nelems cpu" "used_ok c"
  shows "cyc_ok (cyclic_downheap 0 (set_cyclic (cyp_heap cpu ! 0) c cpu))"
    "inuse (cyclic_downheap 0 (set_cyclic (cyp_heap cpu ! 0) c cpu)) = inuse cpu"
proof -
  have sh: "cyc_shape cpu" and ho: "heap_ord (expire_of cpu) (cyp_nelems cpu) (cyp_heap cpu)"
    using assms(1) by (simp_all add: cyc_ok_def heap_ok_def)
  let ?cpu = "set_cyclic (cyp_heap cpu ! 0) c cpu"
  have s: "cyc_shape ?cpu" by (rule set_shape [OF sh place_inuse [OF sh assms(2)] assms(3)])
  have h: "hole (expire_of ?cpu) (cyp_nelems ?cpu) 0 (cyp_heap ?cpu)"
    unfolding set_cyclic_simps
  proof (rule hole_root [OF ho cyc_shapeD(2) [OF sh]])
    show "expire_of ?cpu j = expire_of cpu j" if "j \<noteq> cyp_heap cpu ! 0" for j using that by (simp add: expire_of_def)
  qed (use cyc_shapeD(1,5) [OF sh] in simp)
  show "cyc_ok (cyclic_downheap 0 ?cpu)" by (rule downheap_ok(1) [OF s _ h]) (use assms(2) in simp_all)
  have "inuse (cyclic_downheap 0 ?cpu) = inuse ?cpu" by (rule downheap_ok(2) [OF s _ h]) (use assms(2) in simp_all)
  then show "inuse (cyclic_downheap 0 ?cpu) = inuse cpu" by simp
qed

end
