(* ===== verification/Cyclic_Fire.thy ===== *)
theory Cyclic_Fire
  imports Cyclic_Inv
begin

section \<open>The interrupt handler \<open>cyclic_fire()\<close>\<close>

text \<open>
  What \<open>cyclic_fire()\<close> does to each cyclic, without the heap: its expiration time moves to the first one
  of its interval after \<open>now\<close>, and its pend count grows by the number of expirations. A cyclic that is
  more than a second late expires once for all the intervals that were missed.
\<close>

definition boundary :: "int \<Rightarrow> int \<Rightarrow> int \<Rightarrow> int" where
  "boundary now e iv = (if now < e then e else e + ((now - e) div iv + 1) * iv)"

definition expirations :: "int \<Rightarrow> int \<Rightarrow> int \<Rightarrow> nat" where
  "expirations now e iv =
     (if now < e then 0 else if now - (e + iv) > NANOSEC then 1 else nat ((now - e) div iv) + 1)"

definition bump :: "nat \<Rightarrow> uint32 \<Rightarrow> uint32" where
  "bump n p = of_nat (min (unat p + n) (2 ^ 32 - 1))"

definition settled :: "int \<Rightarrow> cyclic \<Rightarrow> cyclic" where
  "settled now c = c\<lparr>cy_expire := boundary now (cy_expire c) (cy_interval c),
     cy_pend := (if cy_level c = CY_HIGH_LEVEL then cy_pend c else bump (expirations now (cy_expire c) (cy_interval c)) (cy_pend c))\<rparr>"

subsection \<open>The next expiration\<close>

lemma hr_id: "- (2 ^ 63) \<le> t \<Longrightarrow> t < 2 ^ 63 \<Longrightarrow> hr t = t"
  by (simp add: hr_def signed_take_bit_int_eq_self)

lemma div_window:
  assumes "(0::int) < iv"
  shows "t < (t div iv + 1) * iv" "t div iv * iv \<le> t"
proof -
  have "t = t div iv * iv + t mod iv" by simp
  moreover have "0 \<le> t mod iv" "t mod iv < iv" using assms by simp_all
  moreover have "(t div iv + 1) * iv = t div iv * iv + iv" by (simp add: distrib_right)
  ultimately show "t < (t div iv + 1) * iv" "t div iv * iv \<le> t" by linarith+
qed

lemma next_expire_eq:
  assumes "0 \<le> e" "e \<le> now" "now \<le> 2 ^ 61" "0 < iv" "iv \<le> 2 ^ 61"
  shows "next_expire now e iv = (if now - (e + iv) > NANOSEC then e + ((now - e) div iv + 1) * iv else e + iv)"
proof -
  have a: "hr (e + iv) = e + iv" "hr (now - (e + iv)) = now - (e + iv)" using assms by (auto intro!: hr_id)
  have q: "(now - (e + iv)) div iv + 1 = (now - e) div iv"
    using div_add_self2 [of iv "now - (e + iv)"] assms(4) by simp
  have p: "0 \<le> (now - e) div iv * iv" "(now - e) div iv * iv \<le> now - e"
    using assms div_window(2) [OF assms(4), of "now - e"] pos_imp_zdiv_nonneg_iff [of iv "now - e"] by simp_all
  define r where "r = (now - e) div iv * iv"
  have r: "0 \<le> r" "r \<le> now - e" using p by (simp_all only: r_def)
  have b: "hr r = r" "hr (e + iv + r) = e + iv + r" using r assms by (auto intro!: hr_id)
  have "e + ((now - e) div iv + 1) * iv = e + iv + r" by (simp add: r_def distrib_right)
  then show ?thesis unfolding next_expire_def Let_def a q r_def [symmetric] b by simp
qed

lemma boundary_after: "0 < iv \<Longrightarrow> now < boundary now e iv"
  using div_window(1) [of iv "now - e"] by (simp add: boundary_def)

lemma boundary_bound: "0 < iv \<Longrightarrow> boundary now e iv \<le> max e (now + iv)"
  using div_window(2) [of iv "now - e"] by (simp add: boundary_def algebra_simps)

lemma boundary_mod: "boundary now e iv mod iv = e mod iv"
  by (simp add: boundary_def)

lemma next_expire_turn:
  assumes "0 \<le> e" "e \<le> now" "now \<le> 2 ^ 61" "0 < iv" "iv \<le> 2 ^ 61"
  shows "e < next_expire now e iv" "next_expire now e iv \<le> 2 ^ 62"
    "boundary now (next_expire now e iv) iv = boundary now e iv"
    "expirations now e iv = Suc (expirations now (next_expire now e iv) iv)"
proof -
  note n = next_expire_eq [OF assms] and w = div_window [OF assms(4), of "now - e"]
  show 1: "e < next_expire now e iv" using w assms by (simp add: n algebra_simps)
  show "next_expire now e iv \<le> 2 ^ 62" using w assms by (simp add: n algebra_simps)
  have d: "(now - (e + iv)) div iv = (now - e) div iv - 1"
    using div_add_self2 [of iv "now - (e + iv)"] assms(4) by simp
  show "boundary now (next_expire now e iv) iv = boundary now e iv"
  proof (cases "now - (e + iv) > NANOSEC")
    case True
    then have "next_expire now e iv = boundary now e iv" using assms(2) by (simp add: n boundary_def)
    then show ?thesis using boundary_after [OF assms(4), of now e] by (simp add: boundary_def)
  next
    case False
    have z: "(now - e) div iv = 0" if "now < e + iv" using that assms by simp
    from False show ?thesis using assms(2) z d by (simp add: n boundary_def algebra_simps)
  qed
  show "expirations now e iv = Suc (expirations now (next_expire now e iv) iv)"
  proof (cases "now - (e + iv) > NANOSEC")
    case True
    then have "next_expire now e iv = boundary now e iv" using assms(2) by (simp add: n boundary_def)
    then show ?thesis using boundary_after [OF assms(4), of now e] True assms(2) by (simp add: expirations_def)
  next
    case False
    then have x: "next_expire now e iv = e + iv" by (simp add: n)
    show ?thesis
    proof (cases "now < e + iv")
      case True
      then have "(now - e) div iv = 0" using assms by simp
      then show ?thesis using True False x assms(2) by (simp add: expirations_def)
    next
      case g: False
      then have "0 < (now - e) div iv" using assms by (simp add: pos_imp_zdiv_pos_iff)
      moreover have "\<not> now - (e + iv + iv) > NANOSEC" using False assms(4) by simp
      ultimately show ?thesis using g False x assms(2) d by (simp add: expirations_def nat_diff_distrib)
    qed
  qed
qed

subsection \<open>The pend count\<close>

lemma unat_bump: "unat (bump n p) = min (unat p + n) (2 ^ 32 - 1)"
proof -
  have "min (unat p + n) (2 ^ 32 - 1) < 2 ^ 32" by (simp add: min_def)
  then show ?thesis by (simp only: bump_def unat_of_nat) simp
qed

lemma unat_max: "unat (p :: uint32) \<le> 2 ^ 32 - 1"
  using unsigned_less [of p, where 'a = nat] by simp

lemma bump_0 [simp]: "bump 0 p = p"
  using unat_max [of p] by (simp add: word_unat_eq_iff unat_bump min_def)

lemma bump_Suc: "bump (Suc n) p = bump n (bump (Suc 0) p)"
  by (simp add: word_unat_eq_iff unat_bump min_def)

lemma bump_1: "bump (Suc 0) p = (if p + 1 = 0 then - 1 else p + 1)"
proof (cases "p + 1 = 0")
  case True
  have m: "unat (- 1 :: uint32) = 2 ^ 32 - 1" by (simp add: unsigned_minus_1_eq_mask mask_eq_exp_minus_1)
  have "p = - 1" using True by (simp add: eq_neg_iff_add_eq_0)
  then have "bump (Suc 0) p = - 1" by (simp add: word_unat_eq_iff [of "bump (Suc 0) _"] unat_bump m)
  then show ?thesis using True by simp
next
  case False
  then have "unat (p + 1) = Suc (unat p)" using unatSuc [of p] by (simp add: add.commute)
  moreover have "unat (p + 1) \<le> 2 ^ 32 - 1" by (rule unat_max)
  ultimately show ?thesis using False by (simp add: word_unat_eq_iff unat_bump)
qed

lemma bump_nonzero: "0 < n \<Longrightarrow> bump n p \<noteq> 0"
  by (auto simp: word_unat_eq_iff unat_bump)

subsection \<open>One turn of the loop\<close>

definition expired :: "cyclic \<Rightarrow> cyclic" where
  "expired c = c\<lparr>cy_pend := (if cy_level c = CY_HIGH_LEVEL then cy_pend c else bump (Suc 0) (cy_pend c))\<rparr>"

definition turned :: "int \<Rightarrow> cyclic \<Rightarrow> cyclic" where
  "turned now c = (expired c)\<lparr>cy_expire := next_expire now (cy_expire c) (cy_interval c)\<rparr>"

definition fire_turn :: "int \<Rightarrow> cyc_cpu \<Rightarrow> cyc_cpu" where
  "fire_turn now cpu =
     (let ndx = cyp_heap cpu ! 0; cpu' = cyclic_expire ndx cpu
      in cyclic_downheap 0 (set_cyclic ndx (turned now (cyp_cyclics cpu ! ndx)) cpu'))"

lemma cyclic_expire_cyclics: "cyp_cyclics (cyclic_expire ndx cpu) = (cyp_cyclics cpu)[ndx := expired (cyp_cyclics cpu ! ndx)]"
  by (simp add: cyclic_expire_def Let_def expired_def bump_1)

lemma cyclic_expire_simps [simp]:
  "cyp_heap (cyclic_expire ndx cpu) = cyp_heap cpu" "cyp_nelems (cyclic_expire ndx cpu) = cyp_nelems cpu"
  "cyp_size (cyclic_expire ndx cpu) = cyp_size cpu" "inuse (cyclic_expire ndx cpu) = inuse cpu"
  by (simp_all add: cyclic_expire_def Let_def inuse_def)

lemma timing_expired [simp]: "timing (expired c) = timing c" "cy_interval (expired c) = cy_interval c" "cy_expire (expired c) = cy_expire c"
  by (simp_all add: timing_def expired_def)

lemma list_update_eq_timing: "i < length cs \<Longrightarrow> timing (cs[ndx := expired (cs ! ndx)] ! i) = timing (cs ! i)"
  by (cases "i = ndx") simp_all

lemma cyclic_expire_pend_only: "ndx \<in> inuse cpu \<Longrightarrow> pend_only cpu (cyclic_expire ndx cpu)"
  by (auto simp: pend_only_def cyclic_expire_cyclics list_update_eq_timing) (metis nth_list_update_neq)

lemma cyclic_downheap_simps [simp]:
  "cyp_nelems (cyclic_downheap i cpu) = cyp_nelems cpu" "cyp_size (cyclic_downheap i cpu) = cyp_size cpu"
  "cyp_cyclics (cyclic_downheap i cpu) = cyp_cyclics cpu" "cyp_events (cyclic_downheap i cpu) = cyp_events cpu"
  "cyp_softbuf (cyclic_downheap i cpu) = cyp_softbuf cpu"
  by (simp_all add: cyclic_downheap_def)

lemma fire_loop_turn:
  assumes "cyp_heap cpu ! 0 < length (cyp_cyclics cpu)"
  shows "fire_loop now cpu =
    (if now < expire_of cpu (cyp_heap cpu ! 0) then Some (expire_of cpu (cyp_heap cpu ! 0), cpu) else fire_loop now (fire_turn now cpu))"
  using assms by (subst fire_loop.simps) (simp add: fire_turn_def Let_def cyclic_expire_cyclics turned_def expire_of_def)

lemma turned_ok:
  assumes "used_ok c" "cy_expire c \<le> now" "now_ok now"
  shows "used_ok (turned now c)" "cy_expire c < cy_expire (turned now c)" "settled now (turned now c) = settled now c"
proof -
  have b: "0 \<le> cy_expire c" "cy_expire c \<le> now" "now \<le> 2 ^ 61" "0 < cy_interval c" "cy_interval c \<le> 2 ^ 61"
    using assms by (simp_all add: used_ok_def time_ok_def now_ok_def)
  note n = next_expire_turn [OF b]
  show "cy_expire c < cy_expire (turned now c)" using n(1) by (simp add: turned_def)
  show "used_ok (turned now c)" using assms(1) b(1) n(1,2) by (simp add: turned_def used_ok_def time_ok_def expired_def)
  have t: "cy_expire (turned now c) = next_expire now (cy_expire c) (cy_interval c)" "cy_interval (turned now c) = cy_interval c"
    "cy_level (turned now c) = cy_level c" by (simp_all add: turned_def expired_def)
  have f: "c\<lparr>cy_expire := x, cy_pend := y\<rparr> = d\<lparr>cy_expire := x, cy_pend := y\<rparr>" if "d = turned now c" for x y d
    unfolding that turned_def expired_def by simp
  have p: "(if cy_level c = CY_HIGH_LEVEL then cy_pend (turned now c) else bump (expirations now (cy_expire (turned now c)) (cy_interval c)) (cy_pend (turned now c))) =
    (if cy_level c = CY_HIGH_LEVEL then cy_pend c else bump (expirations now (cy_expire c) (cy_interval c)) (cy_pend c))"
  proof (cases "cy_level c = CY_HIGH_LEVEL")
    case False
    then have q: "cy_pend (turned now c) = bump (Suc 0) (cy_pend c)" by (simp add: turned_def expired_def)
    show ?thesis unfolding q t(1) n(4) by (subst (2) bump_Suc) (simp add: False)
  qed (simp add: turned_def expired_def)
  show "settled now (turned now c) = settled now c" unfolding settled_def t(2,3) p f [OF refl] unfolding t(1) n(3) ..
qed

lemma fire_turn_ok:
  assumes "cyc_ok cpu" "0 < cyp_nelems cpu" "now_ok now" "expire_of cpu (cyp_heap cpu ! 0) \<le> now"
  shows "cyc_ok (fire_turn now cpu)" "inuse (fire_turn now cpu) = inuse cpu"
    "cyp_cyclics (fire_turn now cpu) = (cyp_cyclics cpu)[cyp_heap cpu ! 0 := turned now (cyp_cyclics cpu ! (cyp_heap cpu ! 0))]"
proof -
  let ?r = "cyp_heap cpu ! 0"
  have sh: "cyc_shape cpu" using assms(1) by (simp add: cyc_ok_def)
  have r: "?r \<in> inuse cpu" by (rule place_inuse [OF sh assms(2)])
  have u: "used_ok (turned now (cyp_cyclics cpu ! ?r))"
    using turned_ok(1) [OF cyc_shapeD(7) [OF sh r] _ assms(3)] assms(4) by (simp add: expire_of_def)
  have k: "cyc_ok (cyclic_expire ?r cpu)" by (rule pend_only_ok [OF assms(1) cyclic_expire_pend_only [OF r]])
  have n: "0 < cyp_nelems (cyclic_expire ?r cpu)" using assms(2) by simp
  note x = reroot_ok [OF k n u, unfolded cyclic_expire_simps]
  show "cyc_ok (fire_turn now cpu)" unfolding fire_turn_def Let_def by (rule x(1))
  show "inuse (fire_turn now cpu) = inuse cpu" unfolding fire_turn_def Let_def by (rule x(2))
  show "cyp_cyclics (fire_turn now cpu) = (cyp_cyclics cpu)[?r := turned now (cyp_cyclics cpu ! ?r)]"
    by (simp add: fire_turn_def Let_def cyclic_expire_cyclics)
qed

lemma fire_turn_sizes [simp]: "cyp_nelems (fire_turn now cpu) = cyp_nelems cpu" "cyp_size (fire_turn now cpu) = cyp_size cpu"
  by (simp_all add: fire_turn_def Let_def)

definition lag :: "int \<Rightarrow> cyc_cpu \<Rightarrow> nat" where
  "lag now cpu = (\<Sum>i \<in> inuse cpu. nat (now + 1 - expire_of cpu i))"

lemma lag_turn:
  assumes "cyc_ok cpu" "0 < cyp_nelems cpu" "now_ok now" "expire_of cpu (cyp_heap cpu ! 0) \<le> now"
  shows "lag now (fire_turn now cpu) < lag now cpu"
proof -
  let ?r = "cyp_heap cpu ! 0"
  have sh: "cyc_shape cpu" using assms(1) by (simp add: cyc_ok_def)
  have r: "?r \<in> inuse cpu" by (rule place_inuse [OF sh assms(2)])
  have l: "?r < length (cyp_cyclics cpu)" using inuse_bound [OF sh r] cyc_shapeD(4) [OF sh] by simp
  note t = fire_turn_ok [OF assms]
  have e: "expire_of cpu ?r < expire_of (fire_turn now cpu) ?r"
    using turned_ok(2) [OF cyc_shapeD(7) [OF sh r] _ assms(3)] assms(4) l by (simp add: t(3) expire_of_def)
  have o: "expire_of (fire_turn now cpu) i = expire_of cpu i" if "i \<noteq> ?r" for i using that by (simp add: t(3) expire_of_def)
  show ?thesis unfolding lag_def t(2)
  proof (rule sum_strict_mono_ex1)
    show "\<forall>i \<in> inuse cpu. nat (now + 1 - expire_of (fire_turn now cpu) i) \<le> nat (now + 1 - expire_of cpu i)"
    proof
      fix i show "nat (now + 1 - expire_of (fire_turn now cpu) i) \<le> nat (now + 1 - expire_of cpu i)" using e o [of i] by (cases "i = ?r") simp_all
    qed
    show "\<exists>i \<in> inuse cpu. nat (now + 1 - expire_of (fire_turn now cpu) i) < nat (now + 1 - expire_of cpu i)"
      using r e assms(4) by (intro bexI [of _ ?r]) simp_all
  qed simp
qed

subsection \<open>The loop\<close>

lemma root_in_range: "cyc_ok cpu \<Longrightarrow> 0 < cyp_nelems cpu \<Longrightarrow> cyp_heap cpu ! 0 < length (cyp_cyclics cpu)"
  using inuse_bound [of cpu "cyp_heap cpu ! 0"] place_inuse [of cpu 0] cyc_shapeD(4) [of cpu] by (simp add: cyc_ok_def)

lemma fire_loop_rule:
  assumes "cyc_ok cpu" "0 < cyp_nelems cpu" "now_ok now"
    and base: "\<And>c. cyc_ok c \<Longrightarrow> 0 < cyp_nelems c \<Longrightarrow> now < expire_of c (cyp_heap c ! 0) \<Longrightarrow> P c c"
    and turn: "\<And>c d. cyc_ok c \<Longrightarrow> 0 < cyp_nelems c \<Longrightarrow> expire_of c (cyp_heap c ! 0) \<le> now \<Longrightarrow> P (fire_turn now c) d \<Longrightarrow> P c d"
  shows "\<exists>d. fire_loop now cpu = Some (expire_of d (cyp_heap d ! 0), d) \<and> P cpu d"
  using assms(1,2)
proof (induction "lag now cpu" arbitrary: cpu rule: less_induct)
  case less
  note f = fire_loop_turn [OF root_in_range [OF less.prems], of now]
  show ?case
  proof (cases "now < expire_of cpu (cyp_heap cpu ! 0)")
    case True
    then show ?thesis using f base [OF less.prems] by simp
  next
    case False
    then have e: "expire_of cpu (cyp_heap cpu ! 0) \<le> now" by simp
    have n: "0 < cyp_nelems (fire_turn now cpu)" using less.prems(2) by simp
    from less.hyps [OF lag_turn [OF less.prems assms(3) e] fire_turn_ok(1) [OF less.prems assms(3) e] n]
    show ?thesis using f False turn [OF less.prems e] by auto
  qed
qed

definition fire_event :: "cyclic \<Rightarrow> cyc_event" where
  "fire_event c = (if cy_level c = CY_HIGH_LEVEL then Handler CY_HIGH_LEVEL (cy_handler c) (cy_arg c) else Cyb_softint (cy_level c))"

definition due_now :: "int \<Rightarrow> cyclic \<Rightarrow> nat" where
  "due_now now c = expirations now (cy_expire c) (cy_interval c)"

lemma cyclic_expire_events: "cyp_events (cyclic_expire ndx cpu) = cyp_events cpu @ [fire_event (cyp_cyclics cpu ! ndx)]"
  by (simp add: cyclic_expire_def Let_def fire_event_def)

lemma turned_event [simp]: "fire_event (turned now c) = fire_event c"
  by (simp add: fire_event_def turned_def expired_def)

lemma turned_due: "used_ok c \<Longrightarrow> cy_expire c \<le> now \<Longrightarrow> now_ok now \<Longrightarrow> due_now now c = Suc (due_now now (turned now c))"
  using next_expire_turn(4) [of "cy_expire c" now "cy_interval c"]
  by (simp add: due_now_def turned_def expired_def used_ok_def time_ok_def now_ok_def)

lemma settled_early: "now < cy_expire c \<Longrightarrow> settled now c = c" "now < cy_expire c \<Longrightarrow> due_now now c = 0"
  by (simp_all add: settled_def boundary_def expirations_def due_now_def)

text \<open>What the loop leaves: every cyclic in use is settled, and the number of times an event was caused.\<close>

definition fired :: "int \<Rightarrow> cyc_cpu \<Rightarrow> cyc_cpu \<Rightarrow> bool" where
  "fired now cpu cpu' \<longleftrightarrow> cyc_ok cpu' \<and> inuse cpu' = inuse cpu \<and> cyp_nelems cpu' = cyp_nelems cpu \<and> cyp_size cpu' = cyp_size cpu \<and>
     (\<forall>i. cyp_cyclics cpu' ! i = (if i \<in> inuse cpu then settled now (cyp_cyclics cpu ! i) else cyp_cyclics cpu ! i)) \<and>
     (\<exists>es. cyp_events cpu' = cyp_events cpu @ es \<and> set es \<subseteq> (\<lambda>i. fire_event (cyp_cyclics cpu ! i)) ` inuse cpu \<and>
        (\<forall>P. length (filter P es) = (\<Sum>i \<in> {i \<in> inuse cpu. P (fire_event (cyp_cyclics cpu ! i))}. due_now now (cyp_cyclics cpu ! i))))"

lemma fired_refl:
  assumes "cyc_ok cpu" "now < expire_of cpu (cyp_heap cpu ! 0)"
  shows "fired now cpu cpu"
proof -
  have "now < cy_expire (cyp_cyclics cpu ! i)" if "i \<in> inuse cpu" for i
    using root_earliest [OF assms(1) that] assms(2) by (simp add: expire_of_def)
  then have "settled now (cyp_cyclics cpu ! i) = cyp_cyclics cpu ! i \<and> due_now now (cyp_cyclics cpu ! i) = 0" if "i \<in> inuse cpu" for i
    using settled_early that by blast
  then show ?thesis using assms(1) by (simp add: fired_def)
qed

lemma fired_turn:
  assumes "cyc_ok c" "0 < cyp_nelems c" "expire_of c (cyp_heap c ! 0) \<le> now" "now_ok now" "fired now (fire_turn now c) d"
  shows "fired now c d"
proof -
  let ?r = "cyp_heap c ! 0" and ?t = "fire_turn now c"
  note t = fire_turn_ok [OF assms(1,2,4,3)]
  have sh: "cyc_shape c" using assms(1) by (simp add: cyc_ok_def)
  have r: "?r \<in> inuse c" "?r < length (cyp_cyclics c)" by (rule place_inuse [OF sh assms(2)], rule root_in_range [OF assms(1,2)])
  have u: "used_ok (cyp_cyclics c ! ?r)" "cy_expire (cyp_cyclics c ! ?r) \<le> now"
    using cyc_shapeD(7) [OF sh r(1)] assms(3) by (simp_all add: expire_of_def)
  have nth: "cyp_cyclics ?t ! i = (if i = ?r then turned now (cyp_cyclics c ! ?r) else cyp_cyclics c ! i)" for i
    using r(2) by (simp add: t(3))
  have ev: "fire_event (cyp_cyclics ?t ! i) = fire_event (cyp_cyclics c ! i)" for i by (simp add: nth)
  have st: "settled now (cyp_cyclics ?t ! i) = settled now (cyp_cyclics c ! i)" for i
    using turned_ok(3) [OF u assms(4)] by (simp add: nth)
  have es0: "cyp_events ?t = cyp_events c @ [fire_event (cyp_cyclics c ! ?r)]"
    by (simp add: fire_turn_def Let_def cyclic_expire_events)
  obtain es where es: "cyp_events d = cyp_events ?t @ es" "set es \<subseteq> (\<lambda>i. fire_event (cyp_cyclics ?t ! i)) ` inuse ?t"
    "\<And>P. length (filter P es) = (\<Sum>i \<in> {i \<in> inuse ?t. P (fire_event (cyp_cyclics ?t ! i))}. due_now now (cyp_cyclics ?t ! i))"
    using assms(5) unfolding fired_def by blast
  have sum: "length (filter P (fire_event (cyp_cyclics c ! ?r) # es)) =
      (\<Sum>i \<in> {i \<in> inuse c. P (fire_event (cyp_cyclics c ! i))}. due_now now (cyp_cyclics c ! i))" for P
  proof -
    let ?A = "{i \<in> inuse c. P (fire_event (cyp_cyclics c ! i))}"
    have o: "(\<Sum>i \<in> ?A - {?r}. due_now now (cyp_cyclics ?t ! i)) = (\<Sum>i \<in> ?A - {?r}. due_now now (cyp_cyclics c ! i))"
      by (rule sum.cong) (simp_all add: nth)
    have e: "length (filter P es) = (\<Sum>i \<in> ?A. due_now now (cyp_cyclics ?t ! i))" using es(3) [of P] unfolding t(2) ev .
    show ?thesis
    proof (cases "P (fire_event (cyp_cyclics c ! ?r))")
      case True
      have f: "finite ?A" "?r \<in> ?A" using True r(1) by simp_all
      have "length (filter P es) = due_now now (turned now (cyp_cyclics c ! ?r)) + (\<Sum>i \<in> ?A - {?r}. due_now now (cyp_cyclics c ! i))"
        using e unfolding sum.remove [OF f] o by (simp add: nth)
      then show ?thesis using True turned_due [OF u assms(4)] unfolding sum.remove [OF f] by simp
    next
      case False
      then have "?A - {?r} = ?A" by auto
      then show ?thesis using False o e by simp
    qed
  qed
  have "cyp_events d = cyp_events c @ fire_event (cyp_cyclics c ! ?r) # es" using es(1) es0 by simp
  moreover have "set (fire_event (cyp_cyclics c ! ?r) # es) \<subseteq> (\<lambda>i. fire_event (cyp_cyclics c ! i)) ` inuse c" using es(2) r(1) by (simp add: t(2) ev)
  ultimately have ex: "\<exists>es. cyp_events d = cyp_events c @ es \<and> set es \<subseteq> (\<lambda>i. fire_event (cyp_cyclics c ! i)) ` inuse c \<and>
        (\<forall>P. length (filter P es) = (\<Sum>i \<in> {i \<in> inuse c. P (fire_event (cyp_cyclics c ! i))}. due_now now (cyp_cyclics c ! i)))"
    using sum by blast
  have "cyp_cyclics d ! i = (if i \<in> inuse c then settled now (cyp_cyclics c ! i) else cyp_cyclics c ! i)" for i
  proof -
    have "cyp_cyclics d ! i = (if i \<in> inuse c then settled now (cyp_cyclics ?t ! i) else cyp_cyclics ?t ! i)" using assms(5) t(2) unfolding fired_def by simp
    then show ?thesis unfolding st using nth [of i] r(1) by auto
  qed
  then show ?thesis using assms(5) ex t(2) unfolding fired_def by simp
qed

lemma fire_loop_fired:
  assumes "cyc_ok cpu" "0 < cyp_nelems cpu" "now_ok now"
  shows "\<exists>d. fire_loop now cpu = Some (expire_of d (cyp_heap d ! 0), d) \<and> fired now cpu d"
proof (rule fire_loop_rule [OF assms])
  show "fired now c c" if "cyc_ok c" "now < expire_of c (cyp_heap c ! 0)" for c by (rule fired_refl [OF that])
  show "fired now c d" if "cyc_ok c" "0 < cyp_nelems c" "expire_of c (cyp_heap c ! 0) \<le> now" "fired now (fire_turn now c) d" for c d
    by (rule fired_turn [OF that(1-3) assms(3) that(4)])
qed

end
