(* ===== verification/Cyclic_Queue.thy ===== *)
theory Cyclic_Queue
  imports Cyclic
begin

section \<open>The producer/consumer buffers of cyclics\<close>

text \<open>
  A bounded queue, and the circular buffers of \<open>uts/common/os/cyclic.c\<close> as one: \<open>cyclic_expire()\<close> puts an index in
  and \<open>cyclic_softint()\<close> takes it out. The 32-bit counters wrap; only their difference is bounded.
\<close>

subsection \<open>Bounded queues\<close>

locale bounded_fifo =
  fixes ok :: "'q \<Rightarrow> bool"
    and cap :: "'q \<Rightarrow> nat"
    and entries :: "'q \<Rightarrow> 'a list"
    and enq :: "'a \<Rightarrow> 'q \<Rightarrow> 'q"
    and deq :: "'q \<Rightarrow> 'q"
    and front :: "'q \<Rightarrow> 'a"
  assumes enq_ok: "ok q \<Longrightarrow> length (entries q) < cap q \<Longrightarrow> ok (enq x q)"
    and enq_cap: "cap (enq x q) = cap q"
    and enq_entries: "ok q \<Longrightarrow> length (entries q) < cap q \<Longrightarrow> entries (enq x q) = entries q @ [x]"
    and deq_ok: "ok q \<Longrightarrow> entries q \<noteq> [] \<Longrightarrow> ok (deq q)"
    and deq_cap: "cap (deq q) = cap q"
    and deq_entries: "ok q \<Longrightarrow> entries q \<noteq> [] \<Longrightarrow> entries (deq q) = tl (entries q)"
    and front_entries: "ok q \<Longrightarrow> entries q \<noteq> [] \<Longrightarrow> front q = hd (entries q)"
begin

text \<open>The queue holds each element of a set once.\<close>

definition holds :: "'a set \<Rightarrow> 'q \<Rightarrow> bool" where
  "holds A q \<longleftrightarrow> ok q \<and> distinct (entries q) \<and> set (entries q) = A"

lemma holds_room:
  assumes "holds A q" "A \<subset> B" "finite B" "card B \<le> cap q"
  shows "length (entries q) < cap q"
proof -
  have "length (entries q) = card A" using assms(1) by (auto simp: holds_def distinct_card [symmetric])
  then show ?thesis using psubset_card_mono [OF assms(3,2)] assms(4) by simp
qed

lemma holds_enq:
  assumes "holds A q" "x \<notin> A" "length (entries q) < cap q"
  shows "holds (insert x A) (enq x q)"
  using assms enq_ok [of q x] enq_entries [of q x] by (auto simp: holds_def)

lemma holds_deq:
  assumes "holds A q" "A \<noteq> {}"
  shows "front q \<in> A" "holds (A - {front q}) (deq q)"
proof -
  have a: "ok q" "distinct (entries q)" "set (entries q) = A" using assms(1) by (simp_all add: holds_def)
  then obtain x xs where e: "entries q = x # xs" using assms(2) by (cases "entries q") auto
  have n: "entries q \<noteq> []" using e by simp
  have f: "front q = x" using front_entries [OF a(1) n] e by simp
  show "front q \<in> A" using f e a(3) by auto
  show "holds (A - {front q}) (deq q)" unfolding f holds_def using deq_ok [OF a(1) n] deq_entries [OF a(1) n] e a(2,3) by auto
qed

lemma holds_empty: "holds A q \<Longrightarrow> entries q = [] \<longleftrightarrow> A = {}"
  by (auto simp: holds_def)

end

subsection \<open>The circular buffer\<close>

definition pc_len :: "cyc_pcbuffer \<Rightarrow> nat" where
  "pc_len pc = unat (cypc_prodndx pc - cypc_consndx pc)"

definition pc_slot :: "cyc_pcbuffer \<Rightarrow> nat \<Rightarrow> nat" where
  "pc_slot pc k = unat ((cypc_consndx pc + of_nat k) AND cypc_sizemask pc)"

definition pc_entries :: "cyc_pcbuffer \<Rightarrow> nat list" where
  "pc_entries pc = map (\<lambda>k. cypc_buf pc ! pc_slot pc k) [0..<pc_len pc]"

definition pc_cap :: "cyc_pcbuffer \<Rightarrow> nat" where
  "pc_cap pc = length (cypc_buf pc)"

definition pc_ok :: "cyc_pcbuffer \<Rightarrow> bool" where
  "pc_ok pc \<longleftrightarrow> (\<exists>m < 32. cypc_sizemask pc = 2 ^ m - 1 \<and> pc_cap pc = 2 ^ m) \<and> pc_len pc \<le> pc_cap pc"

definition pc_consume :: "cyc_pcbuffer \<Rightarrow> cyc_pcbuffer" where
  "pc_consume pc = pc\<lparr>cypc_consndx := cypc_consndx pc + 1\<rparr>"

definition pc_front :: "cyc_pcbuffer \<Rightarrow> nat" where
  "pc_front pc = cypc_buf pc ! unat (cypc_consndx pc AND cypc_sizemask pc)"

lemma pc_slot_eq:
  assumes "cypc_sizemask pc = 2 ^ m - 1" "m < 32"
  shows "pc_slot pc k = (unat (cypc_consndx pc) + k) mod 2 ^ m"
proof -
  have d: "(2::nat) ^ m dvd 2 ^ 32" using assms(2) by (intro le_imp_power_dvd) simp
  have "pc_slot pc k = unat (cypc_consndx pc + of_nat k) mod 2 ^ m"
    by (simp add: pc_slot_def assms(1) and_exp_minus_1 unat_take_bit)
  also have "unat (cypc_consndx pc + of_nat k :: uint32) = (unat (cypc_consndx pc) + k) mod 2 ^ 32"
    by (simp add: unat_word_ariths unat_of_nat mod_simps)
  also have "\<dots> mod 2 ^ m = (unat (cypc_consndx pc) + k) mod 2 ^ m" by (rule mod_mod_cancel [OF d])
  finally show ?thesis .
qed

lemma mod_window: "k < (n::nat) \<Longrightarrow> n < M \<Longrightarrow> (c + k) mod M \<noteq> (c + n) mod M"
proof
  assume a: "k < n" "n < M" "(c + k) mod M = (c + n) mod M"
  then have "M dvd (c + n) - (c + k)" by (metis mod_eq_dvd_iff_nat add_le_cancel_left less_imp_le)
  then have "M dvd n - k" by simp
  then show False using a(1,2) by (auto dest!: dvd_imp_le)
qed

lemma pc_len_enqueue:
  assumes "pc_len pc < 2 ^ 32 - 1"
  shows "pc_len (pc_enqueue x pc) = Suc (pc_len pc)"
proof -
  have e: "cypc_prodndx pc + 1 - cypc_consndx pc = 1 + (cypc_prodndx pc - cypc_consndx pc)" by simp
  have "1 + (cypc_prodndx pc - cypc_consndx pc) \<noteq> 0"
  proof
    assume "1 + (cypc_prodndx pc - cypc_consndx pc) = 0"
    then have "cypc_prodndx pc - cypc_consndx pc = - 1" by (metis add.inverse_inverse add_eq_0_iff)
    then have "pc_len pc = 2 ^ 32 - 1" by (simp add: pc_len_def unsigned_minus_1_eq_mask mask_eq_exp_minus_1)
    with assms show False by simp
  qed
  then show ?thesis unfolding pc_len_def pc_enqueue_def by (simp add: e unatSuc del: add_diff_eq)
qed

lemma pc_enqueue_slot:
  assumes "cypc_sizemask pc = 2 ^ m - 1" "m < 32"
  shows "unat (cypc_prodndx pc AND cypc_sizemask pc) = pc_slot pc (pc_len pc)"
  by (simp add: pc_slot_def pc_len_def)

lemma pc_enqueue_entries:
  assumes "pc_ok pc" "pc_len pc < pc_cap pc"
  shows "pc_ok (pc_enqueue x pc)" "pc_entries (pc_enqueue x pc) = pc_entries pc @ [x]"
proof -
  obtain m where m: "m < 32" "cypc_sizemask pc = 2 ^ m - 1" "pc_cap pc = 2 ^ m" using assms(1) by (auto simp: pc_ok_def)
  let ?n = "pc_len pc" and ?c = "unat (cypc_consndx pc)"
  have "(2::nat) ^ m \<le> 2 ^ 31" using m(1) by (intro power_increasing) simp_all
  then have l: "pc_len (pc_enqueue x pc) = Suc ?n" using assms(2) m(3) by (intro pc_len_enqueue) simp
  have f: "cypc_sizemask (pc_enqueue x pc) = cypc_sizemask pc" "cypc_consndx (pc_enqueue x pc) = cypc_consndx pc"
    "pc_cap (pc_enqueue x pc) = pc_cap pc" by (simp_all add: pc_enqueue_def pc_cap_def)
  have s: "pc_slot (pc_enqueue x pc) k = pc_slot pc k" for k by (simp add: pc_slot_def f)
  note e = pc_slot_eq [OF m(2,1)]
  have b: "cypc_buf (pc_enqueue x pc) = (cypc_buf pc)[pc_slot pc ?n := x]" by (simp add: pc_enqueue_def pc_enqueue_slot [OF m(2,1)])
  show "pc_ok (pc_enqueue x pc)" using m f l assms(2) by (auto simp: pc_ok_def)
  have i: "pc_slot pc ?n < length (cypc_buf pc)" using m(3) by (simp add: e pc_cap_def)
  have o: "cypc_buf (pc_enqueue x pc) ! pc_slot pc k = cypc_buf pc ! pc_slot pc k" if "k < ?n" for k
    using mod_window [of k ?n "2 ^ m" ?c] that assms(2) m(3) by (simp add: b e)
  show "pc_entries (pc_enqueue x pc) = pc_entries pc @ [x]" unfolding pc_entries_def l s using o i by (simp add: b)
qed

lemma pc_consume_entries:
  assumes "pc_ok pc" "pc_entries pc \<noteq> []"
  shows "pc_ok (pc_consume pc)" "pc_entries (pc_consume pc) = tl (pc_entries pc)"
proof -
  have n: "0 < pc_len pc" using assms(2) by (simp add: pc_entries_def)
  have "cypc_prodndx pc - cypc_consndx pc \<noteq> 0" using n by (auto simp: pc_len_def)
  then have "unat (cypc_prodndx pc - cypc_consndx pc - 1) = unat (cypc_prodndx pc - cypc_consndx pc) - 1" by (rule unat_minus_one)
  moreover have "cypc_prodndx pc - (cypc_consndx pc + 1) = cypc_prodndx pc - cypc_consndx pc - 1" by simp
  moreover have "cypc_prodndx (pc_consume pc) = cypc_prodndx pc" "cypc_consndx (pc_consume pc) = cypc_consndx pc + 1" by (simp_all add: pc_consume_def)
  ultimately have l: "pc_len (pc_consume pc) = pc_len pc - 1" by (simp only: pc_len_def)
  have s: "pc_slot (pc_consume pc) k = pc_slot pc (Suc k)" for k by (simp add: pc_slot_def pc_consume_def add.assoc)
  have f: "cypc_buf (pc_consume pc) = cypc_buf pc" "cypc_sizemask (pc_consume pc) = cypc_sizemask pc" by (simp_all add: pc_consume_def)
  show "pc_ok (pc_consume pc)" using assms(1) l f by (auto simp: pc_ok_def pc_cap_def)
  have "[0..<pc_len pc] = 0 # map Suc [0..<pc_len pc - 1]" using n by (simp add: upt_conv_Cons map_Suc_upt)
  then show "pc_entries (pc_consume pc) = tl (pc_entries pc)" by (simp add: pc_entries_def l s f comp_def)
qed

interpretation pcq: bounded_fifo pc_ok pc_cap pc_entries pc_enqueue pc_consume pc_front
proof
  show "pc_ok (pc_enqueue x q)" if "pc_ok q" "length (pc_entries q) < pc_cap q" for q x
    using pc_enqueue_entries(1) [of q x] that by (simp add: pc_entries_def)
  show "pc_entries (pc_enqueue x q) = pc_entries q @ [x]" if "pc_ok q" "length (pc_entries q) < pc_cap q" for q x
    using pc_enqueue_entries(2) [of q x] that by (simp add: pc_entries_def)
  show "pc_cap (pc_enqueue x q) = pc_cap q" for q x by (simp add: pc_cap_def pc_enqueue_def)
  show "pc_cap (pc_consume q) = pc_cap q" for q by (simp add: pc_cap_def pc_consume_def)
  show "pc_ok (pc_consume q)" if "pc_ok q" "pc_entries q \<noteq> []" for q by (rule pc_consume_entries(1) [OF that])
  show "pc_entries (pc_consume q) = tl (pc_entries q)" if "pc_ok q" "pc_entries q \<noteq> []" for q by (rule pc_consume_entries(2) [OF that])
  show "pc_front q = hd (pc_entries q)" if "pc_ok q" "pc_entries q \<noteq> []" for q
  proof -
    have "0 < pc_len q" using that(2) by (simp add: pc_entries_def)
    then show ?thesis by (simp add: pc_entries_def upt_conv_Cons pc_front_def pc_slot_def)
  qed
qed

lemma pc_empty_iff: "pc_entries pc = [] \<longleftrightarrow> cypc_consndx pc = cypc_prodndx pc"
  by (auto simp: pc_entries_def pc_len_def unat_eq_zero)

end
