(* ===== verification/Cyclic_Sys.thy ===== *)
theory Cyclic_Sys
  imports Cyclic
begin

section \<open>Cyclics of the whole system\<close>

text \<open>
  The operations of \<open>uts/common/os/cyclic.c\<close> on cyclics of all CPUs: the choice of a CPU, adding and
  removing by identifier, juggling, binding, and taking CPUs in and out. A CPU and its \<open>cyc_cpu\<close> have
  the same number. The circular lists of CPUs, which the code follows through \<open>cpu_next_onln\<close> and
  \<open>cpu_next_part\<close>, are lists; \<open>cyclic_id_head\<close> is the list of identifiers from its head. None is a panic.
\<close>

record cpu =
  cpu_part :: nat
  cpu_enable :: bool
  cpu_cyclic :: cyc_cpu

record cyc_id =
  cyi_name :: nat
  cyi_cpu :: nat
  cyi_ndx :: nat

record cyc_sys =
  sys_cpus :: "cpu list"
  sys_onln :: "nat list"
  sys_part :: "nat \<Rightarrow> nat list"
  cyclic_id_head :: "cyc_id list"
  sys_fresh :: nat

abbreviation cyc_of :: "cyc_sys \<Rightarrow> nat \<Rightarrow> cyc_cpu" where
  "cyc_of s c \<equiv> cpu_cyclic (sys_cpus s ! c)"

definition set_cyc :: "nat \<Rightarrow> cyc_cpu \<Rightarrow> cyc_sys \<Rightarrow> cyc_sys" where
  "set_cyc c cyp s = s\<lparr>sys_cpus := (sys_cpus s)[c := (sys_cpus s ! c)\<lparr>cpu_cyclic := cyp\<rparr>]\<rparr>"

definition has_flag :: "cy_flags \<Rightarrow> cy_flags \<Rightarrow> bool" where
  "has_flag flags f \<longleftrightarrow> flags AND f \<noteq> 0"

subsection \<open>The choice of a CPU\<close>

definition ring_from :: "nat \<Rightarrow> nat list \<Rightarrow> nat list" where
  "ring_from start ring = dropWhile (\<lambda>c. c \<noteq> start) ring @ takeWhile (\<lambda>c. c \<noteq> start) ring"

definition pick_candidate :: "cyc_sys \<Rightarrow> nat option \<Rightarrow> nat \<Rightarrow> bool" where
  "pick_candidate s avoid c \<longleftrightarrow> cyp_state (cyc_of s c) \<noteq> CYS_OFFLINE \<and> Some c \<noteq> avoid"

text \<open>The result is the panic None, or Some of the CPU or of the null pointer.\<close>

definition cyclic_pick_cpu ::
  "nat \<Rightarrow> nat option \<Rightarrow> nat option \<Rightarrow> nat option \<Rightarrow> cy_flags \<Rightarrow> cyc_sys \<Rightarrow> nat option option" where
  "cyclic_pick_cpu curcpu part bound avoid flags s =
     (let start = (case part of Some p \<Rightarrow> hd (sys_part s p) | None \<Rightarrow> curcpu)
      in if has_flag flags CYF_CPU_BOUND
         then if has_flag flags CYF_PART_BOUND \<and> Some (cpu_part (sys_cpus s ! the bound)) \<noteq> part then None
              else Some (if bound = avoid then None else bound)
         else let ring = ring_from start (if has_flag flags CYF_PART_BOUND then sys_part s (the part) else sys_onln s)
              in case find (\<lambda>c. pick_candidate s avoid c \<and> cpu_enable (sys_cpus s ! c)) ring of
                   Some c \<Rightarrow> Some (Some c)
                 | None \<Rightarrow> Some (if has_flag flags CYF_PART_BOUND then find (pick_candidate s avoid) ring else None))"

subsection \<open>Adding, removing, juggling\<close>

text \<open>
  \<open>wait\<close> is what happens on a CPU while the caller waits for it, \<open>now\<close> the time \<open>gethrtime()\<close> gives.
\<close>

definition cyclic_add :: "(cyc_cpu \<Rightarrow> cyc_cpu) \<Rightarrow> int \<Rightarrow> nat \<Rightarrow> cyc_handler \<Rightarrow> cyc_time \<Rightarrow> cyc_sys \<Rightarrow> (nat \<times> cyc_sys) option" where
  "cyclic_add wait now curcpu hdlr when s =
     (case cyclic_pick_cpu curcpu None None None 0 s of
        Some (Some c) \<Rightarrow>
          (let (ndx, cyp) = cyclic_add_here wait now hdlr when 0 (cyc_of s c);
               s = set_cyc c cyp s;
               idp = \<lparr>cyi_name = sys_fresh s, cyi_cpu = c, cyi_ndx = ndx\<rparr>
           in Some (cyi_name idp, s\<lparr>cyclic_id_head := idp # cyclic_id_head s, sys_fresh := sys_fresh s + 1\<rparr>))
      | _ \<Rightarrow> None)"

definition id_lookup :: "nat \<Rightarrow> cyc_sys \<Rightarrow> cyc_id option" where
  "id_lookup name s = find (\<lambda>i. cyi_name i = name) (cyclic_id_head s)"

definition cyclic_remove :: "(cyc_cpu \<Rightarrow> cyc_cpu) \<Rightarrow> nat \<Rightarrow> cyc_sys \<Rightarrow> cyc_sys option" where
  "cyclic_remove wait name s =
     (case id_lookup name s of
        None \<Rightarrow> None
      | Some idp \<Rightarrow>
          map_option (\<lambda>(when, cyp). (set_cyc (cyi_cpu idp) cyp s)\<lparr>cyclic_id_head := filter (\<lambda>i. cyi_name i \<noteq> name) (cyclic_id_head s)\<rparr>)
            (cyclic_remove_here wait (cyi_ndx idp) (cyc_of s (cyi_cpu idp))))"

definition id_update :: "cyc_id \<Rightarrow> cyc_sys \<Rightarrow> cyc_sys" where
  "id_update idp s = s\<lparr>cyclic_id_head := map (\<lambda>i. if cyi_name i = cyi_name idp then idp else i) (cyclic_id_head s)\<rparr>"

definition cyclic_juggle_one_to :: "(cyc_cpu \<Rightarrow> cyc_cpu) \<Rightarrow> int \<Rightarrow> cyc_id \<Rightarrow> nat \<Rightarrow> cyc_sys \<Rightarrow> cyc_sys option" where
  "cyclic_juggle_one_to wait now idp dest s =
     (let src = cyi_cpu idp;
          cyclic = cyp_cyclics (cyc_of s src) ! cyi_ndx idp;
          hdlr = \<lparr>cyh_func = cy_handler cyclic, cyh_arg = cy_arg cyclic, cyh_level = cy_level cyclic\<rparr>
      in case cyclic_remove_here wait (cyi_ndx idp) (cyc_of s src) of
           None \<Rightarrow> None
         | Some (when, cyp) \<Rightarrow>
             (let s = set_cyc src cyp s;
                  (ndx, cyp) = cyclic_add_here wait now hdlr when (cy_flags cyclic) (cyc_of s dest)
              in Some (id_update (idp\<lparr>cyi_cpu := dest, cyi_ndx := ndx\<rparr>) (set_cyc dest cyp s))))"

definition cyclic_juggle_one :: "(cyc_cpu \<Rightarrow> cyc_cpu) \<Rightarrow> int \<Rightarrow> nat \<Rightarrow> cyc_id \<Rightarrow> cyc_sys \<Rightarrow> (bool \<times> cyc_sys) option" where
  "cyclic_juggle_one wait now curcpu idp s =
     (let c = cyi_cpu idp; flags = cy_flags (cyp_cyclics (cyc_of s c) ! cyi_ndx idp)
      in case cyclic_pick_cpu curcpu (Some (cpu_part (sys_cpus s ! c))) (Some c) (Some c) flags s of
           None \<Rightarrow> None
         | Some None \<Rightarrow> Some (False, s)
         | Some (Some dest) \<Rightarrow> map_option (Pair True) (cyclic_juggle_one_to wait now idp dest s))"

subsection \<open>Binding\<close>

definition cyclic_at :: "cyc_sys \<Rightarrow> cyc_id \<Rightarrow> cyclic" where
  "cyclic_at s idp = cyp_cyclics (cyc_of s (cyi_cpu idp)) ! cyi_ndx idp"

definition set_flags :: "cyc_id \<Rightarrow> cy_flags \<Rightarrow> cyc_sys \<Rightarrow> cyc_sys" where
  "set_flags idp flags s =
     set_cyc (cyi_cpu idp) (set_cyclic (cyi_ndx idp) ((cyclic_at s idp)\<lparr>cy_flags := flags\<rparr>) (cyc_of s (cyi_cpu idp))) s"

definition cyclic_unbind_cpu :: "(cyc_cpu \<Rightarrow> cyc_cpu) \<Rightarrow> int \<Rightarrow> nat \<Rightarrow> nat \<Rightarrow> cyc_sys \<Rightarrow> cyc_sys option" where
  "cyclic_unbind_cpu wait now curcpu name s =
     (case id_lookup name s of
        None \<Rightarrow> None
      | Some idp \<Rightarrow>
          (let s = set_flags idp (cy_flags (cyclic_at s idp) AND NOT CYF_CPU_BOUND) s
           in if \<not> cpu_enable (sys_cpus s ! cyi_cpu idp) then map_option snd (cyclic_juggle_one wait now curcpu idp s) else Some s))"

definition cyclic_unbind_cpupart :: "(cyc_cpu \<Rightarrow> cyc_cpu) \<Rightarrow> int \<Rightarrow> nat \<Rightarrow> nat \<Rightarrow> cyc_sys \<Rightarrow> cyc_sys option" where
  "cyclic_unbind_cpupart wait now curcpu name s =
     (case id_lookup name s of
        None \<Rightarrow> None
      | Some idp \<Rightarrow>
          (let flags = cy_flags (cyclic_at s idp) AND NOT CYF_PART_BOUND; s = set_flags idp flags s
           in if \<not> cpu_enable (sys_cpus s ! cyi_cpu idp) \<and> \<not> has_flag flags CYF_CPU_BOUND
              then map_option snd (cyclic_juggle_one wait now curcpu idp s) else Some s))"

definition bind_to :: "(cyc_cpu \<Rightarrow> cyc_cpu) \<Rightarrow> int \<Rightarrow> cyc_id \<Rightarrow> nat \<Rightarrow> cy_flags \<Rightarrow> cyc_sys \<Rightarrow> cyc_sys option" where
  "bind_to wait now idp dest flag s =
     (case (if dest \<noteq> cyi_cpu idp then cyclic_juggle_one_to wait now idp dest s else Some s) of
        None \<Rightarrow> None
      | Some s \<Rightarrow> map_option (\<lambda>idp. set_flags idp (cy_flags (cyclic_at s idp) OR flag) s) (id_lookup (cyi_name idp) s))"

definition cyclic_bind_cpu :: "(cyc_cpu \<Rightarrow> cyc_cpu) \<Rightarrow> int \<Rightarrow> nat \<Rightarrow> nat \<Rightarrow> nat \<Rightarrow> cyc_sys \<Rightarrow> cyc_sys option" where
  "cyclic_bind_cpu wait now curcpu name d s =
     (case id_lookup name s of
        None \<Rightarrow> None
      | Some idp \<Rightarrow>
          (case cyclic_pick_cpu curcpu (Some (cpu_part (sys_cpus s ! cyi_cpu idp))) (Some d) None
                  (cy_flags (cyclic_at s idp) OR CYF_CPU_BOUND) s of
             Some (Some dest) \<Rightarrow> bind_to wait now idp dest CYF_CPU_BOUND s
           | _ \<Rightarrow> None))"

definition cyclic_bind_cpupart :: "(cyc_cpu \<Rightarrow> cyc_cpu) \<Rightarrow> int \<Rightarrow> nat \<Rightarrow> nat \<Rightarrow> nat \<Rightarrow> cyc_sys \<Rightarrow> cyc_sys option" where
  "cyclic_bind_cpupart wait now curcpu name part s =
     (case id_lookup name s of
        None \<Rightarrow> None
      | Some idp \<Rightarrow>
          (case cyclic_pick_cpu curcpu (Some part) (Some (cyi_cpu idp)) None (cy_flags (cyclic_at s idp) OR CYF_PART_BOUND) s of
             Some (Some dest) \<Rightarrow> bind_to wait now idp dest CYF_PART_BOUND s
           | _ \<Rightarrow> None))"

definition cyclic_bind ::
  "(cyc_cpu \<Rightarrow> cyc_cpu) \<Rightarrow> int \<Rightarrow> nat \<Rightarrow> nat \<Rightarrow> nat option \<Rightarrow> nat option \<Rightarrow> cyc_sys \<Rightarrow> cyc_sys option" where
  "cyclic_bind wait now curcpu name d part s =
     (case id_lookup name s of
        None \<Rightarrow> None
      | Some idp \<Rightarrow>
          (let flags = cy_flags (cyclic_at s idp)
           in case (if Some (cyi_cpu idp) \<noteq> d \<and> has_flag flags CYF_CPU_BOUND then cyclic_unbind_cpu wait now curcpu name s else Some s) of
                None \<Rightarrow> None
              | Some s \<Rightarrow>
                  (let c = cyi_cpu (the (id_lookup name s))
                   in case (if part \<noteq> Some (cpu_part (sys_cpus s ! c)) \<and> has_flag flags CYF_PART_BOUND
                            then cyclic_unbind_cpupart wait now curcpu name s else Some s) of
                        None \<Rightarrow> None
                      | Some s \<Rightarrow>
                          (let flags = cy_flags (cyclic_at s (the (id_lookup name s)))
                           in case (if \<not> has_flag flags CYF_CPU_BOUND \<and> d \<noteq> None then cyclic_bind_cpu wait now curcpu name (the d) s else Some s) of
                                None \<Rightarrow> None
                              | Some s \<Rightarrow>
                                  (if \<not> has_flag flags CYF_PART_BOUND \<and> part \<noteq> None
                                   then cyclic_bind_cpupart wait now curcpu name (the part) s else Some s)))))"

subsection \<open>CPUs that come and go\<close>

fun juggle_ids :: "(cyc_cpu \<Rightarrow> cyc_cpu) \<Rightarrow> int \<Rightarrow> nat \<Rightarrow> nat \<Rightarrow> cyc_id list \<Rightarrow> cyc_sys \<Rightarrow> (bool \<times> cyc_sys) option" where
  "juggle_ids wait now curcpu c [] s = Some (True, s)"
| "juggle_ids wait now curcpu c (idp # ids) s =
     (if cyi_cpu idp \<noteq> c then juggle_ids wait now curcpu c ids s
      else case cyclic_juggle_one wait now curcpu idp s of
             None \<Rightarrow> None
           | Some (ok, s) \<Rightarrow> map_option (\<lambda>(all, s). (ok \<and> all, s)) (juggle_ids wait now curcpu c ids s))"

definition cyclic_juggle :: "(cyc_cpu \<Rightarrow> cyc_cpu) \<Rightarrow> int \<Rightarrow> nat \<Rightarrow> nat \<Rightarrow> cyc_sys \<Rightarrow> (bool \<times> cyc_sys) option" where
  "cyclic_juggle wait now curcpu c s = juggle_ids wait now curcpu c (cyclic_id_head s) s"

definition cyclic_offline :: "(cyc_cpu \<Rightarrow> cyc_cpu) \<Rightarrow> int \<Rightarrow> nat \<Rightarrow> nat \<Rightarrow> cyc_sys \<Rightarrow> (bool \<times> cyc_sys) option" where
  "cyclic_offline wait now curcpu c s =
     map_option (\<lambda>(all, s). (all, if all then set_cyc c ((cyc_of s c)\<lparr>cyp_state := CYS_OFFLINE\<rparr>) s else s))
       (cyclic_juggle wait now curcpu c s)"

fun move_in_ids :: "(cyc_cpu \<Rightarrow> cyc_cpu) \<Rightarrow> int \<Rightarrow> nat \<Rightarrow> cyc_id list \<Rightarrow> cyc_sys \<Rightarrow> cyc_sys option" where
  "move_in_ids wait now d [] s = Some s"
| "move_in_ids wait now d (idp # ids) s =
     (let c = sys_cpus s ! cyi_cpu idp
      in if cpu_part c \<noteq> cpu_part (sys_cpus s ! d) \<or> cpu_enable c \<or> has_flag (cy_flags (cyclic_at s idp)) CYF_CPU_BOUND
         then move_in_ids wait now d ids s
         else case cyclic_juggle_one_to wait now idp d s of
                None \<Rightarrow> None
              | Some s \<Rightarrow> move_in_ids wait now d ids s)"

definition cyclic_move_in :: "(cyc_cpu \<Rightarrow> cyc_cpu) \<Rightarrow> int \<Rightarrow> nat \<Rightarrow> cyc_sys \<Rightarrow> cyc_sys option" where
  "cyclic_move_in wait now d s =
     (if \<not> cpu_enable (sys_cpus s ! d) then Some s else move_in_ids wait now d (cyclic_id_head s) s)"

fun move_out_ids :: "(cyc_cpu \<Rightarrow> cyc_cpu) \<Rightarrow> int \<Rightarrow> nat \<Rightarrow> nat \<Rightarrow> cyc_id list \<Rightarrow> cyc_sys \<Rightarrow> (bool \<times> cyc_sys) option" where
  "move_out_ids wait now curcpu c [] s = Some (True, s)"
| "move_out_ids wait now curcpu c (idp # ids) s =
     (let flags = cy_flags (cyclic_at s idp)
      in if cyi_cpu idp \<noteq> c \<or> \<not> has_flag flags CYF_PART_BOUND then move_out_ids wait now curcpu c ids s
         else case cyclic_pick_cpu curcpu (Some (cpu_part (sys_cpus s ! c))) (Some c) (Some c) flags s of
                None \<Rightarrow> None
              | Some None \<Rightarrow> Some (False, s)
              | Some (Some dest) \<Rightarrow>
                  (case cyclic_juggle_one_to wait now idp dest s of
                     None \<Rightarrow> None
                   | Some s \<Rightarrow> move_out_ids wait now curcpu c ids s))"

definition cyclic_move_out :: "(cyc_cpu \<Rightarrow> cyc_cpu) \<Rightarrow> int \<Rightarrow> nat \<Rightarrow> nat \<Rightarrow> cyc_sys \<Rightarrow> (bool \<times> cyc_sys) option" where
  "cyclic_move_out wait now curcpu c s = move_out_ids wait now curcpu c (cyclic_id_head s) s"

definition cyclic_suspend :: "cyc_sys \<Rightarrow> cyc_sys" where
  "cyclic_suspend s = s\<lparr>sys_cpus := map (\<lambda>c. c\<lparr>cpu_cyclic := cyclic_suspend_xcall (cpu_cyclic c)\<rparr>) (sys_cpus s)\<rparr>"

definition cyclic_resume :: "cyc_sys \<Rightarrow> cyc_sys" where
  "cyclic_resume s = s\<lparr>sys_cpus := map (\<lambda>c. c\<lparr>cpu_cyclic := cyclic_resume_xcall (cpu_cyclic c)\<rparr>) (sys_cpus s)\<rparr>"

end
