(* ===== verification/Cyclic_Theorems.thy ===== *)
theory Cyclic_Theorems
  imports Cyclic_Fire Cyclic_Queue Cyclic_Sys
begin

section \<open>Properties of the cyclic subsystem\<close>

text \<open>
  The properties of the cyclics of a CPU, from the lemmas of the theories before.
\<close>

text \<open>
  C36: on a consistent CPU \<open>cyclic_fire()\<close> returns. It moves the expiration of every cyclic in use to
  the first time of its interval after \<open>now\<close> (so that the time modulo the interval is kept), adds the number of
  expirations to the pend count of a cyclic of a soft level, which is clamped at the maximum, calls the handler of a cyclic of
  the high level once for each, leaves the other cyclics alone, keeps the heap and programs the
  backend for the earliest expiration. The intervals that are skipped when a cyclic is more than a second late do not
  count as expirations. A consistent CPU has intervals from 1 to \<open>2 ^ 61\<close> and expirations up to \<open>2 ^ 62\<close>
  nanoseconds, and \<open>now\<close> is at most \<open>2 ^ 61\<close>, so that no sum of times overflows. This leaves out the
  one-shots that \<open>clock_highres\<close> makes of an interval near \<open>INT64_MAX\<close>.
\<close>

theorem cyclic_fire_correct:
  assumes "cyc_ok cpu" "now_ok now"
  shows "\<exists>cpu'. cyclic_fire now cpu = Some cpu' \<and> cyc_ok cpu' \<and> inuse cpu' = inuse cpu \<and>
    (\<forall>i \<in> inuse cpu. cyp_cyclics cpu' ! i = settled now (cyp_cyclics cpu ! i) \<and> now < expire_of cpu' i \<and>
       expire_of cpu' i mod cy_interval (cyp_cyclics cpu ! i) = expire_of cpu i mod cy_interval (cyp_cyclics cpu ! i)) \<and>
    (\<forall>i. i \<notin> inuse cpu \<longrightarrow> cyp_cyclics cpu' ! i = cyp_cyclics cpu ! i) \<and>
    (\<forall>h a. count_list (cyp_events cpu') (Handler CY_HIGH_LEVEL h a) = count_list (cyp_events cpu) (Handler CY_HIGH_LEVEL h a) +
       (\<Sum>i \<in> {i \<in> inuse cpu. fire_event (cyp_cyclics cpu ! i) = Handler CY_HIGH_LEVEL h a}. due_now now (cyp_cyclics cpu ! i))) \<and>
    (inuse cpu \<noteq> {} \<longrightarrow> last (cyp_events cpu') = Cyb_reprogram (Min (expire_of cpu' ` inuse cpu')))"
proof (cases "cyp_nelems cpu = 0")
  case True
  then have "inuse cpu = {}" by (simp add: inuse_def)
  then show ?thesis using True assms(1) by (simp add: cyclic_fire_def)
next
  case False
  then obtain d where d: "fire_loop now cpu = Some (expire_of d (cyp_heap d ! 0), d)" "fired now cpu d"
    using fire_loop_fired [OF assms(1) _ assms(2)] by blast
  note f = d(2) [unfolded fired_def]
  let ?e = "emit (Cyb_reprogram (expire_of d (cyp_heap d ! 0))) d"
  have r: "cyclic_fire now cpu = Some ?e" using False d(1) by (simp add: cyclic_fire_def)
  have sh: "cyc_shape d" "cyc_shape cpu" using f assms(1) by (simp_all add: cyc_ok_def)
  have n: "0 < cyp_nelems d" using f False by simp
  have m: "expire_of d (cyp_heap d ! 0) = Min (expire_of d ` inuse d)"
    using place_inuse [OF sh(1) n] root_earliest [of d] f by (intro Min_eqI [symmetric]) auto
  have b: "now < expire_of d i \<and> expire_of d i mod cy_interval (cyp_cyclics cpu ! i) = expire_of cpu i mod cy_interval (cyp_cyclics cpu ! i)"
    if "i \<in> inuse cpu" for i
  proof -
    have "expire_of d i = boundary now (expire_of cpu i) (cy_interval (cyp_cyclics cpu ! i))"
      using f that by (simp add: expire_of_def settled_def)
    moreover have "0 < cy_interval (cyp_cyclics cpu ! i)" using cyc_shapeD(7) [OF sh(2) that] by (simp add: used_ok_def time_ok_def)
    ultimately show ?thesis using boundary_after boundary_mod by simp
  qed
  have "count_list (cyp_events ?e) (Handler CY_HIGH_LEVEL h a) = count_list (cyp_events cpu) (Handler CY_HIGH_LEVEL h a) +
       (\<Sum>i \<in> {i \<in> inuse cpu. fire_event (cyp_cyclics cpu ! i) = Handler CY_HIGH_LEVEL h a}. due_now now (cyp_cyclics cpu ! i))" for h a
  proof -
    obtain es where es: "cyp_events d = cyp_events cpu @ es" "\<forall>P. length (filter P es) = (\<Sum>i \<in> {i \<in> inuse cpu. P (fire_event (cyp_cyclics cpu ! i))}. due_now now (cyp_cyclics cpu ! i))"
      using f by blast
    have c: "count_list es x = length (filter (\<lambda>e. e = x) es)" for x by (induction es) simp_all
    show ?thesis unfolding c [of "Handler CY_HIGH_LEVEL h a", symmetric] using es(2) [rule_format, of "\<lambda>e. e = Handler CY_HIGH_LEVEL h a"] c by (simp add: es(1))
  qed
  moreover have "cyc_ok ?e" using pend_only_ok [OF _ emit_pend_only] f by blast
  ultimately show ?thesis using r f b m by (intro exI [of _ ?e]) (simp add: expire_of_def)
qed

theorem cyclic_fire_correct_witness:
  "\<exists>cpu cpu'. cyclic_fire 27 cpu = Some cpu' \<and> inuse cpu = {0} \<and> expire_of cpu 0 = 5 \<and> expire_of cpu' 0 = 35 \<and> cy_pend (cyp_cyclics cpu' ! 0) = 3"
proof -
  define cpu where "cpu = cyclic_configure\<lparr>cyp_nelems := 1, cyp_cyclics := [cyclic_zero\<lparr>cy_expire := 5, cy_interval := 10\<rparr>]\<rparr>"
  have u: "inuse cpu = {0}" by (simp add: cpu_def inuse_def cyclic_configure_def)
  have "cyc_ok cpu"
    by (simp add: cyc_ok_def cyc_shape_def heap_ok_def heap_ord_def u) (auto simp: cpu_def cyclic_configure_def used_ok_def time_ok_def cyclic_zero_def)
  then obtain cpu' where c: "cyclic_fire 27 cpu = Some cpu'" "cyp_cyclics cpu' ! 0 = settled 27 (cyp_cyclics cpu ! 0)"
    using cyclic_fire_correct [of cpu 27] u by (auto simp: now_ok_def)
  have s: "settled 27 (cyp_cyclics cpu ! 0) = cyclic_zero\<lparr>cy_expire := 35, cy_interval := 10, cy_pend := 3\<rparr>"
    by (simp add: cpu_def settled_def boundary_def expirations_def cyclic_zero_def CY_HIGH_LEVEL_def NANOSEC_def bump_def)
  show ?thesis
    by (rule exI [of _ cpu], rule exI [of _ cpu']) (simp add: c u s expire_of_def, simp add: cpu_def)
qed

end
