(* ===== verification/Spec2Isabelle.thy ===== *)
theory Spec2Isabelle
  imports Kernel_Bits Compress Vmem_Theorems Nodeid Memlist Callout_Theorems Cyclic_Theorems
begin

section \<open>Solaris 8 kernel core: a verification library\<close>

text \<open>
  \<^bold>\<open>The program.\<close> The sources under \<open>src/usr/src\<close> are the Solaris 8 operating system. The development covers
  services of the common kernel (\<open>src/usr/src/uts/common\<close>) that the rest of it is built on: bit searches, data
  compression, the arena allocator, lists of numbers kept as runs, and the two timer services. File names below are
  relative to \<open>src/usr/src/uts/common\<close>. The model is the LP64 kernel, in which \<open>long\<close>, \<open>size_t\<close> and
  pointers have 64 bits and \<open>int\<close> has 32. Debug-only code (\<open>ASSERT\<close>, traces, audit) is left out.

  How the parts interact: \<open>os/vmem.c\<close> indexes its freelists with \<open>highbit()\<close> and \<open>lowbit()\<close> of
  \<open>os/bitmap.c\<close> and the rounding macros of \<open>sys/sysmacros.h\<close>; an arena takes spans from another arena by the
  same functions it offers. \<open>os/ddi_nodeid.c\<close> and \<open>os/memlist_new.c\<close> both keep sets of numbers as sorted
  lists of runs. \<open>os/callout.c\<close> runs handlers at ticks of the clock, \<open>os/cyclic.c\<close> at intervals of nanoseconds on
  each CPU. \<open>os/compress.c\<close> stands alone.

  \<^bold>\<open>Conventions.\<close> A \<open>struct\<close> is a record, an \<open>enum\<close> or a set of return codes a datatype, machine integers are
  words of their width, or integers that a named function reduces (\<open>c_int\<close>, \<open>index_t\<close>, \<open>hr\<close>).
  A linked list is a list of the identities of its elements or of the elements. A panic, a read or a write
  outside a buffer and a signed overflow the code can reach are error values. What runs under one lock is one
  operation; code that drops its lock or shares data without one is split into steps. Definitions have the names of the
  C functions; loops and branches that are definitions of their own have a suffix or a name of their own.

  \<^bold>\<open>Theories and what they show.\<close>

  \<^item> \<open>Kernel_Prelude\<close>: the integer types, checked array reads and lemmas on words, masks and powers of two.

  \<^item> \<open>Kernel_Bits\<close>: \<open>P2ALIGN\<close> and its relatives (\<open>sys/sysmacros.h\<close>), \<open>BT_TEST\<close>
    (\<open>sys/bitmap.h\<close>), and all of \<open>os/bitmap.c\<close>: \<open>bt_availbit\<close>, \<open>bt_gethighbit\<close>, \<open>bt_range\<close>, \<open>highbit\<close>,
    \<open>lowbit\<close>, \<open>bt_getlowbit\<close>. \<open>highbit\<close>, \<open>bt_availbit\<close>, \<open>bt_gethighbit\<close> and \<open>bt_getlowbit\<close> return the bit
    they promise. The last two return an \<open>int\<close>: their theorems hold for maps of less than \<open>2 ^ 31\<close> bits, and
    beyond it the model faults. \<open>bt_getlowbit\<close> reads one word after a range that ends on a word boundary.

  \<^item> \<open>Compress\<close>: \<open>compress\<close>, \<open>decompress\<close> and \<open>checksum32\<close> of \<open>os/compress.c\<close>. Compressing and
    decompressing is the identity, for every address of the source and every content of the uninitialised history; the
    source has less than \<open>2 ^ 31\<close> bytes because the raw copy counts in an \<open>int\<close>. \<open>decompress\<close> never
    writes outside its buffer, on any input; on truncated input it reads up to two bytes past its source.

  \<^item> \<open>Vmem_Model\<close>: the state and the operations of \<open>os/vmem.c\<close>, from segment structures, freelists and the hash
    table to \<open>vmem_xalloc\<close>, \<open>vmem_xfree\<close>, \<open>vmem_create\<close>, \<open>vmem_destroy\<close>, \<open>vmem_walk\<close>, \<open>vmem_size\<close>,
    \<open>vmem_hash_rescale\<close> and \<open>vmem_populate\<close>. \<open>Vmem_Links\<close> (freelists, bitmap of freelists, hash table),
    \<open>Vmem_Tiling\<close> (the segments tile the spans) and \<open>Vmem_Ops\<close> build the invariant \<open>vmem_inv\<close> and the
    abstraction \<open>vm_allocs\<close>, the set of allocated blocks. \<open>Vmem_Free\<close>, \<open>Vmem_Fit\<close>, \<open>Vmem_Search\<close>,
    \<open>Vmem_Span\<close> prove the steps of freeing, of choosing an address, of the walk over the freelists and of
    adding a span. \<open>Vmem_Alloc\<close> proves \<open>vmem_xalloc\<close> and \<open>vmem_xfree\<close> against a contract of the
    surroundings, the locale \<open>vmem_surroundings\<close>. \<open>Vmem_Arenas\<close> interprets it twice, on a root arena
    (\<open>root\<close>) and on an arena that imports from one (\<open>child\<close>), whose source functions are the model's own
    \<open>vmem_xalloc\<close> and \<open>vmem_xfree\<close>. \<open>Vmem_Complete\<close> shows that instant fit finds a segment if there is
    one, \<open>Vmem_Arena_Ops\<close> treats operations on whole arenas, and \<open>Vmem_Theorems\<close> states the properties:
    soundness of constrained allocation, freeing as removal of a block, consistency of every reachable state, service of every
    request that fits, the round trip, accounting, rescaling, creation, containment, and the error cases.

  \<^item> \<open>Interval_Lists\<close>: sets of numbers as sorted, disjoint and merged runs, with adding and removing a run.
    \<open>Id_Pool\<close>: the contract of an allocator of identifiers (locale \<open>id_pool\<close>).

  \<^item> \<open>Nodeid\<close>: \<open>os/ddi_nodeid.c\<close>. The list of available identifiers refines a run list and is an \<open>id_pool\<close>:
    no identifier is handed out twice, freeing panics exactly on an available one, taking removes exactly the one
    asked for.

  \<^item> \<open>Memlist\<close>: \<open>os/memlist_new.c\<close>. Adding and deleting spans is adding and removing runs, on every branch; every
    sequence of all the operations keeps the list well formed and loses no structure, apart from \<open>memlist_insert\<close> into
    an empty list, which loses its element.

  \<^item> \<open>Callout\<close>: \<open>os/callout.c\<close> and \<open>sys/callo.h\<close>. \<open>Callout_Loops\<close>: times, identifiers and termination.
    \<open>Callout_Inv\<close>: the step relation \<open>callout_step\<close> of the threads, the clock and the executions of one table, and
    its invariant. \<open>Callout_Theorems\<close>: no callout runs early, twice or is missed; each tick dispatches exactly
    when a callout is due; identifiers lead back to their table and are distinct; cancelling undoes a timeout.

  \<^item> \<open>Cyclic_Heap\<close>, \<open>Cyclic\<close>, \<open>Cyclic_Sys\<close>: \<open>os/cyclic.c\<close>, with \<open>sys/cyclic.h\<close> and
    \<open>sys/cyclic_impl.h\<close>: the heap loops, the operations of one CPU with the soft interrupt as a machine of its shared
    accesses, and the operations on identifiers and CPUs. \<open>Cyclic_Inv\<close> is the invariant of a CPU.
    \<open>Cyclic_Queue\<close> shows that the producer/consumer buffers are bounded queues (locale \<open>bounded_fifo\<close>, interpreted
    on them) although their counters wrap. \<open>Cyclic_Fire\<close> and \<open>Cyclic_Theorems\<close> prove \<open>cyclic_fire\<close>: it ends,
    fires every cyclic that is due, keeps the heap and programs the next interrupt. The other operations of \<open>os/cyclic.c\<close>
    are defined but no theorem is stated of them.

  \<^bold>\<open>Fuel, loops and bounds.\<close> \<open>vmem_xalloc\<close> takes the number of turns its wait loop may make. The theorems hold for every
    fuel, and one turn is enough where a result is claimed: a request that can be served is served in the first turn, and one
    with \<open>VM_NOSLEEP\<close> returns in it. \<open>vmem_populate\<close> has one unit more than the structures it moves. The loops of
    \<open>callout_execute\<close>, \<open>callout_schedule_1\<close> and \<open>cyclic_fire\<close> are partial functions that are proved to return.
    All other loops are total functions with a termination proof.

  \<^bold>\<open>Restrictions of the theorems.\<close>

  \<^item> The surroundings of an arena, \<open>root_env\<close> and \<open>child_env\<close>: the pool of segment structures is \<open>vmem_seg_arena\<close>
    and does not grow; nothing else runs while a call has dropped the lock, so waiting and reaping change nothing; there are
    no quantum caches; an importing arena calls its source without sleeping, and the source is a root arena. Arenas have a quantum that
    is a power of two.

  \<^item> \<open>import_ok\<close>: a request that may be served by an import is not mandatory (\<open>VM_PANIC\<close>), and its alignment and the quantum of
    the arena are at most the quantum of the source. \<open>vmem_import_panic\<close> shows the panic that a larger
    alignment causes.

  \<^item> \<open>vmem_create\<close> sets the size of the last freelist head with \<open>1UL << 64\<close>, which C leaves undefined; the model
    takes it as 0. \<open>vmem_hash_rescale\<close> shifts an \<open>int\<close>; the model has no value for a shift by 31 or more.

  \<^item> Callouts: times below \<open>2 ^ 62\<close> ticks, so that signed differences are exact, and a cancellation by an
    identifier without the executing bit, the only ones the functions return.

  \<^item> Cyclics: \<open>time_ok\<close> and \<open>now_ok\<close>, intervals up to \<open>2 ^ 61\<close>, expirations up to \<open>2 ^ 62\<close> and the present up to
    \<open>2 ^ 61\<close> nanoseconds. The one-shots that \<open>os/clock_highres.c\<close> makes of an interval up to \<open>INT64_MAX\<close> are excluded.

  \<^bold>\<open>Not modelled.\<close> Of the files above: kstat creation, \<open>vmem_init\<close> and the list of arenas, turning a page of the heap into
  segment structures (a parameter of \<open>vmem_populate\<close>), \<open>cyclic_init\<close>, \<open>cyclic_mp_init\<close>, \<open>cyclic_cpu_setup\<close> and
  \<open>cyclic_unconfigure\<close>, the cyclic backend (its calls are events) and the task queues (a dispatch is a result). Of the system: all other
  parts of the kernel (processes, memory management, file systems, networking, STREAMS, drivers), whose state is tied to
  hardware, devices or the whole kernel, and the platform kernels, commands, libraries and boot programs.
\<close>

end
